(* ===== verification/CI_Prelude.thy ===== *)
theory CI_Prelude
  imports Complex_Main "HOL-Library.Word"
begin

text \<open>
  Shared vocabulary of the development: the fixed-width integer types of the C sources, the
  treatment of pointers that the code compares with \<open>NULL\<close>, byte order, \<open>memcpy\<close> into a buffer,
  and the generic facts on words and lists that the component theories use.

  Conventions. \<open>uintN_t\<close> is \<open>N word\<close>, with C's wrap-around. A \<open>size_t\<close> or a loop index that is
  bounded by the length of a buffer in memory is a \<open>nat\<close>. A buffer is a list of bytes whose
  length is the number of valid bytes. A pointer that the code tests against \<open>NULL\<close> is an
  \<open>option\<close>, with \<open>None\<close> the null pointer; an out-parameter is a component of the result.
\<close>

unbundle bit_operations_syntax

type_synonym u8 = "8 word"
type_synonym u16 = "16 word"
type_synonym u32 = "32 word"
type_synonym u64 = "64 word"
type_synonym bytes = "u8 list"

named_theorems wire_simps \<open>evaluation of byte-level encoders and decoders\<close>
named_theorems const_defs \<open>definitions of the constants that the sources name with a macro\<close>

section \<open>Pointers tested against NULL\<close>

text \<open>An operation on a state behind a pointer: \<open>NULL\<close> gives the early-return value.\<close>

definition on_ptr :: "'r \<Rightarrow> ('s \<Rightarrow> 'r \<times> 's) \<Rightarrow> 's option \<Rightarrow> 'r \<times> 's option" where
  "on_ptr r0 f p = (case p of None \<Rightarrow> (r0, None) | Some s \<Rightarrow> (case f s of (r, s') \<Rightarrow> (r, Some s')))"

text \<open>A read-only operation on a state behind a pointer.\<close>

definition of_ptr :: "'r \<Rightarrow> ('s \<Rightarrow> 'r) \<Rightarrow> 's option \<Rightarrow> 'r" where
  "of_ptr r0 f p = (case p of None \<Rightarrow> r0 | Some s \<Rightarrow> f s)"

lemma on_ptr_simps [simp]:
  "on_ptr r0 f None = (r0, None)"
  "on_ptr r0 f (Some s) = (fst (f s), Some (snd (f s)))"
  by (simp_all add: on_ptr_def split: prod.split)

lemma of_ptr_simps [simp]:
  "of_ptr r0 f None = r0"
  "of_ptr r0 f (Some s) = f s"
  by (simp_all add: of_ptr_def)

section \<open>Words\<close>

lemma unat_less_pow [simp]: "unat (x :: u8) < 256" "unat (y :: u16) < 65536"
  "unat (z :: u32) < 4294967296" "unat (w :: u64) < 18446744073709551616"
  using unsigned_less [of x, where ?'a = nat] unsigned_less [of y, where ?'a = nat]
    unsigned_less [of z, where ?'a = nat] unsigned_less [of w, where ?'a = nat] by simp_all

lemma unat_add_lt:
  "unat a + unat b < 2 ^ LENGTH('a) \<Longrightarrow> unat (a + b) = unat a + unat (b :: 'a :: len word)"
  by (simp add: unat_word_ariths)

lemma unat_u16_u32 [simp]: "unat (ucast (x :: u16) :: u32) = unat x"
  by (simp add: unsigned_ucast_eq) (rule take_bit_nat_eq_self, rule less_trans [OF unat_less_pow(2)], simp)

lemma unat_u16_u64 [simp]: "unat (ucast (x :: u16) :: u64) = unat x"
  by (simp add: unsigned_ucast_eq) (rule take_bit_nat_eq_self, rule less_trans [OF unat_less_pow(2)], simp)

lemma unat_u32_u64 [simp]: "unat (ucast (x :: u32) :: u64) = unat x"
  by (simp add: unsigned_ucast_eq) (rule take_bit_nat_eq_self, rule less_trans [OF unat_less_pow(3)], simp)

lemma ucast_via_nat: "ucast w = word_of_nat (unat w)"
  by simp

lemma unat_pos [simp]: "m < 2 ^ 64 \<Longrightarrow> unat (word_of_nat m :: u64) = m"
  by (simp add: unsigned_of_nat take_bit_nat_eq_self)

lemma unat_pos32: "m < 2 ^ 32 \<Longrightarrow> unat (word_of_nat m :: u32) = m"
  by (simp add: unsigned_of_nat take_bit_nat_eq_self)

text \<open>A bijection on words hits every value below a threshold exactly once.\<close>

lemma card_below_threshold:
  fixes f :: "'a :: len word \<Rightarrow> 'b :: len word"
  assumes "bij f"
  shows "card {x. f x < t} = unat t"
proof -
  have "{x. f x < t} = inv f ` {y. y < t}"
    using assms by (auto simp: image_iff bij_is_surj surj_f_inv_f bij_is_inj intro!: exI [of _ "f _"])
  moreover have "inj (inv f)"
    using assms by (simp add: bij_imp_bij_inv bij_is_inj)
  ultimately have "card {x. f x < t} = card {y. y < t}"
    by (simp add: card_image inj_on_subset)
  moreover have "bij_betw unat {y. y < t} {n. n < unat t}"
  proof (rule bij_betw_byWitness [where f' = of_nat])
    show "\<forall>a' \<in> {n. n < unat t}. unat (of_nat a' :: 'b word) = a'"
      by (auto simp: unsigned_of_nat intro!: take_bit_nat_eq_self less_trans [OF _ unsigned_less])
    then show "of_nat ` {n. n < unat t} \<subseteq> {y. y < t}"
      by (auto simp: word_less_nat_alt)
  qed (auto simp: word_less_nat_alt)
  then have "card {y. y < t} = unat t"
    by (simp add: bij_betw_same_card)
  ultimately show ?thesis by simp
qed

section \<open>Byte order\<close>

text \<open>Little-endian and big-endian assembly of bytes, as every parser of the sources writes it.\<close>

definition le32 :: "u8 \<Rightarrow> u8 \<Rightarrow> u8 \<Rightarrow> u8 \<Rightarrow> u32" where
  "le32 a b c d = ucast a OR push_bit 8 (ucast b) OR push_bit 16 (ucast c) OR push_bit 24 (ucast d)"

definition be16 :: "u8 \<Rightarrow> u8 \<Rightarrow> u16" where
  "be16 a b = push_bit 8 (ucast a) OR ucast b"

definition be32 :: "u8 \<Rightarrow> u8 \<Rightarrow> u8 \<Rightarrow> u8 \<Rightarrow> u32" where
  "be32 a b c d = push_bit 24 (ucast a) OR push_bit 16 (ucast b) OR push_bit 8 (ucast c) OR ucast d"

lemma le32_split:
  "le32 (ucast v) (ucast (drop_bit 8 v)) (ucast (drop_bit 16 v)) (ucast (drop_bit 24 v)) = v"
proof (rule bit_word_eqI)
  fix n assume "n < LENGTH(32)"
  then consider "n < 8" | "8 \<le> n" "n < 16" | "16 \<le> n" "n < 24" | "24 \<le> n" "n < 32"
    by fastforce
  then show "bit (le32 (ucast v) (ucast (drop_bit 8 v)) (ucast (drop_bit 16 v))
      (ucast (drop_bit 24 v))) n = bit v n"
    by cases (auto simp: le32_def bit_simps)
qed

lemma le32_bytes:
  "ucast (le32 a b c d) = a"
  "ucast (drop_bit 8 (le32 a b c d)) = b"
  "ucast (drop_bit 16 (le32 a b c d)) = c"
  "ucast (drop_bit 24 (le32 a b c d)) = d"
  by (rule bit_word_eqI, auto simp: le32_def bit_simps dest: bit_imp_le_length)+

lemma be16_split: "be16 (ucast (drop_bit 8 v)) (ucast v) = v"
proof (rule bit_word_eqI)
  fix n assume "n < LENGTH(16)"
  then consider "n < 8" | "8 \<le> n" "n < 16" by fastforce
  then show "bit (be16 (ucast (drop_bit 8 v)) (ucast v)) n = bit v n"
    by cases (auto simp: be16_def bit_simps)
qed

section \<open>Buffers\<close>

text \<open>\<open>memcpy(dst + off, src, length src)\<close> on a destination that has room.\<close>

definition memcpy_at :: "'a list \<Rightarrow> nat \<Rightarrow> 'a list \<Rightarrow> 'a list" where
  "memcpy_at dst off src = take off dst @ src @ drop (off + length src) dst"

lemma length_memcpy_at [simp]:
  "off + length src \<le> length dst \<Longrightarrow> length (memcpy_at dst off src) = length dst"
  by (simp add: memcpy_at_def)

lemma nth_memcpy_at:
  assumes "off + length src \<le> length dst" and "i < length dst"
  shows "memcpy_at dst off src ! i =
    (if off \<le> i \<and> i < off + length src then src ! (i - off) else dst ! i)"
  using assms by (auto simp: memcpy_at_def nth_append min_def)

text \<open>The bytes \<open>[a, b)\<close> of a buffer.\<close>

definition seg :: "nat \<Rightarrow> nat \<Rightarrow> 'a list \<Rightarrow> 'a list" where
  "seg a b xs = take (b - a) (drop a xs)"

lemma length_seg [simp]: "b \<le> length xs \<Longrightarrow> length (seg a b xs) = b - a"
  by (simp add: seg_def)

lemma nth_seg: "b \<le> length xs \<Longrightarrow> i < b - a \<Longrightarrow> seg a b xs ! i = xs ! (a + i)"
  by (simp add: seg_def)

lemma seg_eq_iff:
  assumes "b \<le> length xs" and "length ys = length xs"
  shows "seg a b xs = seg a b ys \<longleftrightarrow> (\<forall>i. a \<le> i \<and> i < b \<longrightarrow> xs ! i = ys ! i)"
proof
  assume eq: "seg a b xs = seg a b ys"
  show "\<forall>i. a \<le> i \<and> i < b \<longrightarrow> xs ! i = ys ! i"
  proof (intro allI impI)
    fix i assume i: "a \<le> i \<and> i < b"
    then have "i - a < b - a" by linarith
    then have "seg a b xs ! (i - a) = xs ! i" "seg a b ys ! (i - a) = ys ! i"
      using assms i nth_seg [of b xs "i - a" a] nth_seg [of b ys "i - a" a] by simp_all
    with eq show "xs ! i = ys ! i" by simp
  qed
next
  assume "\<forall>i. a \<le> i \<and> i < b \<longrightarrow> xs ! i = ys ! i"
  then show "seg a b xs = seg a b ys"
    using assms by (intro nth_equalityI) (auto simp: nth_seg)
qed

section \<open>Loops over events\<close>

text \<open>
  The endless loops of the programs are folds of a step over the events that they receive. The
  contract: the steps for good events keep an invariant of the state, so a run keeps it.
\<close>

locale stepper =
  fixes step :: "'e \<Rightarrow> 's \<Rightarrow> 's"
    and good :: "'e \<Rightarrow> bool"
    and ok :: "'s \<Rightarrow> bool"
  assumes step_ok: "ok s \<Longrightarrow> good e \<Longrightarrow> ok (step e s)"
begin

lemma run_ok: "ok s \<Longrightarrow> \<forall>e \<in> set es. good e \<Longrightarrow> ok (fold step es s)"
  by (induction es arbitrary: s) (simp_all add: step_ok)

text \<open>A quantity that every step keeps is kept by a run.\<close>

lemma run_keeps:
  assumes "\<And>s e. ok s \<Longrightarrow> good e \<Longrightarrow> f (step e s) = f s" and "ok s" and "\<forall>e \<in> set es. good e"
  shows "f (fold step es s) = f s"
  using assms(2,3) by (induction es arbitrary: s) (simp_all add: step_ok assms(1))

end

lemma filter_count:
  assumes "map f xs = map g ys"
  shows "length (filter (\<lambda>x. P (f x)) xs) = length (filter (\<lambda>y. P (g y)) ys)"
  using arg_cong [OF assms, of "length \<circ> filter P"] by (simp add: filter_map comp_def)

end
