(* ===== verification/CI_Prng.thy ===== *)
theory CI_Prng
  imports CI_Prelude
begin

text \<open>
  The deterministic generator of \<open>src/lib/ci_prng.h\<close>: \<open>ci_splitmix64\<close> and the one draw per
  packet index, \<open>ci_draw\<close>. The lemmas show that the mixer is a permutation of the 64-bit words,
  so that a fixed seed gives every index a draw of its own, and the locale \<open>keyed_draw\<close> states
  what the drop rule and the burst-loss chain rely on.
\<close>

definition ci_splitmix64 :: "u64 \<Rightarrow> u64" where
  "ci_splitmix64 x =
     (let x = x + 0x9E3779B97F4A7C15;
          x = (x XOR drop_bit 30 x) * 0xBF58476D1CE4E5B9;
          x = (x XOR drop_bit 27 x) * 0x94D049BB133111EB
      in x XOR drop_bit 31 x)"

definition ci_draw :: "u64 \<Rightarrow> u64 \<Rightarrow> u64" where
  "ci_draw seed index = ci_splitmix64 (seed XOR index)"

section \<open>The mixer is a permutation\<close>

text \<open>A right xor-shift loses nothing: the high bits are read off and give the lower ones.\<close>

lemma xorshift_inj:
  fixes x y :: "'a :: len word"
  assumes "0 < k" and eq: "x XOR drop_bit k x = y XOR drop_bit k y"
  shows "x = y"
proof (rule bit_word_eqI)
  fix n
  show "bit x n = bit y n"
  proof (induction "LENGTH('a) - n" arbitrary: n rule: less_induct)
    case less
    have e: "bit (x XOR drop_bit k x) n = bit (y XOR drop_bit k y) n" using eq by simp
    show ?case
    proof (cases "n < LENGTH('a)")
      case True
      then have "bit x (n + k) = bit y (n + k)" using less [of "n + k"] assms(1) by auto
      with e show ?thesis by (auto simp: bit_simps add.commute)
    next
      case False
      then show ?thesis by (auto dest: bit_imp_le_length)
    qed
  qed
qed

text \<open>Multiplication by an odd constant is undone by the constant's inverse modulo \<open>2 ^ 64\<close>.\<close>

lemma mult_unit_inj:
  fixes x y c d :: "'a :: len word"
  assumes "c * d = 1" and "x * c = y * c"
  shows "x = y"
proof -
  have "x = x * c * d" by (simp add: mult.assoc assms(1))
  also have "\<dots> = y * c * d" by (simp add: assms(2))
  also have "\<dots> = y" by (simp add: mult.assoc assms(1))
  finally show ?thesis .
qed

lemma ci_splitmix64_inj:
  assumes "ci_splitmix64 x = ci_splitmix64 y"
  shows "x = y"
proof -
  let ?f = "\<lambda>x :: u64. x + 0x9E3779B97F4A7C15"
  let ?g = "\<lambda>x :: u64. (x XOR drop_bit 30 x) * 0xBF58476D1CE4E5B9"
  let ?h = "\<lambda>x :: u64. (x XOR drop_bit 27 x) * 0x94D049BB133111EB"
  have u1: "0xBF58476D1CE4E5B9 * 0x96DE1B173F119089 = (1 :: u64)"
    and u2: "0x94D049BB133111EB * 0x319642B2D24D8EC3 = (1 :: u64)" by simp_all
  from assms have "?h (?g (?f x)) = ?h (?g (?f y))"
    unfolding ci_splitmix64_def Let_def by (rule xorshift_inj [rotated]) simp
  then have "?g (?f x) XOR drop_bit 27 (?g (?f x)) = ?g (?f y) XOR drop_bit 27 (?g (?f y))"
    by (rule mult_unit_inj [OF u2])
  then have "?g (?f x) = ?g (?f y)"
    by (rule xorshift_inj [rotated]) simp
  then have "?f x XOR drop_bit 30 (?f x) = ?f y XOR drop_bit 30 (?f y)"
    by (rule mult_unit_inj [OF u1])
  then have "?f x = ?f y"
    by (rule xorshift_inj [rotated]) simp
  then show ?thesis by simp
qed

lemma bij_ci_splitmix64: "bij ci_splitmix64"
  by (simp add: bij_betw_def finite_UNIV_inj_surj injI ci_splitmix64_inj)

lemma bij_ci_draw: "bij (ci_draw seed)"
proof -
  have "inj (ci_draw seed)"
    by (rule injI, unfold ci_draw_def, drule ci_splitmix64_inj)
      (metis bit.xor_left_self)
  then show ?thesis
    by (simp add: bij_betw_def finite_UNIV_inj_surj)
qed

section \<open>What a client of the draws relies on\<close>

text \<open>
  The contract of a keyed generator: for each seed, the draws of distinct indices are distinct
  and every value is drawn.
\<close>

locale keyed_draw =
  fixes draw :: "u64 \<Rightarrow> u64 \<Rightarrow> u64"
  assumes bij_draw: "bij (draw seed)"
begin

lemma draw_eq_iff: "draw seed i = draw seed j \<longleftrightarrow> i = j"
  using bij_draw [of seed] by (auto simp: bij_def dest: injD)

lemma card_fires: "card {i. draw seed i < t} = unat t"
  by (rule card_below_threshold [OF bij_draw])

lemma ex1_draw: "\<exists>!i. draw seed i = v"
  using bij_draw [of seed] by (metis bij_pointE)

lemma fires_mono: "s \<le> t \<Longrightarrow> {i. draw seed i < s} \<subseteq> {i. draw seed i < t}"
  by auto

end

interpretation ci_draw: keyed_draw ci_draw
  by unfold_locales (rule bij_ci_draw)

end
