(* ===== verification/CI_Double.thy ===== *)
theory CI_Double
  imports CI_Prelude "HOL-Library.Log_Nat"
begin

text \<open>
  The part of C's \<open>double\<close> that the loss probabilities use: IEEE 754 binary64 values as
  rationals, with round-to-nearest-even after every operation. Infinities and NaN are not
  values of the model (a probability read from the command line is finite), and the exponent
  has no upper limit, which no computation of the sources comes near.
\<close>

type_synonym double = rat

definition d64_exp :: "rat \<Rightarrow> int" where
  "d64_exp x = (case quotient_of \<bar>x\<bar> of (n, d) \<Rightarrow>
     (let e = bitlen n - bitlen d in if 2 powi e \<le> \<bar>x\<bar> then e else e - 1))"

definition d64_ulp :: "rat \<Rightarrow> rat" where
  "d64_ulp x = 2 powi (max (d64_exp x - 52) (- 1074))"

definition round_half_even :: "rat \<Rightarrow> int" where
  "round_half_even q = (let f = \<lfloor>q\<rfloor>; r = q - of_int f in
     if r < 1/2 then f else if 1/2 < r then f + 1 else if even f then f else f + 1)"

definition d64_round :: "rat \<Rightarrow> double" where
  "d64_round x = (if x = 0 then 0 else of_int (round_half_even (x / d64_ulp x)) * d64_ulp x)"

definition d64_mul :: "double \<Rightarrow> double \<Rightarrow> double" where
  "d64_mul x y = d64_round (x * y)"

definition d64_div :: "double \<Rightarrow> double \<Rightarrow> double" where
  "d64_div x y = d64_round (x / y)"

definition d64_sub :: "double \<Rightarrow> double \<Rightarrow> double" where
  "d64_sub x y = d64_round (x - y)"

text \<open>The conversion \<open>(uint64_t)x\<close> truncates; it is defined for \<open>0 \<le> x < 2 ^ 64\<close>.\<close>

definition d64_to_u64 :: "double \<Rightarrow> u64" where
  "d64_to_u64 x = word_of_int \<lfloor>x\<rfloor>"

text \<open>The values that a \<open>double\<close> holds: a 53-bit significand times a power of two.\<close>

definition is_d64 :: "rat \<Rightarrow> bool" where
  "is_d64 x \<longleftrightarrow> (\<exists>k j. x = of_int k * 2 powi j \<and> \<bar>k\<bar> < 2 ^ 53 \<and> - 1074 \<le> j)"

section \<open>Exponent\<close>

lemma two_powi_pos: "2 powi e \<le> \<bar>x :: rat\<bar> \<Longrightarrow> x \<noteq> 0"
  using zero_less_power_int [of "2 :: rat" e] by linarith

lemma bitlen_powi:
  assumes "0 < n"
  shows "2 powi (bitlen n - 1) \<le> (of_int n :: rat)" and "(of_int n :: rat) < 2 powi bitlen n"
proof -
  have b: "2 ^ nat (bitlen n - 1) \<le> n" "n < 2 ^ nat (bitlen n)"
    using bitlen_bounds [OF assms] by auto
  have l: "1 \<le> bitlen n" using assms bitlen_eq_zero_iff [of n] bitlen_nonneg [of n] by linarith
  have "(of_int (2 ^ nat (bitlen n - 1)) :: rat) \<le> of_int n"
    using b(1) by (simp only: of_int_le_iff)
  then show "2 powi (bitlen n - 1) \<le> (of_int n :: rat)" using l by (simp add: power_int_def)
  have "(of_int n :: rat) < of_int (2 ^ nat (bitlen n))"
    using b(2) by (simp only: of_int_less_iff)
  then show "(of_int n :: rat) < 2 powi bitlen n" using l by (simp add: power_int_def)
qed

lemma d64_exp_bounds:
  assumes "x \<noteq> 0"
  shows "2 powi (d64_exp x) \<le> \<bar>x\<bar>" and "\<bar>x\<bar> < 2 powi (d64_exp x + 1)"
proof -
  obtain n d where nd: "quotient_of \<bar>x\<bar> = (n, d)" by fastforce
  have x: "\<bar>x\<bar> = of_int n / of_int d" and d: "0 < d"
    using nd by (auto intro: quotient_of_div quotient_of_denom_pos)
  have "0 < (of_int n / of_int d :: rat)" using assms x by (simp flip: x)
  then have n: "0 < n" using d by (simp add: zero_less_divide_iff)
  let ?e = "bitlen n - bitlen d"
  have bn: "2 powi (bitlen n - 1) \<le> (of_int n :: rat)" "(of_int n :: rat) < 2 powi bitlen n"
    and bd: "2 powi (bitlen d - 1) \<le> (of_int d :: rat)" "(of_int d :: rat) < 2 powi bitlen d"
    using bitlen_powi [OF n] bitlen_powi [OF d] by simp_all
  have lo: "2 powi (?e - 1) \<le> \<bar>x\<bar>"
  proof -
    have "2 powi (?e - 1) * of_int d \<le> 2 powi (?e - 1) * (2 powi bitlen d :: rat)"
      using bd by (intro mult_left_mono) auto
    also have "\<dots> = 2 powi (bitlen n - 1)"
      by (simp flip: power_int_add)
    finally show ?thesis using bn d by (simp add: x field_simps)
  qed
  have hi: "\<bar>x\<bar> < 2 powi (?e + 1)"
  proof -
    have "(2 powi bitlen n :: rat) = 2 powi (?e + 1) * 2 powi (bitlen d - 1)"
      by (simp flip: power_int_add)
    also have "\<dots> \<le> 2 powi (?e + 1) * of_int d"
      using bd by (intro mult_left_mono) auto
    finally show ?thesis using bn d by (simp add: x field_simps)
  qed
  show "2 powi (d64_exp x) \<le> \<bar>x\<bar>" "\<bar>x\<bar> < 2 powi (d64_exp x + 1)"
    using lo hi by (auto simp: d64_exp_def nd Let_def)
qed

lemma d64_exp_ge: "2 powi e \<le> \<bar>x\<bar> \<Longrightarrow> e \<le> d64_exp x"
proof (rule ccontr)
  assume le: "2 powi e \<le> \<bar>x\<bar>" and "\<not> e \<le> d64_exp x"
  then have "(2 powi (d64_exp x + 1) :: rat) \<le> 2 powi e"
    by (intro power_int_increasing) auto
  moreover have "x \<noteq> 0" using le by (rule two_powi_pos)
  ultimately show False using le d64_exp_bounds(2) [of x] by linarith
qed

lemma d64_exp_less: "x \<noteq> 0 \<Longrightarrow> \<bar>x\<bar> < 2 powi e \<Longrightarrow> d64_exp x < e"
  using d64_exp_bounds(1) [of x] power_int_increasing [of e "d64_exp x" "2 :: rat"] by fastforce

section \<open>Rounding\<close>

lemma round_half_even_of_int [simp]: "round_half_even (of_int k) = k"
  by (simp add: round_half_even_def)

lemma round_half_even_error: "\<bar>of_int (round_half_even q) - q\<bar> \<le> 1/2"
proof -
  have "of_int \<lfloor>q\<rfloor> \<le> q" "q < of_int \<lfloor>q\<rfloor> + 1" by linarith+
  then show ?thesis by (simp add: round_half_even_def Let_def abs_le_iff)
qed

lemma round_half_even_near:
  "q - 1/2 \<le> of_int (round_half_even q)" "of_int (round_half_even q) \<le> q + 1/2"
  using round_half_even_error [of q] unfolding abs_le_iff by linarith+

lemma round_half_even_le: "q \<le> of_int k \<Longrightarrow> round_half_even q \<le> k"
proof -
  assume "q \<le> of_int k"
  then have "of_int (round_half_even q) < (of_int (k + 1) :: rat)"
    using round_half_even_near(2) [of q] by simp
  then show ?thesis unfolding of_int_less_iff by simp
qed

lemma round_half_even_ge: "of_int k \<le> q \<Longrightarrow> k \<le> round_half_even q"
proof -
  assume "of_int k \<le> q"
  then have "(of_int (k - 1) :: rat) < of_int (round_half_even q)"
    using round_half_even_near(1) [of q] by simp
  then show ?thesis unfolding of_int_less_iff by simp
qed

lemma d64_ulp_pos [simp]: "0 < d64_ulp x"
  by (simp add: d64_ulp_def)

lemma d64_ulp_neq_0 [simp]: "d64_ulp x \<noteq> 0"
  using d64_ulp_pos [of x] by linarith

lemma d64_round_0 [simp]: "d64_round 0 = 0"
  by (simp add: d64_round_def)

lemma d64_round_nonneg: "0 \<le> x \<Longrightarrow> 0 \<le> d64_round x"
  using round_half_even_ge [of 0 "x / d64_ulp x"] d64_ulp_pos [of x]
  by (simp add: d64_round_def order_less_imp_le)

lemma d64_ops_nonneg:
  "0 \<le> x \<Longrightarrow> 0 \<le> y \<Longrightarrow> 0 \<le> d64_mul x y"
  "0 \<le> x \<Longrightarrow> 0 \<le> y \<Longrightarrow> 0 \<le> d64_div x y"
  "y \<le> x \<Longrightarrow> 0 \<le> d64_sub x y"
  by (simp_all add: d64_mul_def d64_div_def d64_sub_def d64_round_nonneg)

lemma d64_round_error:
  assumes "2 powi (- 1022) \<le> \<bar>x\<bar>"
  shows "\<bar>d64_round x - x\<bar> \<le> \<bar>x\<bar> / 2 ^ 53"
proof -
  let ?u = "d64_ulp x" and ?q = "x / d64_ulp x"
  have x: "x \<noteq> 0" using assms by (rule two_powi_pos)
  have u: "?u * 2 ^ 52 \<le> \<bar>x\<bar>"
  proof -
    have "- 1022 \<le> d64_exp x" using assms by (rule d64_exp_ge)
    then have "max (d64_exp x - 52) (- 1074) = d64_exp x - 52" by simp
    then have "?u * 2 ^ 52 = 2 powi (d64_exp x - 52) * 2 powi 52"
      by (simp add: d64_ulp_def)
    also have "\<dots> = 2 powi (d64_exp x - 52 + 52)" by (rule power_int_add [symmetric]) simp
    finally show ?thesis using d64_exp_bounds(1) [OF x] by simp
  qed
  have "d64_round x - x = (of_int (round_half_even ?q) - ?q) * ?u"
    using x d64_ulp_pos [of x] by (simp add: d64_round_def field_simps)
  then have "\<bar>d64_round x - x\<bar> = \<bar>of_int (round_half_even ?q) - ?q\<bar> * ?u"
    by (simp add: abs_mult abs_of_pos)
  also have "\<dots> \<le> 1/2 * ?u"
    by (intro mult_right_mono round_half_even_error order_less_imp_le d64_ulp_pos)
  also have "\<dots> \<le> \<bar>x\<bar> / 2 ^ 53" using u by simp
  finally show ?thesis .
qed

lemma d64_round_error_pos:
  assumes "2 powi (- 1022) \<le> x"
  shows "\<bar>d64_round x - x\<bar> \<le> x * (1 / 2 ^ 53)" and "x / 2 \<le> d64_round x" and "0 < x"
proof -
  show x: "0 < x" using assms zero_less_power_int [of "2 :: rat" "- 1022"] by linarith
  then have "\<bar>x\<bar> = x" by simp
  then have "\<bar>d64_round x - x\<bar> \<le> x / 2 ^ 53"
    using d64_round_error [of x] assms by (simp only:)
  then show e: "\<bar>d64_round x - x\<bar> \<le> x * (1 / 2 ^ 53)" by simp
  moreover have "x * (1 / 2 ^ 53) \<le> x / 2" using x by simp
  ultimately show "x / 2 \<le> d64_round x" by linarith
qed

text \<open>Every value that fits the format is a fixed point of the rounding.\<close>

lemma d64_round_is_d64:
  assumes "is_d64 x"
  shows "d64_round x = x"
proof (cases "x = 0")
  case False
  obtain k j where kj: "x = of_int k * 2 powi j" "\<bar>k\<bar> < 2 ^ 53" "- 1074 \<le> j"
    using assms by (auto simp: is_d64_def)
  let ?m = "max (d64_exp x - 52) (- 1074)"
  have "\<bar>x\<bar> < 2 powi 53 * 2 powi j"
  proof -
    have "(of_int \<bar>k\<bar> :: rat) < 2 powi 53"
      using kj(2) by (simp add: power_int_def flip: of_int_less_iff [where 'a = rat])
    then show ?thesis by (simp add: kj(1) abs_mult)
  qed
  then have "d64_exp x < 53 + j"
    by (intro d64_exp_less [OF False]) (simp add: power_int_add)
  then have m: "?m \<le> j" using kj(3) by simp
  have "(2 :: rat) powi j / 2 powi ?m = 2 ^ nat (j - ?m)"
    using m by (simp add: power_int_def [of _ "j - ?m"] flip: power_int_diff)
  then have "x / d64_ulp x = of_int (k * 2 ^ nat (j - ?m))"
    unfolding d64_ulp_def by (subst (1) kj(1)) (simp flip: times_divide_eq_right)
  then have "d64_round x = x / d64_ulp x * d64_ulp x"
    using False by (simp add: d64_round_def del: of_int_mult)
  then show ?thesis
    using d64_ulp_pos [of x] by simp
qed simp

lemma d64_round_1 [simp]: "d64_round 1 = 1"
  by (rule d64_round_is_d64, unfold is_d64_def, rule exI [of _ 1], rule exI [of _ 0]) simp

lemma d64_round_le_1:
  assumes "0 \<le> x" and "x \<le> 1"
  shows "d64_round x \<le> 1"
proof (cases "x = 0 \<or> x = 1")
  case False
  then have "d64_exp x < 0" using assms by (intro d64_exp_less) auto
  let ?m = "max (d64_exp x - 52) (- 1074)"
  have m: "?m \<le> 0" using \<open>d64_exp x < 0\<close> by simp
  have e: "1 / d64_ulp x = of_int (2 ^ nat (- ?m))"
    using m by (simp add: d64_ulp_def power_int_def [of _ ?m] field_simps power_inverse)
  have "x / d64_ulp x \<le> 1 / d64_ulp x"
    using assms(2) by (rule divide_right_mono) (simp add: order_less_imp_le)
  then have "round_half_even (x / d64_ulp x) \<le> 2 ^ nat (- ?m)"
    unfolding e by (rule round_half_even_le)
  then have "(of_int (round_half_even (x / d64_ulp x)) :: rat) \<le> 1 / d64_ulp x"
    unfolding e by (simp only: of_int_le_iff)
  then show ?thesis
    using False d64_ulp_pos [of x] by (simp add: d64_round_def field_simps)
qed auto

section \<open>A probability scaled to a 64-bit threshold\<close>

text \<open>
  Multiplication by a power of two only changes the exponent, so it is exact. A probability
  below 1 is at most \<open>1 - 2 ^ -53\<close>, which keeps the product clear of \<open>2 ^ 64\<close>.
\<close>

lemma d64_mul_2_64:
  assumes "is_d64 p"
  shows "d64_mul p 18446744073709551616 = p * 2 ^ 64"
proof -
  obtain k j where kj: "p = of_int k * 2 powi j" "\<bar>k\<bar> < 2 ^ 53" "- 1074 \<le> j"
    using assms by (auto simp: is_d64_def)
  have "p * 2 ^ 64 = of_int k * (2 powi j * 2 powi 64)" by (simp add: kj(1))
  also have "\<dots> = of_int k * 2 powi (j + 64)" by (simp add: power_int_add)
  finally have "is_d64 (p * 2 ^ 64)"
    unfolding is_d64_def using kj(2,3) by (intro exI [of _ k] exI [of _ "j + 64"]) simp
  then show ?thesis by (simp add: d64_mul_def d64_round_is_d64)
qed

lemma is_d64_below_1:
  assumes "is_d64 p" and "0 \<le> p" and "p < 1"
  shows "p \<le> 1 - 1 / 2 ^ 53"
proof -
  obtain k j where kj: "p = of_int k * 2 powi j" "\<bar>k\<bar> < 2 ^ 53" "- 1074 \<le> j"
    using assms by (auto simp: is_d64_def)
  have k: "0 \<le> k" using assms(2) zero_less_power_int [of "2 :: rat" j]
    by (simp add: kj(1) zero_le_mult_iff not_le [symmetric])
  show ?thesis
  proof (cases "- 53 \<le> j")
    case True
    have j: "j < 0 \<or> k = 0"
    proof (rule ccontr)
      assume "\<not> (j < 0 \<or> k = 0)"
      then have "1 * 1 \<le> (of_int k :: rat) * 2 powi j"
        using k by (intro mult_mono) (auto simp: power_int_def)
      with assms(3) show False by (simp add: kj(1))
    qed
    have "k < 2 ^ nat (- j)" if "j < 0"
    proof -
      have "p * 2 ^ nat (- j) < 1 * 2 ^ nat (- j)"
        using assms(3) by (intro mult_strict_right_mono) auto
      moreover have "p * 2 ^ nat (- j) = of_int k"
        using that by (simp add: kj(1) power_int_def flip: power_mult_distrib)
      ultimately have "(of_int k :: rat) < of_int (2 ^ nat (- j))" by simp
      then show ?thesis by (simp only: of_int_less_iff)
    qed
    then have "(of_int k :: rat) \<le> of_int (2 ^ nat (- j) - 1)" if "j < 0"
      using that by (simp only: of_int_le_iff) simp
    then have "p \<le> (2 powi (- j) - 1) * 2 powi j" if "j < 0"
      unfolding kj(1) using that by (intro mult_right_mono) (auto simp: power_int_def [of _ "- j"])
    moreover have "(2 powi (- j) - 1) * 2 powi j = (1 :: rat) - 2 powi j"
      by (simp add: left_diff_distrib flip: power_int_add)
    moreover have "(2 :: rat) powi (- 53) \<le> 2 powi j"
      using True by (intro power_int_increasing) auto
    ultimately have "p \<le> 1 - 2 powi (- 53)" if "j < 0" using that by linarith
    then show ?thesis using j by (auto simp: kj(1) power_int_minus_divide)
  next
    case False
    have "(of_int k :: rat) \<le> 2 ^ 53"
      using kj(2) k by (metis abs_of_nonneg less_imp_le of_int_le_numeral_power_cancel_iff)
    then have "p \<le> 2 ^ 53 * 2 powi (- 54)"
      unfolding kj(1) using False by (intro mult_mono power_int_increasing) auto
    then show ?thesis by (simp add: power_int_minus_divide)
  qed
qed

lemma d64_threshold:
  assumes "is_d64 p" and "0 \<le> p" and "p < 1"
  shows "unat (d64_to_u64 (d64_mul p 18446744073709551616)) = nat \<lfloor>p * 2 ^ 64\<rfloor>"
    and "p * 2 ^ 64 \<le> 2 ^ 64 - 2048"
proof -
  show le: "p * 2 ^ 64 \<le> 2 ^ 64 - 2048"
    using is_d64_below_1 [OF assms] by simp
  then have "p * 2 ^ 64 < of_int (2 ^ 64)" by simp
  then have "\<lfloor>p * 2 ^ 64\<rfloor> < 2 ^ 64" unfolding floor_less_iff by simp
  moreover have "0 \<le> \<lfloor>p * 2 ^ 64\<rfloor>" using assms(2) by simp
  ultimately show "unat (d64_to_u64 (d64_mul p 18446744073709551616)) = nat \<lfloor>p * 2 ^ 64\<rfloor>"
    by (simp add: d64_mul_2_64 [OF assms(1)] d64_to_u64_def unsigned_of_int take_bit_int_eq_self)
qed

section \<open>Error propagation\<close>

text \<open>
  A quotient whose numerator, denominator and value are each rounded with relative error \<open>e\<close> is off
  by a factor within \<open>1 \<plusminus> 4 * e\<close>.
\<close>

lemma rounded_quotient:
  fixes x y m d q e :: rat
  assumes "0 < x" "0 < y" "0 \<le> e" "e \<le> 1/16"
    and m: "\<bar>m - x\<bar> \<le> x * e" and d: "\<bar>d - y\<bar> \<le> y * e" and q: "\<bar>q - m / d\<bar> \<le> (m / d) * e"
  shows "\<exists>k. q * y = k * x \<and> 1 - 4 * e \<le> k \<and> k \<le> 1 + 4 * e"
proof -
  have e2: "e * e \<le> e * (1/16)" using assms by (intro mult_left_mono) auto
  have mb: "x * (1 - e) \<le> m" "m \<le> x * (1 + e)" using m by (auto simp: abs_le_iff algebra_simps)
  have db: "y * (1 - e) \<le> d" "d \<le> y * (1 + e)" using d by (auto simp: abs_le_iff algebra_simps)
  have "0 < y * (1 - e)" using assms by (intro mult_pos_pos) auto
  then have dp: "0 < d" using db by linarith
  have qd: "m * (1 - e) \<le> q * d" "q * d \<le> m * (1 + e)"
  proof -
    define w where "w = m / d"
    have wd: "m = w * d" using dp by (simp add: w_def)
    have "w * (1 - e) \<le> q" "q \<le> w * (1 + e)"
      using q unfolding w_def [symmetric] by (auto simp: abs_le_iff algebra_simps)
    then have "w * (1 - e) * d \<le> q * d" "q * d \<le> w * (1 + e) * d" using dp by simp_all
    then show "m * (1 - e) \<le> q * d" "q * d \<le> m * (1 + e)" unfolding wd by (simp_all add: mult_ac)
  qed
  have mp: "0 \<le> m" using mb(1) assms mult_nonneg_nonneg[of x "1 - e"] by linarith
  have "0 \<le> q * d" using qd(1) mp assms mult_nonneg_nonneg[of m "1 - e"] by linarith
  then have qp: "0 \<le> q" using dp by (simp add: zero_le_mult_iff)
  have up: "q * y * (1 - e) \<le> x * ((1 + e) * (1 + e))"
  proof -
    have "q * (y * (1 - e)) \<le> q * d" using db qp by (intro mult_left_mono) auto
    also have "\<dots> \<le> m * (1 + e)" by (rule qd)
    also have "\<dots> \<le> x * (1 + e) * (1 + e)" using mb assms by (intro mult_right_mono) auto
    finally show ?thesis by (simp add: mult.assoc)
  qed
  have lo: "x * ((1 - e) * (1 - e)) \<le> q * y * (1 + e)"
  proof -
    have "x * (1 - e) * (1 - e) \<le> m * (1 - e)" using mb assms by (intro mult_right_mono) auto
    also have "\<dots> \<le> q * d" by (rule qd)
    also have "\<dots> \<le> q * (y * (1 + e))" using db qp by (intro mult_left_mono) auto
    finally show ?thesis by (simp add: mult.assoc)
  qed
  let ?k = "q * y / x"
  have ku: "?k * (1 - e) \<le> (1 + e) * (1 + e)" using up assms(1) by (simp add: field_simps)
  have kl: "(1 - e) * (1 - e) \<le> ?k * (1 + e)" using lo assms(1) by (simp add: field_simps)
  have "(1 + e) * (1 + e) \<le> (1 + 4 * e) * (1 - e)" using e2 assms by (simp add: algebra_simps)
  then have "?k * (1 - e) \<le> (1 + 4 * e) * (1 - e)" using ku by linarith
  then have "?k \<le> 1 + 4 * e"
    by (rule mult_right_le_imp_le) (use assms in linarith)
  moreover have "(1 - 4 * e) * (1 + e) \<le> (1 - e) * (1 - e)" using e2 assms by (simp add: algebra_simps)
  then have "(1 - 4 * e) * (1 + e) \<le> ?k * (1 + e)" using kl by linarith
  then have "1 - 4 * e \<le> ?k"
    by (rule mult_right_le_imp_le) (use assms in linarith)
  ultimately show ?thesis using assms(1) by (intro exI[of _ ?k]) auto
qed

text \<open>
  If \<open>p\<close> is \<open>r * l / (1 - l)\<close> up to a factor within \<open>1 \<plusminus> e\<close>, then \<open>p / (p + r)\<close> is \<open>l\<close> up to \<open>2 * e\<close>.
\<close>

lemma marginal_error:
  fixes l r p k :: rat
  assumes "0 < l" "l < 1" "0 < r" and p: "p * (1 - l) = k * (r * l)"
    and k: "1 - e \<le> k" "k \<le> 1 + e" "e \<le> 1/2" "0 \<le> e"
  shows "\<bar>p / (p + r) - l\<bar> \<le> 2 * e"
proof -
  have kp: "1/2 \<le> k" using k by linarith
  have pe: "p = k * r * l / (1 - l)" using p assms(2) by (simp add: field_simps)
  have den: "0 < k * l + (1 - l)" using kp assms(1,2) by (intro add_pos_pos mult_pos_pos) auto
  define c where "c = r / (1 - l)"
  have "c \<noteq> 0" using assms(2,3) by (simp add: c_def)
  moreover have "p = c * (k * l)" by (simp add: pe c_def)
  moreover have "p + r = c * (k * l + (1 - l))" using assms(2) by (simp add: pe c_def field_simps)
  ultimately have "p / (p + r) = k * l / (k * l + (1 - l))" by simp
  moreover have "k * l / (k * l + (1 - l)) - l = l * (1 - l) * (k - 1) / (k * l + (1 - l))"
    using den by (simp add: field_simps)
  ultimately have eq: "p / (p + r) - l = l * (1 - l) * (k - 1) / (k * l + (1 - l))" by simp
  have d: "1/2 \<le> k * l + (1 - l)"
  proof -
    have "1/2 * l \<le> k * l" using kp assms(1) by (intro mult_right_mono) auto
    then show ?thesis using assms(2) by linarith
  qed
  have "\<bar>l * (1 - l) * (k - 1)\<bar> \<le> e"
  proof -
    have "l * (1 - l) \<le> 1 * 1" using assms(1,2) by (intro mult_mono) auto
    then have "l * (1 - l) * \<bar>k - 1\<bar> \<le> 1 * e" using k assms(1,2) by (intro mult_mono) (auto simp: abs_le_iff)
    then show ?thesis using assms(1,2) by (simp add: abs_mult)
  qed
  then have "\<bar>p / (p + r) - l\<bar> \<le> e / (k * l + (1 - l))"
    unfolding eq using den by (simp add: abs_divide divide_right_mono)
  also have "\<dots> \<le> e / (1/2)" using d k den by (intro divide_left_mono) auto
  finally show ?thesis by simp
qed

end
