(* ===== verification/CI_Wire.thy ===== *)
theory CI_Wire
  imports CI_Prelude
begin

text \<open>
  The packet parsers of \<open>src/lib/ci_rdp.c\<close> (the 5-byte big-endian RDP trailer) and
  \<open>src/lib/ci_dtp.c\<close> (the little-endian byte offset of a DTP data packet and the fragment index
  derived from it), with the payloads that the two traffic generators of \<open>src/tests/e2e\<close> send.
\<close>

section \<open>Constants\<close>

definition CI_RDP_HEADER_SIZE :: nat where [const_defs]: "CI_RDP_HEADER_SIZE = 5"
definition CI_RDP_SYN :: u8 where [const_defs]: "CI_RDP_SYN = 0x08"
definition CI_RDP_ACK :: u8 where [const_defs]: "CI_RDP_ACK = 0x04"
definition CI_RDP_FLAG_MASK :: u8 where [const_defs]: "CI_RDP_FLAG_MASK = 0x0F"
definition CI_CSP_FRDP :: u8 where [const_defs]: "CI_CSP_FRDP = 0x02"
definition CI_DTP_DATA_PORT :: u16 where [const_defs]: "CI_DTP_DATA_PORT = 8"
definition CI_DIPP_META_PORT :: u16 where [const_defs]: "CI_DIPP_META_PORT = 13"
definition CI_DTP_OFFSET_SIZE :: nat where [const_defs]: "CI_DTP_OFFSET_SIZE = 4"
definition CI_DTP_OVERHEAD_DIPP :: u16 where [const_defs]: "CI_DTP_OVERHEAD_DIPP = 4"
definition CI_DTP_OVERHEAD_SATDEPLOY :: u16 where [const_defs]: "CI_DTP_OVERHEAD_SATDEPLOY = 8"

section \<open>RDP trailer\<close>

record ci_rdp_header =
  h_flags :: u8
  h_seq :: u16
  h_ack :: u16

definition ci_rdp_parse_trailer :: "bytes option \<Rightarrow> ci_rdp_header option" where
  "ci_rdp_parse_trailer data =
     (case data of None \<Rightarrow> None
      | Some d \<Rightarrow>
          if length d < CI_RDP_HEADER_SIZE then None
          else let t = drop (length d - CI_RDP_HEADER_SIZE) d in
            Some \<lparr>h_flags = t ! 0 AND CI_RDP_FLAG_MASK,
                  h_seq = be16 (t ! 1) (t ! 2),
                  h_ack = be16 (t ! 3) (t ! 4)\<rparr>)"

section \<open>DTP data header\<close>

definition ci_dtp_parse_offset :: "bytes option \<Rightarrow> u32 option" where
  "ci_dtp_parse_offset data =
     (case data of None \<Rightarrow> None
      | Some d \<Rightarrow>
          if length d < CI_DTP_OFFSET_SIZE then None
          else Some (le32 (d ! 0) (d ! 1) (d ! 2) (d ! 3)))"

definition ci_dtp_fragment_index_ovh :: "u32 \<Rightarrow> u16 \<Rightarrow> u16 \<Rightarrow> u32 option" where
  "ci_dtp_fragment_index_ovh offset mtu overhead =
     (if mtu \<le> overhead then None else Some (offset div ucast (mtu - overhead)))"

definition ci_dtp_fragment_index :: "u32 \<Rightarrow> u16 \<Rightarrow> u32 option" where
  "ci_dtp_fragment_index offset mtu = ci_dtp_fragment_index_ovh offset mtu CI_DTP_OVERHEAD_DIPP"

section \<open>The generators' payloads\<close>

text \<open>The wire layout of a trailer: flags, then sequence and acknowledgement number, big-endian.\<close>

definition rdp_trailer :: "u8 \<Rightarrow> u16 \<Rightarrow> u16 \<Rightarrow> bytes" where
  "rdp_trailer f s a = [f, ucast (drop_bit 8 s), ucast s, ucast (drop_bit 8 a), ucast a]"

definition ci_gen_payload :: "u16 \<Rightarrow> bytes" where
  "ci_gen_payload seq =
     [0xDE, 0xAD, 0xBE, CI_RDP_ACK, ucast (drop_bit 8 seq), ucast (seq AND 0xFF), 0x00, 0x00]"

definition le32_bytes_of :: "u32 \<Rightarrow> bytes" where
  "le32_bytes_of v = [ucast v, ucast (drop_bit 8 v), ucast (drop_bit 16 v), ucast (drop_bit 24 v)]"

definition ci_gen_dtp_payload :: "u32 \<Rightarrow> u32 \<Rightarrow> bytes" where
  "ci_gen_dtp_payload step i =
     (let off = i * step in
      [ucast (off AND 0xFF), ucast (drop_bit 8 off AND 0xFF), ucast (drop_bit 16 off AND 0xFF),
       ucast (drop_bit 24 off AND 0xFF), 0xDE, 0xAD, 0xBE, 0xEF])"

section \<open>Lemmas\<close>

lemma ucast_and_ff [simp]: "(ucast (x AND 0xFF) :: u8) = ucast (x :: 'a :: len word)"
  by (rule bit_word_eqI)
    (auto simp: bit_simps bit_numeral_rec less_Suc_eq numeral_eq_Suc dest: bit_imp_le_length)

lemma parse_trailer_None [wire_simps]:
  "ci_rdp_parse_trailer None = None"
  "length d < 5 \<Longrightarrow> ci_rdp_parse_trailer (Some d) = None"
  by (simp_all add: ci_rdp_parse_trailer_def CI_RDP_HEADER_SIZE_def)

lemma parse_trailer_append [wire_simps]:
  "ci_rdp_parse_trailer (Some (payload @ rdp_trailer f s a)) =
     Some \<lparr>h_flags = f AND CI_RDP_FLAG_MASK, h_seq = s, h_ack = a\<rparr>"
  by (simp add: ci_rdp_parse_trailer_def rdp_trailer_def CI_RDP_HEADER_SIZE_def be16_split)

lemma ci_gen_payload_eq: "ci_gen_payload seq = [0xDE, 0xAD, 0xBE] @ rdp_trailer CI_RDP_ACK seq 0"
  by (simp add: ci_gen_payload_def rdp_trailer_def)

lemma parse_offset_None [wire_simps]:
  "ci_dtp_parse_offset None = None"
  "length d < 4 \<Longrightarrow> ci_dtp_parse_offset (Some d) = None"
  by (simp_all add: ci_dtp_parse_offset_def CI_DTP_OFFSET_SIZE_def)

lemma parse_offset_append [wire_simps]:
  "ci_dtp_parse_offset (Some (le32_bytes_of v @ rest)) = Some v"
  by (simp add: ci_dtp_parse_offset_def le32_bytes_of_def CI_DTP_OFFSET_SIZE_def le32_split)

lemma ci_gen_dtp_payload_eq:
  "ci_gen_dtp_payload step i = le32_bytes_of (i * step) @ [0xDE, 0xAD, 0xBE, 0xEF]"
  by (simp add: ci_gen_dtp_payload_def le32_bytes_of_def Let_def)

text \<open>The fragment index is the quotient of the byte offset by the useful payload per packet.\<close>

lemma unat_fragment_index:
  assumes "overhead < mtu"
  shows "\<exists>k. ci_dtp_fragment_index_ovh offset mtu overhead = Some k
    \<and> unat k = unat offset div (unat mtu - unat overhead)"
proof -
  have "unat (mtu - overhead) = unat mtu - unat overhead"
    using assms by (simp add: unat_sub word_less_nat_alt word_le_nat_alt)
  then show ?thesis
    using assms by (simp add: ci_dtp_fragment_index_ovh_def unat_div)
qed

end
