(* ===== verification/CI_Rule.thy ===== *)
theory CI_Rule
  imports CI_Prng CI_Double CI_Wire
begin

text \<open>
  The drop rule of \<open>src/lib/ci_rule.c\<close> and \<open>src/lib/ci_rule.h\<close>: the parsed frame, the match scope,
  the per-flow index tracker (RDP sequence numbers unwrapped by an epoch, DTP fragment indices)
  and the deterministic drop decision. C's \<open>int\<close> truth values are \<open>bool\<close>, with \<open>True\<close> for a
  nonzero return; \<open>replay_vector\<close> and \<open>replay_len\<close> are one list.
\<close>

section \<open>Frames\<close>

record ci_frame =
  f_dport :: u16
  f_csp_flags :: u8
  f_is_rdp :: bool
  f_rdp_flags :: u8

definition ci_frame_from_fields :: "u16 \<Rightarrow> u8 \<Rightarrow> bytes option \<Rightarrow> ci_frame" where
  "ci_frame_from_fields dport csp_flags data =
     (let is_rdp = (csp_flags AND CI_CSP_FRDP \<noteq> 0) in
      \<lparr>f_dport = dport, f_csp_flags = csp_flags, f_is_rdp = is_rdp,
       f_rdp_flags =
         (if is_rdp then
            (case ci_rdp_parse_trailer data of Some h \<Rightarrow> h_flags h | None \<Rightarrow> 0)
          else 0)\<rparr>)"

section \<open>The rule\<close>

record ci_drop_rule =
  r_seed :: u64
  r_match_dport :: int
  r_match_rdp_syn :: bool
  r_drop_probability :: double
  r_replay_vector :: "bytes option"

definition ci_rule_match :: "ci_drop_rule option \<Rightarrow> ci_frame option \<Rightarrow> bool" where
  "ci_rule_match rp fp =
     (case rp of None \<Rightarrow> False | Some r \<Rightarrow>
      case fp of None \<Rightarrow> False | Some f \<Rightarrow>
        if r_match_dport r \<ge> 0 \<and> f_dport f \<noteq> word_of_int (r_match_dport r) then False
        else if r_match_rdp_syn r then
          (if \<not> f_is_rdp f then False
           else if f_rdp_flags f AND CI_RDP_SYN = 0 then False
           else True)
        else True)"

definition ci_rule_decide :: "ci_drop_rule option \<Rightarrow> u64 \<Rightarrow> bool" where
  "ci_rule_decide rp index =
     (case rp of None \<Rightarrow> False | Some r \<Rightarrow>
      case r_replay_vector r of
        Some v \<Rightarrow> if length v \<le> unat index then False else v ! unat index \<noteq> 0
      | None \<Rightarrow>
          if r_drop_probability r \<le> 0 then False
          else if 1 \<le> r_drop_probability r then True
          else ci_draw (r_seed r) index
                 < d64_to_u64 (d64_mul (r_drop_probability r) 18446744073709551616))"

section \<open>The per-flow index\<close>

definition ci_flow_index_rdp :: "u32 \<Rightarrow> u16 \<Rightarrow> u64" where
  "ci_flow_index_rdp epoch rdp_seq = push_bit 16 (ucast epoch) OR ucast rdp_seq"

definition ci_rdp_seq_is_wrap :: "u16 \<Rightarrow> u16 \<Rightarrow> bool" where
  "ci_rdp_seq_is_wrap prev_seq new_seq =
     (let fwd = new_seq - prev_seq in fwd < 0x8000 \<and> new_seq < prev_seq)"

record ci_flow_tracker =
  t_last_seq :: u16
  t_have_last_seq :: bool
  t_epoch :: u32
  t_dtp_mtu :: u16
  t_dtp_overhead :: u16

definition ci_flow_tracker_init_ovh :: "u16 \<Rightarrow> u16 \<Rightarrow> ci_flow_tracker" where
  "ci_flow_tracker_init_ovh dtp_mtu dtp_overhead =
     \<lparr>t_last_seq = 0, t_have_last_seq = False, t_epoch = 0,
      t_dtp_mtu = dtp_mtu, t_dtp_overhead = dtp_overhead\<rparr>"

definition ci_flow_tracker_init :: "u16 \<Rightarrow> ci_flow_tracker" where
  "ci_flow_tracker_init dtp_mtu = ci_flow_tracker_init_ovh dtp_mtu CI_DTP_OVERHEAD_DIPP"

definition ci_flow_index_body ::
  "ci_frame \<Rightarrow> bytes option \<Rightarrow> ci_flow_tracker \<Rightarrow> u64 \<times> ci_flow_tracker" where
  "ci_flow_index_body f data t =
     (if f_is_rdp f then
        (case ci_rdp_parse_trailer data of
           Some h \<Rightarrow>
             let t = (if t_have_last_seq t \<and> ci_rdp_seq_is_wrap (t_last_seq t) (h_seq h)
                      then t\<lparr>t_epoch := t_epoch t + 1\<rparr> else t);
                 t = t\<lparr>t_last_seq := h_seq h, t_have_last_seq := True\<rparr>
             in (ci_flow_index_rdp (t_epoch t) (h_seq h), t)
         | None \<Rightarrow> (0, t))
      else
        (let frag =
           (case ci_dtp_parse_offset data of
              Some off \<Rightarrow>
                (case ci_dtp_fragment_index_ovh off (t_dtp_mtu t) (t_dtp_overhead t) of
                   Some k \<Rightarrow> k | None \<Rightarrow> 0)
            | None \<Rightarrow> 0)
         in (ucast frag, t)))"

definition ci_flow_index ::
  "ci_flow_tracker option \<Rightarrow> ci_frame option \<Rightarrow> bytes option \<Rightarrow> u64 \<times> ci_flow_tracker option" where
  "ci_flow_index tp fp data =
     (case fp of None \<Rightarrow> (0, tp) | Some f \<Rightarrow> on_ptr 0 (ci_flow_index_body f data) tp)"

section \<open>Lemmas on the index\<close>

lemma unat_flow_index_rdp:
  "unat (ci_flow_index_rdp epoch s) = unat epoch * 65536 + unat s"
proof -
  have "ci_flow_index_rdp epoch s = push_bit 16 (ucast epoch) + ucast s"
    unfolding ci_flow_index_rdp_def
    by (rule disjunctive_add [symmetric]) (auto simp: bit_simps dest: bit_imp_le_length)
  moreover have "push_bit 16 (ucast epoch :: u64) = ucast epoch * 65536"
    by (simp add: push_bit_eq_mult)
  ultimately have "unat (ci_flow_index_rdp epoch s) = (unat epoch * 65536 + unat s) mod 2 ^ 64"
    by (simp add: unat_word_ariths mod_simps)
  moreover have "unat epoch * 65536 + unat s < 2 ^ 64"
  proof -
    have "unat epoch < 4294967296" "unat s < 65536" by simp_all
    then have "unat epoch * 65536 + unat s < 18446744073709551616" by linarith
    then show ?thesis by simp
  qed
  ultimately show ?thesis by simp
qed

lemma ci_rdp_seq_is_wrap_iff:
  "ci_rdp_seq_is_wrap p n \<longleftrightarrow> unat n < unat p \<and> unat n + 65536 - unat p < 32768"
  by (auto simp: ci_rdp_seq_is_wrap_def word_less_nat_alt unat_sub_if')

text \<open>A DTP frame leaves the tracker alone, and its index is a function of the packet.\<close>

lemma flow_index_dtp [simp]:
  assumes "\<not> f_is_rdp f"
  shows "snd (ci_flow_index_body f data t) = t"
  using assms by (simp add: ci_flow_index_body_def Let_def)

lemma flow_index_dtp_value:
  assumes "\<not> f_is_rdp f" and "overhead < mtu"
    and "t_dtp_mtu t = mtu" and "t_dtp_overhead t = overhead"
  shows "unat (fst (ci_flow_index_body f (Some (le32_bytes_of off @ rest)) t))
    = unat off div (unat mtu - unat overhead)"
  using assms unat_fragment_index [of overhead mtu off]
  by (auto simp: ci_flow_index_body_def wire_simps)

text \<open>
  The command lines give the MTU and the overhead as \<open>int\<close>s that are compared before the tracker
  keeps their low 16 bits.
\<close>

lemma flow_index_int_args:
  assumes "\<not> f_is_rdp f" and "0 \<le> ovh" and "ovh < mtu"
    and "t_dtp_mtu t = word_of_int mtu" and "t_dtp_overhead t = word_of_int ovh"
  shows "mtu < 65536 \<Longrightarrow> data = le32_bytes_of off @ rest \<Longrightarrow>
      unat (fst (ci_flow_index_body f (Some data) t)) = unat off div nat (mtu - ovh)"
    and "mtu mod 65536 \<le> ovh \<Longrightarrow> ovh < 65536 \<Longrightarrow> fst (ci_flow_index_body f (Some data) t) = 0"
proof -
  have u: "uint (word_of_int k :: u16) = k mod 65536" for k by (simp add: unsigned_of_int take_bit_eq_mod)
  have un: "unat (word_of_int k :: u16) = nat (k mod 65536)" for k using u [of k] by (metis nat_uint_eq)
  show "unat (fst (ci_flow_index_body f (Some data) t)) = unat off div nat (mtu - ovh)"
    if "mtu < 65536" "data = le32_bytes_of off @ rest"
  proof -
    have "(word_of_int ovh :: u16) < word_of_int mtu" using assms(2,3) that by (simp add: word_less_def u)
    from flow_index_dtp_value [OF assms(1) this assms(4,5)] that assms(2,3) show ?thesis
      by (simp add: un nat_diff_distrib)
  qed
  show "fst (ci_flow_index_body f (Some data) t) = 0" if "mtu mod 65536 \<le> ovh" "ovh < 65536"
  proof -
    have "(word_of_int mtu :: u16) \<le> word_of_int ovh" using assms(2,3) that by (simp add: word_le_def u)
    with assms(1,4,5) show ?thesis
      by (simp add: ci_flow_index_body_def ci_dtp_fragment_index_ovh_def split: option.split)
  qed
qed

lemma flow_index_mtu [simp]:
  "t_dtp_mtu (snd (ci_flow_index_body f data t)) = t_dtp_mtu t"
  "t_dtp_overhead (snd (ci_flow_index_body f data t)) = t_dtp_overhead t"
  by (simp_all add: ci_flow_index_body_def Let_def split: option.split)

section \<open>Unwrapping a stream\<close>

text \<open>
  The tracker is compared with the sender's unbounded sequence numbers: a packet with number \<open>q\<close>
  carries \<open>q mod 2 ^ 16\<close>. A step from \<open>q\<close> to \<open>q'\<close> is within the tracker's reach when it goes
  forward by less than half the sequence space, or back by at most half of it without crossing a
  wrap boundary.
\<close>

definition seq_of :: "nat \<Rightarrow> u16" where
  "seq_of q = word_of_nat q"

definition flow_step_ok :: "nat \<Rightarrow> nat \<Rightarrow> bool" where
  "flow_step_ok q q' \<longleftrightarrow>
     (q \<le> q' \<and> q' - q < 32768) \<or> (q' < q \<and> q - q' \<le> 32768 \<and> q' div 65536 = q div 65536)"

fun flow_ok :: "nat list \<Rightarrow> bool" where
  "flow_ok (q # q' # qs) \<longleftrightarrow> flow_step_ok q q' \<and> flow_ok (q' # qs)"
| "flow_ok _ \<longleftrightarrow> True"

text \<open>The indices of a stream of packets, each a frame with its payload.\<close>

fun flow_indices :: "ci_flow_tracker \<Rightarrow> (ci_frame \<times> bytes) list \<Rightarrow> u64 list" where
  "flow_indices t [] = []"
| "flow_indices t ((f, d) # ps) =
     (let (i, t') = ci_flow_index_body f (Some d) t in i # flow_indices t' ps)"

definition rdp_packet :: "ci_frame \<Rightarrow> bytes \<Rightarrow> u8 \<Rightarrow> u16 \<Rightarrow> nat \<Rightarrow> ci_frame \<times> bytes" where
  "rdp_packet f body fl a q = (f, body @ rdp_trailer fl (seq_of q) a)"

lemma unat_seq_of [simp]: "unat (seq_of q) = q mod 65536"
  by (simp add: seq_of_def unsigned_of_nat take_bit_eq_mod)

lemma seq_of_wrap:
  assumes "flow_step_ok q q'"
  shows "q' div 65536 = q div 65536 + (if ci_rdp_seq_is_wrap (seq_of q) (seq_of q') then 1 else 0)"
proof -
  define a r b s where "a = q div 65536" and "r = q mod 65536"
    and "b = q' div 65536" and "s = q' mod 65536"
  have qs: "q = 65536 * a + r" "q' = 65536 * b + s" "r < 65536" "s < 65536"
    by (simp_all add: a_def r_def b_def s_def)
  consider "b = a" "r \<le> s" | "b = Suc a" "65536 + s - r < 32768" | "b = a" "s < r" "r - s \<le> 32768"
  proof -
    have "b = a \<and> r \<le> s \<or> b = Suc a \<and> 65536 + s - r < 32768" if "q \<le> q'" "q' - q < 32768"
    proof -
      have "a \<le> b" "b \<le> Suc a" using that qs by linarith+
      then consider "b = a" | "b = Suc a" by linarith
      then show ?thesis by cases (use that qs in linarith)+
    qed
    moreover have "s < r \<and> r - s \<le> 32768" if "q' < q" "q - q' \<le> 32768" "b = a"
      using that qs by simp
    ultimately show ?thesis
      using assms that unfolding flow_step_ok_def a_def [symmetric] b_def [symmetric] by blast
  qed
  then have "b = a + (if s < r \<and> s + 65536 - r < 32768 then 1 else 0)"
  proof cases
    case 2
    then have "s < r" "s + 65536 - r < 32768" using qs by linarith+
    with 2 show ?thesis by simp
  qed auto
  then show ?thesis
    unfolding ci_rdp_seq_is_wrap_iff unat_seq_of a_def r_def b_def s_def .
qed

text \<open>The tracker invariant: the state after a packet with number \<open>q\<close>.\<close>

definition tracks :: "nat \<Rightarrow> ci_flow_tracker \<Rightarrow> bool" where
  "tracks q t \<longleftrightarrow> t_have_last_seq t \<and> t_last_seq t = seq_of q \<and> unat (t_epoch t) = q div 65536"

lemma flow_index_first:
  assumes "f_is_rdp f" and "\<not> t_have_last_seq t" and "t_epoch t = 0" and "q < 65536"
    and "ci_flow_index_body f (Some (body @ rdp_trailer fl (seq_of q) a)) t = (i, t')"
  shows "unat i = q \<and> tracks q t'"
  using assms
  by (auto simp: ci_flow_index_body_def wire_simps tracks_def unat_flow_index_rdp)

lemma flow_index_next:
  assumes "f_is_rdp f" and "tracks q t" and "flow_step_ok q q'" and "q' < 2 ^ 48"
    and "ci_flow_index_body f (Some (body @ rdp_trailer fl (seq_of q') a)) t = (i, t')"
  shows "unat i = q' \<and> tracks q' t'"
proof -
  have "q' div 65536 < 4294967296" using assms(4) by simp
  then have "unat (t_epoch t + (if ci_rdp_seq_is_wrap (seq_of q) (seq_of q') then 1 else 0))
    = q' div 65536"
    using seq_of_wrap [OF assms(3)] assms(2) by (auto simp: tracks_def unat_word_ariths)
  then show ?thesis
    using assms(1,2,5)
    by (auto simp: ci_flow_index_body_def wire_simps tracks_def unat_flow_index_rdp
        Let_def split: if_splits)
qed

lemma flow_indices_tracked:
  assumes "f_is_rdp f" and "tracks q t" and "flow_ok (q # qs)" and "\<forall>q \<in> set qs. q < 2 ^ 48"
  shows "map unat (flow_indices t (map (rdp_packet f body fl a) qs)) = qs"
  using assms(2-4)
proof (induction qs arbitrary: q t)
  case (Cons q' qs)
  obtain i t' where step: "ci_flow_index_body f (Some (body @ rdp_trailer fl (seq_of q') a)) t = (i, t')"
    by fastforce
  with Cons.prems have "unat i = q' \<and> tracks q' t'"
    by (intro flow_index_next [OF assms(1), of q]) auto
  with Cons.IH [of q' t'] Cons.prems step show ?case by (simp add: rdp_packet_def)
qed simp

section \<open>Lemmas on the decision\<close>

definition rule_threshold :: "double \<Rightarrow> u64" where
  "rule_threshold p = d64_to_u64 (d64_mul p 18446744073709551616)"

lemma decide_replay [simp]:
  "r_replay_vector r = Some v \<Longrightarrow>
     ci_rule_decide (Some r) i \<longleftrightarrow> unat i < length v \<and> v ! unat i \<noteq> 0"
  by (simp add: ci_rule_decide_def)

lemma decide_prob:
  assumes "r_replay_vector r = None" and "0 < r_drop_probability r" and "r_drop_probability r < 1"
  shows "ci_rule_decide (Some r) i \<longleftrightarrow>
    ci_draw (r_seed r) i < rule_threshold (r_drop_probability r)"
  using assms by (simp add: ci_rule_decide_def rule_threshold_def)

lemma decide_never: "r_replay_vector r = None \<Longrightarrow> r_drop_probability r \<le> 0 \<Longrightarrow>
    \<not> ci_rule_decide (Some r) i"
  by (simp add: ci_rule_decide_def)

lemma decide_always: "r_replay_vector r = None \<Longrightarrow> 1 \<le> r_drop_probability r \<Longrightarrow>
    ci_rule_decide (Some r) i"
  by (simp add: ci_rule_decide_def)

lemma rule_threshold_mono:
  assumes "is_d64 p" "is_d64 q" "0 \<le> p" "p \<le> q" "q < 1"
  shows "rule_threshold p \<le> rule_threshold q"
  using assms d64_threshold(1) [of p] d64_threshold(1) [of q]
  by (simp add: rule_threshold_def word_le_nat_alt nat_mono floor_mono)

section \<open>Properties\<close>

text \<open>
  Property C7. The tracker unwraps the 16-bit RDP sequence numbers of a flow: for every stream of
  sender sequence numbers that starts in the first epoch and whose steps go forward by less than
  32768 or back by at most 32768 without crossing a wrap boundary, the keys that \<open>ci_flow_index\<close>
  computes from the 16-bit trailers are the sender's unbounded sequence numbers, as long as these are
  below \<open>2^48\<close>, where the 32-bit epoch ends.
\<close>

theorem flow_index_unwraps:
  assumes "f_is_rdp f" and "flow_ok (q # qs)" and "q < 65536" and "\<forall>q \<in> set qs. q < 2 ^ 48"
  shows "map unat (flow_indices (ci_flow_tracker_init_ovh mtu ovh)
    (map (rdp_packet f body fl a) (q # qs))) = q # qs"
proof -
  let ?t = "ci_flow_tracker_init_ovh mtu ovh"
  obtain i t' where step: "ci_flow_index_body f (Some (body @ rdp_trailer fl (seq_of q) a)) ?t = (i, t')"
    by fastforce
  with assms have "unat i = q \<and> tracks q t'"
    by (intro flow_index_first [of f ?t]) (auto simp: ci_flow_tracker_init_ovh_def)
  with flow_indices_tracked [OF assms(1), of q t' qs] assms step show ?thesis
    by (simp add: rdp_packet_def)
qed

theorem flow_index_unwraps_witness:
  "map unat (flow_indices (ci_flow_tracker_init_ovh 200 4)
    (map (rdp_packet (ci_frame_from_fields 13 2 None) [1, 2, 3] 4 0) [65534, 65535, 65536, 65540]))
    = [65534, 65535, 65536, 65540]"
  by (rule flow_index_unwraps)
    (simp_all add: ci_frame_from_fields_def CI_CSP_FRDP_def flow_step_ok_def)

text \<open>
  A packet that arrives late across a wrap boundary breaks the tracker for good: after
  65535, 65536 the late copy of 65535 is not taken as a wrap but still becomes the last sequence
  number, so the next in-order packet bumps the epoch a second time. The late copy is keyed as
  131071 and the retransmission of 65536 as 131072.
\<close>

theorem late_reorder_bumps_epoch_twice:
  assumes "f_is_rdp f"
  shows "map unat (flow_indices (ci_flow_tracker_init_ovh mtu ovh)
    (map (rdp_packet f body fl a) [65535, 65536, 65535, 65536])) = [65535, 65536, 131071, 131072]"
  using assms
  by (simp add: rdp_packet_def ci_flow_index_body_def wire_simps ci_flow_tracker_init_ovh_def
      unat_flow_index_rdp ci_rdp_seq_is_wrap_iff)

theorem late_reorder_bumps_epoch_twice_witness:
  "map unat (flow_indices (ci_flow_tracker_init_ovh 200 4)
    (map (rdp_packet (ci_frame_from_fields 13 2 None) [1, 2, 3] 4 0) [65535, 65536, 65535, 65536]))
    = [65535, 65536, 131071, 131072]"
  by (rule late_reorder_bumps_epoch_twice) (simp add: ci_frame_from_fields_def CI_CSP_FRDP_def)

text \<open>
  Property C11. The drop rate is exact: for a probability \<open>p\<close> in \<open>[0, 1)\<close> that a \<open>double\<close> holds,
  exactly \<open>\<lfloor>p * 2 ^ 64\<rfloor>\<close> of the \<open>2 ^ 64\<close> packet indices are dropped, whatever the seed, and the
  conversion of \<open>p * 2 ^ 64\<close> to an integer stays at least 2048 below the overflow.
\<close>

theorem rule_decide_exact_rate:
  assumes "is_d64 (r_drop_probability r)" and "0 \<le> r_drop_probability r"
    and "r_drop_probability r < 1" and "r_replay_vector r = None"
  shows "card {i. ci_rule_decide (Some r) i} = nat \<lfloor>r_drop_probability r * 2 ^ 64\<rfloor>
    \<and> r_drop_probability r * 2 ^ 64 \<le> 2 ^ 64 - 2048"
proof (cases "r_drop_probability r = 0")
  case True
  with assms show ?thesis by (simp add: decide_never)
next
  case False
  have "{i. ci_rule_decide (Some r) i} =
      {i. ci_draw (r_seed r) i < rule_threshold (r_drop_probability r)}"
    using assms False by (simp add: decide_prob)
  then show ?thesis
    using d64_threshold [OF assms(1-3)] by (simp add: ci_draw.card_fires rule_threshold_def)
qed

definition example_rule :: "double \<Rightarrow> ci_drop_rule" where
  "example_rule p = \<lparr>r_seed = 7, r_match_dport = 8, r_match_rdp_syn = False,
     r_drop_probability = p, r_replay_vector = None\<rparr>"

lemma is_d64_quarter: "is_d64 (1 / 4)" "is_d64 (1 / 2)"
  unfolding is_d64_def
  by (rule exI [of _ 1], rule exI [of _ "- 2"], simp add: power_int_minus_divide,
      rule exI [of _ 1], rule exI [of _ "- 1"], simp)

theorem rule_decide_exact_rate_witness:
  "card {i. ci_rule_decide (Some (example_rule (1 / 4))) i} = 2 ^ 62"
  using rule_decide_exact_rate [of "example_rule (1 / 4)"] is_d64_quarter
  by (simp add: example_rule_def)

text \<open>
  Raising the loss probability under a fixed seed only adds drops: the drop set at the
  lower probability is contained in the drop set at the higher one, so the points of a loss sweep
  are nested.
\<close>

theorem rule_decide_nested:
  assumes "is_d64 (r_drop_probability r)" and "is_d64 q" and "r_drop_probability r \<le> q"
    and "r_replay_vector r = None" and "ci_rule_decide (Some r) i"
  shows "ci_rule_decide (Some (r\<lparr>r_drop_probability := q\<rparr>)) i"
proof (cases "0 < r_drop_probability r \<and> q < 1")
  case True
  then have "rule_threshold (r_drop_probability r) \<le> rule_threshold q"
    using assms by (intro rule_threshold_mono) auto
  then show ?thesis
    using True assms decide_prob [of r i] decide_prob [of "r\<lparr>r_drop_probability := q\<rparr>" i]
    by (auto intro: less_le_trans)
next
  case False
  then have "1 \<le> q" using assms decide_never [of r i] by (auto simp: not_less)
  then show ?thesis using assms by (simp add: decide_always)
qed

theorem rule_decide_nested_witness:
  "ci_rule_decide (Some (example_rule (1 / 4))) 13 \<and> ci_rule_decide (Some (example_rule (1 / 2))) 13"
proof -
  have d: "ci_rule_decide (Some (example_rule (1 / 4))) 13" by code_simp
  with rule_decide_nested [of "example_rule (1 / 4)" "1 / 2" 13] is_d64_quarter show ?thesis
    by (simp add: example_rule_def)
qed

text \<open>
  Fragment indices survive the wire: fragment \<open>i\<close> of a transfer, sent at byte offset
  \<open>i * (mtu - overhead)\<close> as the DTP generator does, is keyed \<open>i\<close> by a tracker that was set up with
  the same MTU and header overhead, in every tracker state, so the keys do not depend on arrival
  order or on retransmissions.
\<close>

theorem dtp_fragment_key:
  assumes "overhead < mtu" and "i * (unat mtu - unat overhead) < 2 ^ 32"
    and "\<not> f_is_rdp f" and "t_dtp_mtu t = mtu" and "t_dtp_overhead t = overhead"
  shows "unat (fst (ci_flow_index_body f
      (Some (ci_gen_dtp_payload (ucast (mtu - overhead)) (word_of_nat i))) t)) = i
    \<and> snd (ci_flow_index_body f
      (Some (ci_gen_dtp_payload (ucast (mtu - overhead)) (word_of_nat i))) t) = t"
proof -
  let ?step = "unat mtu - unat overhead"
  have step: "unat (mtu - overhead) = ?step" "0 < ?step"
    using assms(1) by (simp_all add: unat_sub word_less_nat_alt word_le_nat_alt)
  then have "i * 1 \<le> i * ?step" by (intro mult_left_mono) linarith+
  then have i: "i < 2 ^ 32" using assms(2) by linarith
  have "unat (word_of_nat i * ucast (mtu - overhead) :: u32) = i * ?step"
    using assms(2) i step(1)
    by (simp add: unat_word_ariths unsigned_of_nat take_bit_nat_eq_self mod_less)
  with flow_index_dtp_value [OF assms(3,1,4,5)] step(2) assms(3) show ?thesis
    by (simp add: ci_gen_dtp_payload_eq)
qed

theorem dtp_fragment_key_witness:
  "unat (fst (ci_flow_index_body (ci_frame_from_fields 8 0 None)
    (Some (ci_gen_dtp_payload (ucast (256 - 8 :: u16)) (word_of_nat 1040)))
    (ci_flow_tracker_init_ovh 256 8))) = 1040"
  using dtp_fragment_key [of 8 256 1040 "ci_frame_from_fields 8 0 None" "ci_flow_tracker_init_ovh 256 8"]
  by (simp add: ci_frame_from_fields_def ci_flow_tracker_init_ovh_def word_less_nat_alt)

end
