(* ===== verification/CI_Ge.thy ===== *)
theory CI_Ge
  imports CI_Rule
begin

text \<open>
  The Gilbert-Elliott burst-loss generator of \<open>src/lib/ci_ge.c\<close>: the derivation of the transition
  probabilities (in binary64 arithmetic), the index-axis drop vector \<open>ci_ge_fill\<close> and the
  per-attempt chain \<open>ci_ge_state_step\<close>.
\<close>

definition UINT64_MAX :: u64 where [const_defs]: "UINT64_MAX = 0xFFFFFFFFFFFFFFFF"

lemma UINT64_MAX_top: "x \<le> UINT64_MAX"
proof -
  have "unat x < 18446744073709551616" by (rule unat_less_pow)
  then have "unat x \<le> 18446744073709551615" by linarith
  then show ?thesis by (simp add: word_le_nat_alt UINT64_MAX_def)
qed

section \<open>Parameters\<close>

definition ci_ge_params :: "double \<Rightarrow> double \<Rightarrow> double \<times> double" where
  "ci_ge_params loss mean_burst =
     (let mean_burst = (if mean_burst < 1 then 1 else mean_burst);
          r = d64_div 1 mean_burst
      in if loss \<le> 0 then (0, r)
         else if 1 \<le> loss then (1, 0)
         else let p = d64_div (d64_mul r loss) (d64_sub 1 loss)
              in (if 1 < p then 1 else p, r))"

definition ci_ge_threshold :: "double \<Rightarrow> u64" where
  "ci_ge_threshold p =
     (if p \<le> 0 then 0
      else if 1 \<le> p then UINT64_MAX
      else d64_to_u64 (d64_mul p 18446744073709551616))"

section \<open>The drop vector along the index axis\<close>

text \<open>The transition at the end of the loop body, on one draw \<open>d\<close>.\<close>

definition ge_next :: "u64 \<Rightarrow> u64 \<Rightarrow> u64 \<Rightarrow> bool \<Rightarrow> bool" where
  "ge_next t_g2b t_b2g d bad =
     (if \<not> bad then (if d < t_g2b then True else bad)
      else (if d < t_b2g then False else bad))"

function ge_fill_loop :: "u64 \<Rightarrow> u64 \<Rightarrow> u64 \<Rightarrow> nat \<Rightarrow> nat \<Rightarrow> bool \<Rightarrow> bytes" where
  "ge_fill_loop s t_g2b t_b2g i n bad =
     (if i < n
      then (if bad then 1 else 0)
             # ge_fill_loop s t_g2b t_b2g (Suc i) n (ge_next t_g2b t_b2g (ci_draw s (word_of_nat i)) bad)
      else [])"
  by pat_completeness auto
termination
  by (relation "measure (\<lambda>(s, t_g2b, t_b2g, i, n, bad). n - i)") auto

declare ge_fill_loop.simps [simp del]

definition ci_ge_fill :: "u64 \<Rightarrow> double \<Rightarrow> double \<Rightarrow> bytes option \<Rightarrow> bytes option" where
  "ci_ge_fill seed p_g2b p_b2g vec =
     (case vec of None \<Rightarrow> None
      | Some v \<Rightarrow>
          if length v = 0 then Some v
          else Some (ge_fill_loop (ci_splitmix64 seed) (ci_ge_threshold p_g2b)
                       (ci_ge_threshold p_b2g) 0 (length v) False))"

section \<open>The chain along the transmission axis\<close>

record ci_ge_state =
  g_seed :: u64
  g_step :: u64
  g_t_g2b :: u64
  g_t_b2g :: u64
  g_bad :: bool

definition ci_ge_state_init :: "u64 \<Rightarrow> double \<Rightarrow> double \<Rightarrow> ci_ge_state" where
  "ci_ge_state_init seed p_g2b p_b2g =
     \<lparr>g_seed = ci_splitmix64 seed, g_step = 0, g_t_g2b = ci_ge_threshold p_g2b,
      g_t_b2g = ci_ge_threshold p_b2g, g_bad = False\<rparr>"

definition ci_ge_state_step_body :: "ci_ge_state \<Rightarrow> bool \<times> ci_ge_state" where
  "ci_ge_state_step_body st =
     (let drop = g_bad st;
          d = ci_draw (g_seed st) (g_step st);
          st = st\<lparr>g_step := g_step st + 1\<rparr>
      in if \<not> g_bad st
         then (if d < g_t_g2b st then (drop, st\<lparr>g_bad := True\<rparr>) else (drop, st))
         else (if d < g_t_b2g st then (drop, st\<lparr>g_bad := False\<rparr>) else (drop, st)))"

definition ci_ge_state_step :: "ci_ge_state option \<Rightarrow> bool \<times> ci_ge_state option" where
  "ci_ge_state_step = on_ptr False ci_ge_state_step_body"

text \<open>The decisions and the state of \<open>n\<close> consecutive transmissions.\<close>

fun ge_run :: "nat \<Rightarrow> ci_ge_state \<Rightarrow> bool list \<times> ci_ge_state" where
  "ge_run 0 st = ([], st)"
| "ge_run (Suc n) st =
     (let (d, st') = ci_ge_state_step_body st; (ds, st'') = ge_run n st' in (d # ds, st''))"

section \<open>Lemmas on the chain\<close>

lemma ge_step_simps [simp]:
  "fst (ci_ge_state_step_body st) = g_bad st"
  "snd (ci_ge_state_step_body st) = st\<lparr>g_step := g_step st + 1,
     g_bad := ge_next (g_t_g2b st) (g_t_b2g st) (ci_draw (g_seed st) (g_step st)) (g_bad st)\<rparr>"
  by (auto simp: ci_ge_state_step_body_def ge_next_def Let_def)

lemma length_ge_fill_loop [simp]: "length (ge_fill_loop s tg tb i n bad) = n - i"
proof (induction s tg tb i n bad rule: ge_fill_loop.induct)
  case (1 s tg tb i n bad)
  then show ?case by (subst ge_fill_loop.simps) auto
qed

lemma set_ge_fill_loop: "set (ge_fill_loop s tg tb i n bad) \<subseteq> {0, 1}"
proof (induction s tg tb i n bad rule: ge_fill_loop.induct)
  case (1 s tg tb i n bad)
  then show ?case by (subst ge_fill_loop.simps) auto
qed

text \<open>A longer vector extends a shorter one: entry \<open>i\<close> does not depend on the length.\<close>

lemma take_ge_fill_loop:
  "i \<le> m \<Longrightarrow> m \<le> n \<Longrightarrow> take (m - i) (ge_fill_loop s tg tb i n bad) = ge_fill_loop s tg tb i m bad"
proof (induction s tg tb i n bad rule: ge_fill_loop.induct)
  case (1 s tg tb i n bad)
  show ?case
  proof (cases "i < m")
    case True
    with "1.prems" have "i < n" "Suc i \<le> m" "m - i = Suc (m - Suc i)" by linarith+
    with "1.IH" "1.prems" True show ?thesis
      by (simp add: ge_fill_loop.simps [of s tg tb i])
  next
    case False
    with "1.prems" show ?thesis by (simp add: ge_fill_loop.simps [of s tg tb m m])
  qed
qed

text \<open>The chain read along the transmission axis is the vector read along the index axis.\<close>

lemma ge_run_fill_loop:
  assumes "g_step st = word_of_nat i"
  shows "map (\<lambda>d. if d then 1 else 0) (fst (ge_run n st)) =
    ge_fill_loop (g_seed st) (g_t_g2b st) (g_t_b2g st) i (i + n) (g_bad st)"
  using assms
proof (induction n arbitrary: st i)
  case 0
  then show ?case by (simp add: ge_fill_loop.simps)
next
  case (Suc n)
  let ?st = "snd (ci_ge_state_step_body st)"
  have "g_step ?st = word_of_nat (Suc i)" using Suc.prems by (simp add: add.commute)
  from Suc.IH [OF this] show ?case
    using Suc.prems
    by (simp add: ge_fill_loop.simps [of _ _ _ i] case_prod_beta Let_def)
qed

lemma ge_run_Suc_snd:
  "snd (ge_run (Suc n) st) = snd (ci_ge_state_step_body (snd (ge_run n st)))"
  by (induction n arbitrary: st) (simp_all add: case_prod_beta Let_def del: ge_step_simps)

lemma ge_run_nth:
  "k < n \<Longrightarrow> fst (ge_run n st) ! k = g_bad (snd (ge_run k st))"
proof (induction n arbitrary: st k)
  case (Suc n)
  then show ?case by (cases k) (simp_all add: case_prod_beta Let_def)
qed simp

lemma ge_run_frame [simp]:
  "g_seed (snd (ge_run n st)) = g_seed st"
  "g_t_g2b (snd (ge_run n st)) = g_t_g2b st"
  "g_t_b2g (snd (ge_run n st)) = g_t_b2g st"
  "g_step (snd (ge_run n st)) = g_step st + word_of_nat n"
  by (induction n arbitrary: st) (simp_all add: case_prod_beta Let_def add_ac)

lemma length_ge_run [simp]: "length (fst (ge_run n st)) = n"
  by (induction n arbitrary: st) (simp_all add: case_prod_beta Let_def)

lemma ge_run_next:
  "g_bad (snd (ge_run (Suc n) st)) =
     ge_next (g_t_g2b st) (g_t_b2g st) (ci_draw (g_seed st) (g_step st + word_of_nat n))
       (g_bad (snd (ge_run n st)))"
  unfolding ge_run_Suc_snd by simp

lemma ci_ge_fill_Some:
  "ci_ge_fill seed p q (Some v) =
     Some (ge_fill_loop (ci_splitmix64 seed) (ci_ge_threshold p) (ci_ge_threshold q) 0 (length v) False)"
  by (simp add: ci_ge_fill_def ge_fill_loop.simps)

lemma ge_fill_run:
  "ge_fill_loop (ci_splitmix64 seed) (ci_ge_threshold p) (ci_ge_threshold q) 0 n False =
     map (\<lambda>d. if d then 1 else 0) (fst (ge_run n (ci_ge_state_init seed p q)))"
  using ge_run_fill_loop [of "ci_ge_state_init seed p q" 0 n] by (simp add: ci_ge_state_init_def)

text \<open>A run of consecutive drops means that no draw in it fired the recovery transition.\<close>

lemma ge_bad_run_draws:
  assumes "\<forall>k \<le> n. g_bad (snd (ge_run k st))" and "k < n"
  shows "g_t_b2g st \<le> ci_draw (g_seed st) (g_step st + word_of_nat k)"
proof (rule ccontr)
  assume "\<not> ?thesis"
  moreover have "g_bad (snd (ge_run k st))" "g_bad (snd (ge_run (Suc k) st))"
    using assms Suc_leI [of k n] less_imp_le [of k n] by blast+
  ultimately show False unfolding ge_run_next by (simp add: ge_next_def not_le)
qed

lemma inj_on_step: "n \<le> 2 ^ 64 \<Longrightarrow> inj_on (\<lambda>k. a + (word_of_nat k :: u64)) {..<n}"
  by (rule inj_onI)
    (auto simp: word_of_nat_eq_iff take_bit_nat_eq_self dest!: less_le_trans [of _ n "2 ^ 64"])

lemma card_not_fires: "card {i. t \<le> ci_draw s i} = 2 ^ 64 - unat t"
proof -
  have "{i. t \<le> ci_draw s i} = UNIV - {i. ci_draw s i < t}" by auto
  then show ?thesis
    using ci_draw.card_fires [of s t] by (simp add: card_Diff_subset card_word)
qed

section \<open>Lemmas on the parameters\<close>

lemma d64_div_1_range: "1 \<le> b \<Longrightarrow> 0 \<le> d64_div 1 b \<and> d64_div 1 b \<le> 1"
  by (simp add: d64_div_def d64_round_nonneg d64_round_le_1)

lemma ge_params_unclamped:
  assumes "is_d64 l" and "2 powi (- 100) \<le> l" and "l < 1" and "1 \<le> b" and "b \<le> 2 powi 100"
    and "r = d64_div 1 b" and "q = d64_div (d64_mul r l) (d64_sub 1 l)"
  shows "\<bar>q / (q + r) - l\<bar> \<le> 1 / 2 ^ 50" and "0 < q" and "2 powi (- 101) \<le> r"
proof -
  have two: "(2 :: rat) powi (- 1022) \<le> 2 powi n" if "- 1022 \<le> n" for n
    using that by (intro power_int_increasing) auto
  have b: "(2 :: rat) powi (- 100) \<le> 1 / b"
    using assms(4,5) by (simp add: power_int_minus_divide divide_left_mono)
  then have rb: "2 powi (- 1022) \<le> 1 / b" using two [of "- 100"] by linarith
  have r2: "(2 :: rat) powi (- 100) / 2 \<le> (1 / b) / 2" using b by (rule divide_right_mono) simp
  show r: "2 powi (- 101) \<le> r"
  proof -
    have "(2 :: rat) powi (- 101) = 2 powi (- 100) / 2" by (simp add: power_int_minus_divide)
    then show ?thesis using d64_round_error_pos(2) [OF rb] r2 unfolding assms(6) d64_div_def by linarith
  qed
  have r0: "0 < r" using r zero_less_power_int [of "2 :: rat" "- 101"] by linarith
  have l0: "0 < l" using assms(2) zero_less_power_int [of "2 :: rat" "- 100"] by linarith
  define m d where "m = d64_mul r l" and "d = d64_sub 1 l"
  have x: "2 powi (- 201) \<le> r * l"
  proof -
    have "(2 :: rat) powi (- 201) = 2 powi (- 101) * 2 powi (- 100)" by (simp flip: power_int_add)
    also have "\<dots> \<le> r * l" using r assms(2) l0 by (intro mult_mono) auto
    finally show ?thesis .
  qed
  have y: "2 powi (- 53) \<le> 1 - l"
    using is_d64_below_1 [OF assms(1)] l0 assms(3) by (simp add: power_int_minus_divide)
  have xn: "2 powi (- 1022) \<le> r * l" and yn: "2 powi (- 1022) \<le> 1 - l"
    using x y two [of "- 201"] two [of "- 53"] by linarith+
  have m: "\<bar>m - r * l\<bar> \<le> r * l * (1 / 2 ^ 53)" and mp: "r * l / 2 \<le> m"
    using d64_round_error_pos [OF xn] by (simp_all only: m_def d64_mul_def)
  have d: "\<bar>d - (1 - l)\<bar> \<le> (1 - l) * (1 / 2 ^ 53)" and dp: "(1 - l) / 2 \<le> d" and d1: "d \<le> 1"
    using d64_round_error_pos [OF yn] d64_round_le_1 [of "1 - l"] l0 assms(3)
    by (simp_all only: d_def d64_sub_def)
  have d0: "0 < d" using dp assms(3) by simp
  have md: "2 powi (- 202) \<le> m / d"
  proof -
    have "(2 :: rat) powi (- 202) = 2 powi (- 201) / 2" by (simp add: power_int_minus_divide)
    also have "\<dots> \<le> m" using mp x by linarith
    also have "\<dots> \<le> m / d"
      using divide_left_mono [of d 1 m] d0 d1 mp mult_pos_pos [OF r0 l0] by simp
    finally show ?thesis .
  qed
  then have mdn: "2 powi (- 1022) \<le> m / d" using two [of "- 202"] by linarith
  have q: "\<bar>q - m / d\<bar> \<le> m / d * (1 / 2 ^ 53)"
    and q0: "m / d / 2 \<le> q" and md0: "0 < m / d"
    using d64_round_error_pos [OF mdn]
    by (simp_all only: assms(7) m_def [symmetric] d_def [symmetric] d64_div_def)
  show "0 < q" using half_gt_zero [OF md0] q0 by (rule less_le_trans)
  have rl: "0 < r * l" "0 < 1 - l" using r0 l0 assms(3) by auto
  obtain k where k: "q * (1 - l) = k * (r * l)"
    "1 - 4 * (1 / 2 ^ 53) \<le> k" "k \<le> 1 + 4 * (1 / 2 ^ 53)"
    using rounded_quotient [OF rl _ _ m d q] by auto
  show "\<bar>q / (q + r) - l\<bar> \<le> 1 / 2 ^ 50"
    using marginal_error [OF l0 assms(3) r0 k] by simp
qed

section \<open>Properties\<close>

text \<open>
  Property C26. The per-attempt chain replays the index-axis vector: the decisions of \<open>n\<close> calls of
  \<open>ci_ge_state_step\<close> on a fresh chain are, byte for byte, the vector of length \<open>n\<close> that
  \<open>ci_ge_fill\<close> writes for the same seed and transition probabilities.
\<close>

theorem ge_state_replays_fill:
  "ci_ge_fill seed p_g2b p_b2g (Some v) =
     Some (map (\<lambda>d. if d then 1 else 0)
       (fst (ge_run (length v) (ci_ge_state_init seed p_g2b p_b2g))))"
  by (simp add: ci_ge_fill_Some ge_fill_run)

text \<open>
  The drop decision of a packet is a pure function of its index: two vectors filled
  under the same seed and probabilities agree on their common prefix, and the rule that replays one
  of them drops index \<open>i\<close> exactly when \<open>i\<close> is inside the vector and the chain is BAD after \<open>i\<close> steps.
\<close>

theorem ge_replay_decision:
  assumes "r_replay_vector r = ci_ge_fill seed p_g2b p_b2g (Some v)"
  shows "ci_rule_decide (Some r) i \<longleftrightarrow>
    unat i < length v \<and> g_bad (snd (ge_run (unat i) (ci_ge_state_init seed p_g2b p_b2g)))"
  using assms by (auto simp: ci_ge_fill_Some ge_fill_run ge_run_nth split: if_splits)

theorem ge_replay_decision_witness:
  "ci_rule_decide (Some ((example_rule 0)\<lparr>r_replay_vector := ci_ge_fill 1 (1/2) (1/2) (Some [0, 0, 0])\<rparr>)) 2 \<longleftrightarrow>
    unat (2 :: u64) < length [0 :: u8, 0, 0] \<and> g_bad (snd (ge_run (unat (2 :: u64)) (ci_ge_state_init 1 (1/2) (1/2))))"
  by (rule ge_replay_decision) simp

text \<open>
  Recovery is possible in the per-attempt mode: from every chain state whose recovery
  threshold is not zero, a transmission is kept after at most \<open>2 ^ 64 - t_b2g + 1\<close> drops in a row,
  because the draws of a full period are all different.
\<close>

theorem ge_run_recovers:
  assumes "0 < g_t_b2g st"
  shows "\<exists>k \<le> 2 ^ 64 - unat (g_t_b2g st) + 1. \<not> g_bad (snd (ge_run k st))"
proof (rule ccontr)
  let ?n = "2 ^ 64 - unat (g_t_b2g st) + 1"
  let ?f = "\<lambda>k. g_step st + (word_of_nat k :: u64)"
  assume "\<not> ?thesis"
  then have bad: "\<forall>k \<le> ?n. g_bad (snd (ge_run k st))" by blast
  have pos: "0 < unat (g_t_b2g st)" using assms by (simp add: word_less_nat_alt)
  then have n: "?n \<le> 2 ^ 64" by simp
  have "?f ` {..<?n} \<subseteq> {i. g_t_b2g st \<le> ci_draw (g_seed st) i}"
    using ge_bad_run_draws [OF bad] by blast
  then have "card (?f ` {..<?n}) \<le> 2 ^ 64 - unat (g_t_b2g st)"
    using card_mono [of "{i. g_t_b2g st \<le> ci_draw (g_seed st) i}"] by (simp add: card_not_fires)
  moreover have "card (?f ` {..<?n}) = ?n"
    using inj_on_step [OF n] by (simp add: card_image)
  ultimately show False by simp
qed

theorem ge_run_recovers_witness:
  "\<exists>k \<le> 2 ^ 64 - unat (2 ^ 63 :: u64) + 1. \<not> g_bad (snd (ge_run k
     \<lparr>g_seed = 5, g_step = 0, g_t_g2b = 1, g_t_b2g = 2 ^ 63, g_bad = True\<rparr>))"
  using ge_run_recovers [of "\<lparr>g_seed = 5, g_step = 0, g_t_g2b = 1, g_t_b2g = 2 ^ 63, g_bad = True\<rparr>"]
  by simp

text \<open>
  The derived transition probabilities are probabilities, for every pair of inputs:
  both lie in \<open>[0, 1]\<close> whatever the requested loss and burst length are, rounding included.
\<close>

theorem ge_params_range:
  "0 \<le> fst (ci_ge_params loss mean_burst) \<and> fst (ci_ge_params loss mean_burst) \<le> 1
    \<and> 0 \<le> snd (ci_ge_params loss mean_burst) \<and> snd (ci_ge_params loss mean_burst) \<le> 1"
proof -
  let ?b = "if mean_burst < 1 then 1 else mean_burst"
  have r: "0 \<le> d64_div 1 ?b \<and> d64_div 1 ?b \<le> 1" by (rule d64_div_1_range) simp
  have "0 \<le> d64_div (d64_mul (d64_div 1 ?b) loss) (d64_sub 1 loss)" if "0 < loss" "loss < 1"
    using that r by (intro d64_ops_nonneg) auto
  with r show ?thesis by (simp add: ci_ge_params_def Let_def)
qed

text \<open>
  Property C38. The parameters aim at the requested loss: for a loss in \<open>[2 ^ -100, 1)\<close> and a mean burst
  of 1 to \<open>2 ^ 100\<close> packets, whenever the derived GOOD-to-BAD probability is below its clamp at 1, the
  steady-state loss \<open>p / (p + r)\<close> of the chain is within \<open>2 ^ -50\<close> of the request, all four roundings
  of the computation included.
\<close>

theorem ge_params_marginal:
  assumes "is_d64 loss" and "2 powi (- 100) \<le> loss" and "loss < 1"
    and "1 \<le> mean_burst" and "mean_burst \<le> 2 powi 100"
    and "ci_ge_params loss mean_burst = (p, r)" and "p < 1"
  shows "\<bar>p / (p + r) - loss\<bar> \<le> 1 / 2 ^ 50 \<and> 0 < p \<and> 0 < r"
proof -
  have l0: "0 < loss" using assms(2) zero_less_power_int [of "2 :: rat" "- 100"] by linarith
  have r: "r = d64_div 1 mean_burst" and p: "p = d64_div (d64_mul r loss) (d64_sub 1 loss)"
    using assms(3,4,6,7) l0 by (auto simp: ci_ge_params_def Let_def split: if_splits)
  have "0 < r"
    using ge_params_unclamped(3) [OF assms(1-5) r p] zero_less_power_int [of "2 :: rat" "- 101"]
    by linarith
  then show ?thesis using ge_params_unclamped(1,2) [OF assms(1-5) r p] by simp
qed

theorem ge_params_marginal_witness:
  "ci_ge_params (1 / 4) 4 = (6004799503160661 / 72057594037927936, 1 / 4) \<and>
    \<bar>6004799503160661 / 72057594037927936 / (6004799503160661 / 72057594037927936 + 1 / 4) - 1 / 4\<bar>
      \<le> (1 / 2 ^ 50 :: rat)"
proof -
  have e: "ci_ge_params (1 / 4) 4 = (6004799503160661 / 72057594037927936, 1 / 4)" by code_simp
  have "(2 :: rat) powi (- 100) \<le> 1 / 4" "(4 :: rat) \<le> 2 powi 100"
    by (simp_all add: power_int_minus_divide)
  with ge_params_marginal [OF is_d64_quarter(1) _ _ _ _ e] e show ?thesis by simp
qed

text \<open>
  A requested burst length of 1 does not give independent losses: the chain then leaves
  BAD on every draw but one, so a drop vector of up to \<open>2 ^ 64\<close> entries contains at most one pair of
  consecutive drops, whatever the requested loss below 1 is.
\<close>

theorem ge_burst_one_never_repeats:
  assumes "loss < 1" and "mean_burst \<le> 1" and "ci_ge_params loss mean_burst = (p, r)"
    and "length v \<le> 2 ^ 64"
    and "ci_ge_fill seed p r (Some v) = Some vec"
  shows "card {k. Suc k < length vec \<and> vec ! k = 1 \<and> vec ! Suc k = 1} \<le> 1"
proof -
  let ?st = "ci_ge_state_init seed p r"
  let ?D = "{k. Suc k < length vec \<and> vec ! k = 1 \<and> vec ! Suc k = 1}"
  have r: "r = 1" using assms(1-3)
    by (auto simp: ci_ge_params_def Let_def d64_div_def split: if_splits)
  have vec: "vec = map (\<lambda>d. if d then 1 else 0) (fst (ge_run (length v) ?st))"
    using assms(5) by (simp add: ci_ge_fill_Some ge_fill_run)
  have draw: "ci_draw (g_seed ?st) (word_of_nat k) = UINT64_MAX" if "k \<in> ?D" for k
  proof -
    have k: "Suc k < length v" using that by (simp add: vec)
    then have "g_bad (snd (ge_run k ?st))" "g_bad (snd (ge_run (Suc k) ?st))"
      using that by (auto simp: vec ge_run_nth simp del: ge_run.simps split: if_splits)
    then have "\<not> ci_draw (g_seed ?st) (word_of_nat k) < UINT64_MAX"
      unfolding ge_run_next
      by (auto simp: ge_next_def ci_ge_state_init_def ci_ge_threshold_def r split: if_splits)
    then show ?thesis using UINT64_MAX_top by (simp add: not_less antisym)
  qed
  have "inj_on (\<lambda>k. 0 + (word_of_nat k :: u64)) {..<length v}" by (rule inj_on_step [OF assms(4)])
  then have inj: "a = b" if "word_of_nat a = (word_of_nat b :: u64)" "a < length v" "b < length v" for a b
    using that by (simp add: inj_on_def)
  have "a = b" if "a \<in> ?D" "b \<in> ?D" for a b
  proof (rule inj)
    show "word_of_nat a = (word_of_nat b :: u64)"
      using draw [OF that(1)] draw [OF that(2)] by (metis ci_draw.draw_eq_iff)
  qed (use that in \<open>auto simp: vec\<close>)
  moreover have "finite ?D" by (rule finite_subset [of _ "{..<length vec}"]) auto
  ultimately show ?thesis unfolding One_nat_def by (subst card_le_Suc0_iff_eq) blast+
qed

theorem ge_burst_one_never_repeats_witness:
  "card {k. Suc k < 3 \<and> ge_fill_loop (ci_splitmix64 1) UINT64_MAX UINT64_MAX 0 3 False ! k = 1 \<and>
     ge_fill_loop (ci_splitmix64 1) UINT64_MAX UINT64_MAX 0 3 False ! Suc k = 1} \<le> 1"
proof -
  have "ci_ge_params (7 / 8) 1 = (1, 1)" by code_simp
  moreover have "ci_ge_fill 1 1 1 (Some [0, 0, 0]) =
      Some (ge_fill_loop (ci_splitmix64 1) UINT64_MAX UINT64_MAX 0 3 False)"
    by (simp add: ci_ge_fill_def ci_ge_threshold_def numeral_3_eq_3)
  ultimately show ?thesis
    using ge_burst_one_never_repeats [of "7 / 8" 1 1 1 "[0, 0, 0]" 1] by simp
qed

end
