(* ===== verification/CI_Seq.thy ===== *)
theory CI_Seq
  imports CI_Prelude
begin

text \<open>
  The sequence tracker of \<open>src/lib/ci_meas.c\<close>: 16-bit RDP sequence numbers unwrapped into a 64-bit
  space, a circular bitmap of the last 2048 positions, and the counters from which the inferred
  loss is computed. The lemmas relate the tracker to the set of positions that were fed.
\<close>

definition CI_SEQ_WIN :: u64 where [const_defs]: "CI_SEQ_WIN = 2048"
definition CI_LOSS_MIN_SPAN :: u64 where [const_defs]: "CI_LOSS_MIN_SPAN = 64"
definition CI_LOSS_DENSITY_DIV :: u64 where [const_defs]: "CI_LOSS_DENSITY_DIV = 8"

record ci_seq_tracker =
  s_have :: bool
  s_first :: u64
  s_max :: u64
  s_n_seen :: u64
  s_n_distinct :: u64
  s_n_dup :: u64
  s_n_reorder :: u64
  s_n_gap :: u64
  s_epoch :: u32
  s_seen :: bytes

section \<open>The circular bitmap\<close>

definition seq_bit_get :: "ci_seq_tracker \<Rightarrow> u64 \<Rightarrow> bool" where
  "seq_bit_get t pos =
     (let i = ucast (pos mod CI_SEQ_WIN) :: u32
      in drop_bit (unat (i AND 7)) (s_seen t ! unat (drop_bit 3 i)) AND 1 \<noteq> 0)"

definition seq_bit_set :: "ci_seq_tracker \<Rightarrow> u64 \<Rightarrow> bool \<Rightarrow> ci_seq_tracker" where
  "seq_bit_set t pos v =
     (let i = ucast (pos mod CI_SEQ_WIN) :: u32;
          k = unat (drop_bit 3 i);
          m = push_bit (unat (i AND 7)) 1
      in if v then t\<lparr>s_seen := (s_seen t)[k := s_seen t ! k OR m]\<rparr>
         else t\<lparr>s_seen := (s_seen t)[k := s_seen t ! k AND NOT m]\<rparr>)"

section \<open>Operations\<close>

definition ci_seq_tracker_init :: ci_seq_tracker where
  "ci_seq_tracker_init =
     \<lparr>s_have = False, s_first = 0, s_max = 0, s_n_seen = 0, s_n_distinct = 0, s_n_dup = 0,
      s_n_reorder = 0, s_n_gap = 0, s_epoch = 0, s_seen = replicate 256 0\<rparr>"

text \<open>\<open>for (p = clear_from; p < unwrapped; p++) seq_bit_set(t, p, 0);\<close>\<close>

function seq_clear :: "ci_seq_tracker \<Rightarrow> u64 \<Rightarrow> u64 \<Rightarrow> ci_seq_tracker" where
  "seq_clear t p unwrapped =
     (if p < unwrapped then seq_clear (seq_bit_set t p False) (p + 1) unwrapped else t)"
  by pat_completeness auto
termination
proof (relation "measure (\<lambda>(t, p, unwrapped). unat unwrapped - unat p)")
  fix t :: ci_seq_tracker and p unwrapped :: u64
  assume "p < unwrapped"
  then have "unat p < unat unwrapped" "unat (p + 1) = unat p + 1"
    by (auto simp: word_less_nat_alt unat_word_ariths intro!: mod_less less_trans_Suc)
  then show "((seq_bit_set t p False, p + 1, unwrapped), t, p, unwrapped)
      \<in> measure (\<lambda>(t, p, unwrapped). unat unwrapped - unat p)"
    by simp
qed simp

declare seq_clear.simps [simp del]

definition ci_seq_tracker_feed_body :: "u16 \<Rightarrow> ci_seq_tracker \<Rightarrow> nat \<times> ci_seq_tracker" where
  "ci_seq_tracker_feed_body seq t =
     (let t = t\<lparr>s_n_seen := s_n_seen t + 1\<rparr> in
      if \<not> s_have t then
        (let t = t\<lparr>s_have := True, s_first := ucast seq, s_max := ucast seq, s_n_distinct := 1\<rparr>;
             t = seq_bit_set t (s_max t) True;
             t = t\<lparr>s_epoch := ucast (drop_bit 16 (s_max t))\<rparr>
         in (0, t))
      else
        (let diff = sint (seq - ucast (s_max t AND 0xFFFF) :: u16);
             unwrapped = s_max t + word_of_int diff
         in if diff > 0 then
              (let clear_from = s_max t + 1;
                   clear_from = (if unwrapped - s_max t > CI_SEQ_WIN
                                 then unwrapped - CI_SEQ_WIN else clear_from);
                   t = seq_clear t clear_from unwrapped;
                   t = seq_bit_set t unwrapped True;
                   t = t\<lparr>s_max := unwrapped, s_n_distinct := s_n_distinct t + 1\<rparr>;
                   t = t\<lparr>s_epoch := ucast (drop_bit 16 (s_max t))\<rparr>
               in if diff > 1 then (1, t\<lparr>s_n_gap := s_n_gap t + word_of_int (diff - 1)\<rparr>)
                  else (0, t))
            else if seq_bit_get t unwrapped then (2, t\<lparr>s_n_dup := s_n_dup t + 1\<rparr>)
            else (let t = seq_bit_set t unwrapped True
                  in (3, t\<lparr>s_n_distinct := s_n_distinct t + 1,
                          s_n_reorder := s_n_reorder t + 1\<rparr>))))"

definition ci_seq_tracker_feed ::
  "ci_seq_tracker option \<Rightarrow> u16 \<Rightarrow> nat \<times> ci_seq_tracker option" where
  "ci_seq_tracker_feed tp seq = on_ptr 0 (ci_seq_tracker_feed_body seq) tp"

definition ci_seq_tracker_loss :: "ci_seq_tracker option \<Rightarrow> u64" where
  "ci_seq_tracker_loss = of_ptr 0 (\<lambda>t.
     if \<not> s_have t then 0
     else let span = s_max t - s_first t + 1
          in if span > s_n_distinct t then span - s_n_distinct t else 0)"

definition ci_loss_trustworthy :: "ci_seq_tracker option \<Rightarrow> bool" where
  "ci_loss_trustworthy = of_ptr True (\<lambda>t.
     if \<not> s_have t then True
     else let span = s_max t - s_first t + 1
          in if span < CI_LOSS_MIN_SPAN then True
             else s_n_distinct t * CI_LOSS_DENSITY_DIV \<ge> span)"

section \<open>Lemmas on the bitmap\<close>

definition bm_index :: "u64 \<Rightarrow> nat" where
  "bm_index pos = unat pos mod 2048"

lemma bm_word:
  "unat (drop_bit 3 (ucast (pos mod CI_SEQ_WIN) :: u32)) = bm_index pos div 8"
  "unat ((ucast (pos mod CI_SEQ_WIN) :: u32) AND 7) = bm_index pos mod 8"
proof -
  have i: "unat (ucast (pos mod CI_SEQ_WIN) :: u32) = bm_index pos"
    by (simp add: bm_index_def CI_SEQ_WIN_def unsigned_ucast_eq unat_mod)
       (rule take_bit_nat_eq_self, rule less_trans [of _ 2048], simp_all)
  show "unat (drop_bit 3 (ucast (pos mod CI_SEQ_WIN) :: u32)) = bm_index pos div 8"
    using i by (simp add: drop_bit_eq_div unat_div)
  have "(x :: u32) AND 7 = take_bit 3 x" for x
    by (simp add: take_bit_eq_mask mask_numeral)
  then show "unat ((ucast (pos mod CI_SEQ_WIN) :: u32) AND 7) = bm_index pos mod 8"
    using i by (simp add: take_bit_eq_mod unat_mod)
qed

definition bm_bit :: "bytes \<Rightarrow> nat \<Rightarrow> bool" where
  "bm_bit bs i = bit (bs ! (i div 8)) (i mod 8)"

lemma seq_bit_get_iff: "seq_bit_get t pos \<longleftrightarrow> bm_bit (s_seen t) (bm_index pos)"
  by (simp add: seq_bit_get_def bm_word bm_bit_def bit_iff_odd_drop_bit and_one_eq odd_iff_mod_2_eq_one)

lemma seq_bit_set_frame [simp]:
  "s_have (seq_bit_set t p v) = s_have t" "s_first (seq_bit_set t p v) = s_first t"
  "s_max (seq_bit_set t p v) = s_max t" "s_n_seen (seq_bit_set t p v) = s_n_seen t"
  "s_n_distinct (seq_bit_set t p v) = s_n_distinct t" "s_n_dup (seq_bit_set t p v) = s_n_dup t"
  "s_n_reorder (seq_bit_set t p v) = s_n_reorder t" "s_n_gap (seq_bit_set t p v) = s_n_gap t"
  "s_epoch (seq_bit_set t p v) = s_epoch t" "length (s_seen (seq_bit_set t p v)) = length (s_seen t)"
  by (simp_all add: seq_bit_set_def Let_def)

lemma seq_bit_set_seen:
  assumes "length (s_seen t) = 256" and "i < 2048"
  shows "bm_bit (s_seen (seq_bit_set t p v)) i = (if i = bm_index p then v else bm_bit (s_seen t) i)"
proof -
  have "bm_index p < 2048" by (simp add: bm_index_def)
  then have k: "bm_index p div 8 < length (s_seen t)" using assms(1) by linarith
  have same: "i = bm_index p" if "i div 8 = bm_index p div 8" "i mod 8 = bm_index p mod 8"
    using that by (metis div_mult_mod_eq)
  have "i mod 8 < 8" by simp
  then show ?thesis
    using k same
    by (auto simp: seq_bit_set_def bm_word bm_bit_def Let_def bit_simps nth_list_update)
qed

lemma unat_Suc_less: "p < u \<Longrightarrow> unat (p + 1) = unat p + 1" for p u :: u64
  by (auto simp: word_less_nat_alt unat_word_ariths intro!: mod_less less_trans_Suc)

lemma seq_clear_frame [simp]:
  "s_have (seq_clear t p u) = s_have t" "s_first (seq_clear t p u) = s_first t"
  "s_max (seq_clear t p u) = s_max t" "s_n_seen (seq_clear t p u) = s_n_seen t"
  "s_n_distinct (seq_clear t p u) = s_n_distinct t" "s_n_dup (seq_clear t p u) = s_n_dup t"
  "s_n_reorder (seq_clear t p u) = s_n_reorder t" "s_n_gap (seq_clear t p u) = s_n_gap t"
  "s_epoch (seq_clear t p u) = s_epoch t" "length (s_seen (seq_clear t p u)) = length (s_seen t)"
  by (induction t p u rule: seq_clear.induct) (simp_all add: seq_clear.simps)

lemma seq_clear_seen:
  assumes "length (s_seen t) = 256" and "i < 2048"
  shows "bm_bit (s_seen (seq_clear t p u)) i \<longleftrightarrow>
    bm_bit (s_seen t) i \<and> \<not> (\<exists>q. unat p \<le> q \<and> q < unat u \<and> q mod 2048 = i)"
  using assms(1)
proof (induction t p u rule: seq_clear.induct)
  case (1 t p u)
  show ?case
  proof (cases "p < u")
    case True
    then have lt: "unat p < unat u" by (simp add: word_less_nat_alt)
    have ex: "(\<exists>q. unat p \<le> q \<and> q < unat u \<and> q mod 2048 = i) \<longleftrightarrow>
      unat p mod 2048 = i \<or> (\<exists>q. unat p + 1 \<le> q \<and> q < unat u \<and> q mod 2048 = i)"
      using lt by (metis Suc_eq_plus1 Suc_leI le_less less_Suc_eq_le not_less_eq_eq order_refl)
    show ?thesis
      using "1.IH" [OF True] "1.prems" True
      by (auto simp: seq_clear.simps [of t p u] seq_bit_set_seen assms(2) unat_Suc_less ex bm_index_def)
  next
    case False
    then have "\<not> (\<exists>q. unat p \<le> q \<and> q < unat u \<and> q mod 2048 = i)"
      by (auto simp: word_less_nat_alt)
    with False show ?thesis by (simp add: seq_clear.simps [of t p u])
  qed
qed

section \<open>The tracker against the set of fed positions\<close>

text \<open>
  Positions are the sender's unbounded sequence numbers. The tracker \<open>t\<close> represents a set \<open>S\<close> of
  positions, fed from position \<open>f\<close> on, with the highest one at \<open>m\<close>.
\<close>

definition seq_rep :: "nat \<Rightarrow> nat \<Rightarrow> nat set \<Rightarrow> ci_seq_tracker \<Rightarrow> bool" where
  "seq_rep f m S t \<longleftrightarrow>
     s_have t \<and> length (s_seen t) = 256 \<and> s_first t = word_of_nat f \<and> s_max t = word_of_nat m \<and>
     f \<in> S \<and> m \<in> S \<and> (\<forall>p \<in> S. p \<le> m) \<and> m < 2 ^ 63 \<and>
     s_n_distinct t = word_of_nat (card S) \<and> s_epoch t = word_of_nat (m div 65536) \<and>
     (\<forall>p \<le> m. m < p + 2048 \<longrightarrow> (bm_bit (s_seen t) (p mod 2048) \<longleftrightarrow> p \<in> S))"

text \<open>A position within the tracker's reach: at most 2047 behind the highest or 32767 ahead of it.\<close>

definition seq_step_ok :: "nat \<Rightarrow> nat \<Rightarrow> bool" where
  "seq_step_ok m q \<longleftrightarrow> (if m < q then q - m < 32768 else m - q < 2048)"

definition seq_class :: "nat \<Rightarrow> nat set \<Rightarrow> nat \<Rightarrow> nat" where
  "seq_class m S q =
     (if m < q then (if q = m + 1 then 0 else 1) else if q \<in> S then 2 else 3)"

lemma finite_seq_rep: "seq_rep f m S t \<Longrightarrow> finite S"
  unfolding seq_rep_def by (meson finite_nat_set_iff_bounded_le)

lemma seq_diff:
  assumes "- 32768 \<le> int q - int m" and "int q - int m < 32768"
  shows "sint (word_of_nat q - ucast ((word_of_nat m :: u64) AND 0xFFFF) :: u16) = int q - int m"
proof -
  have "ucast ((word_of_nat m :: u64) AND 0xFFFF) = (word_of_nat m :: u16)"
    by (rule bit_word_eqI)
      (auto simp: bit_simps bit_numeral_rec less_Suc_eq numeral_eq_Suc)
  then have eq: "word_of_nat q - ucast ((word_of_nat m :: u64) AND 0xFFFF)
      = (word_of_int (int q - int m) :: u16)"
    by (simp add: of_int_diff)
  have "signed_take_bit 15 (int q - int m) = int q - int m"
    using assms by (intro signed_take_bit_int_eq_self) auto
  then show ?thesis unfolding eq signed_of_int by simp
qed

lemma seq_epoch:
  assumes "m < 2 ^ 64"
  shows "ucast (drop_bit 16 (word_of_nat m :: u64)) = (word_of_nat (m div 65536) :: u32)"
proof -
  have "unat (drop_bit 16 (word_of_nat m :: u64)) = m div 65536"
    using unat_pos [OF assms] by (simp add: drop_bit_eq_div unat_div)
  then show ?thesis unfolding ucast_via_nat by simp
qed

lemma bm_index_pos: "m < 2 ^ 64 \<Longrightarrow> bm_index (word_of_nat m) = m mod 2048"
  by (simp only: bm_index_def unat_pos)

lemma mod_window:
  assumes "p mod 2048 = q mod 2048" and "p < q + 2048" and "q < p + 2048"
  shows "p = (q :: nat)"
proof -
  have e: "p = 2048 * (p div 2048) + p mod 2048" "q = 2048 * (q div 2048) + q mod 2048" by simp_all
  have "\<not> p div 2048 < q div 2048" "\<not> q div 2048 < p div 2048"
    using e assms by linarith+
  then have "p div 2048 = q div 2048" by linarith
  with e assms(1) show ?thesis by metis
qed

text \<open>The first packet.\<close>

lemma feed_first:
  assumes "q < 65536"
    and "ci_seq_tracker_feed_body (word_of_nat q) ci_seq_tracker_init = (c, t)"
  shows "c = 0 \<and> seq_rep q q {q} t \<and> s_n_seen t = 1 \<and> s_n_dup t = 0 \<and> s_n_reorder t = 0"
proof -
  have u: "(ucast (word_of_nat q :: u16) :: u64) = word_of_nat q"
    using assms(1) unfolding ucast_via_nat by (simp add: unsigned_of_nat take_bit_nat_eq_self)
  let ?t = "seq_bit_set (ci_seq_tracker_init\<lparr>s_n_seen := 1, s_have := True, s_first := word_of_nat q,
      s_max := word_of_nat q, s_n_distinct := 1\<rparr>) (word_of_nat q) True"
  have t: "t = ?t\<lparr>s_epoch := ucast (drop_bit 16 (word_of_nat q :: u64))\<rparr>" "c = 0"
    using assms(2) by (simp_all add: ci_seq_tracker_feed_body_def ci_seq_tracker_init_def u Let_def)
  have seen: "bm_bit (s_seen ?t) (p mod 2048) \<longleftrightarrow> p mod 2048 = q mod 2048" for p
  proof -
    have "bm_index (word_of_nat q) = q mod 2048" using assms(1) by (intro bm_index_pos) simp
    moreover have "\<not> bm_bit (replicate 256 0) (p mod 2048)"
      by (simp add: bm_bit_def)
    ultimately show ?thesis
      by (subst seq_bit_set_seen) (simp_all add: ci_seq_tracker_init_def)
  qed
  have "p = q" if "p \<le> q" "q < p + 2048" "p mod 2048 = q mod 2048" for p
    using that by (intro mod_window [OF that(3)]) linarith+
  then have "\<forall>p \<le> q. q < p + 2048 \<longrightarrow> (bm_bit (s_seen t) (p mod 2048) \<longleftrightarrow> p \<in> {q})"
    using seen by (auto simp: t)
  moreover have "s_epoch t = word_of_nat (q div 65536)" "q < 2 ^ 63" "length (s_seen t) = 256"
    using assms(1) by (simp_all add: t seq_epoch, simp add: ci_seq_tracker_init_def)
  moreover have "s_have t" "s_first t = word_of_nat q" "s_max t = word_of_nat q" "s_n_distinct t = 1"
    "s_n_seen t = 1" "s_n_dup t = 0" "s_n_reorder t = 0"
    by (simp_all add: t, simp_all add: ci_seq_tracker_init_def)
  ultimately show ?thesis unfolding seq_rep_def using t(2) by simp
qed

text \<open>A forward packet and a packet at or behind the highest position.\<close>

lemma feed_forward:
  assumes rep: "seq_rep f m S t" and q: "m < q" "q - m < 32768" "q < 2 ^ 63"
    and run: "ci_seq_tracker_feed_body (word_of_nat q) t = (c, t')"
  shows "c = seq_class m S q \<and> seq_rep f q (insert q S) t' \<and> s_n_seen t' = s_n_seen t + 1 \<and>
    s_n_dup t' = s_n_dup t \<and> s_n_reorder t' = s_n_reorder t \<and>
    s_n_gap t' = s_n_gap t + word_of_nat (q - m - 1)"
proof -
  note R = rep [unfolded seq_rep_def]
  have mx: "s_max t = word_of_nat m" and hv: "s_have t" using R by simp_all
  have d: "sint (word_of_nat q - ucast ((word_of_nat m :: u64) AND 0xFFFF) :: u16) = int q - int m"
    using q by (intro seq_diff) auto
  have u: "word_of_nat m + word_of_int (int q - int m) = (word_of_nat q :: u64)" by (simp add: of_int_diff)
  have w: "(word_of_nat q - word_of_nat m :: u64) = word_of_nat (q - m)"
    using q(1) by (simp add: of_nat_diff)
  have gt: "word_of_nat q - word_of_nat m > CI_SEQ_WIN \<longleftrightarrow> q - m > 2048"
  proof -
    have "q - m < 2 ^ 64" using q by simp
    then have "unat (word_of_nat (q - m) :: u64) = q - m" by (rule unat_pos)
    then show ?thesis unfolding w word_less_nat_alt CI_SEQ_WIN_def by simp
  qed
  define cf where "cf = (if q - m > 2048 then q - 2048 else m + 1)"
  have cfw: "(if q - m > 2048 then word_of_nat q - CI_SEQ_WIN else word_of_nat m + 1) = (word_of_nat cf :: u64)"
    by (auto simp: cf_def CI_SEQ_WIN_def of_nat_diff)
  let ?t = "seq_bit_set (seq_clear (t\<lparr>s_n_seen := s_n_seen t + 1\<rparr>) (word_of_nat cf) (word_of_nat q))
      (word_of_nat q) True"
  have e: "word_of_int (int q - int m - 1) = (word_of_nat (q - m - 1) :: u64)"
    using q(1) by (simp add: of_nat_diff)
  let ?u = "?t\<lparr>s_max := word_of_nat q, s_n_distinct := s_n_distinct t + 1,
       s_epoch := ucast (drop_bit 16 (word_of_nat q :: u64))\<rparr>"
  have "ci_seq_tracker_feed_body (word_of_nat q) t =
      (if 1 < int q - int m then (1, ?u\<lparr>s_n_gap := s_n_gap t + word_of_nat (q - m - 1)\<rparr>) else (0, ?u))"
    using q(1) hv unfolding ci_seq_tracker_feed_body_def Let_def
    by (simp add: d u mx gt cfw e del: of_int_diff of_nat_diff cong: if_cong split del: if_split)
  moreover have "1 < int q - int m \<longleftrightarrow> q \<noteq> m + 1" using q(1) by linarith
  ultimately have c: "c = (if q = m + 1 then 0 else 1)"
    and "t' = (if q = m + 1 then ?u else ?u\<lparr>s_n_gap := s_n_gap t + word_of_nat (q - m - 1)\<rparr>)"
    using run by (cases "q = m + 1"; simp only: if_True if_False prod.inject simp_thms)+
  moreover have "?u = ?u\<lparr>s_n_gap := s_n_gap t\<rparr>" by simp
  ultimately have t': "t' = ?u\<lparr>s_n_gap := s_n_gap t + word_of_nat (q - m - 1)\<rparr>"
    by (cases "q = m + 1") (simp_all del: of_nat_add)
  have c63: "cf < 2 ^ 64" "q < 2 ^ 64" using q by (auto simp: cf_def)
  have bits: "bm_bit (s_seen t') (p mod 2048) \<longleftrightarrow> p \<in> insert q S" if p: "p \<le> q" "q < p + 2048" for p
  proof -
    have b: "bm_bit (s_seen t') (p mod 2048) \<longleftrightarrow> p mod 2048 = q mod 2048 \<or>
        bm_bit (s_seen t) (p mod 2048) \<and> \<not> (\<exists>r. cf \<le> r \<and> r < q \<and> r mod 2048 = p mod 2048)"
      using R c63 by (simp add: t' seq_bit_set_seen seq_clear_seen bm_index_pos)
    have pq: "p mod 2048 = q mod 2048 \<longleftrightarrow> p = q" using mod_window [of p q] p by auto
    show ?thesis
    proof (cases "p \<le> m")
      case True
      have "\<not> (\<exists>r. cf \<le> r \<and> r < q \<and> r mod 2048 = p mod 2048)"
      proof
        assume "\<exists>r. cf \<le> r \<and> r < q \<and> r mod 2048 = p mod 2048"
        then obtain r where "cf \<le> r" "r < q" "r mod 2048 = p mod 2048" by blast
        moreover have "cf = m + 1" using True p by (auto simp: cf_def)
        ultimately show False using mod_window [of r p] True p by auto
      qed
      moreover have "bm_bit (s_seen t) (p mod 2048) \<longleftrightarrow> p \<in> S" using R True p q by auto
      ultimately show ?thesis using b pq by auto
    next
      case False
      then have "p \<notin> S" using R by auto
      moreover have "cf \<le> p" using False p by (auto simp: cf_def)
      ultimately show ?thesis using b pq p by (auto simp: le_less)
    qed
  qed
  have "q \<notin> S" using R q(1) by auto
  then have "card (insert q S) = card S + 1" using finite_seq_rep [OF rep] by simp
  then have "seq_rep f q (insert q S) t'"
    using R bits q c63 by (auto simp: seq_rep_def t' seq_epoch)
  then show ?thesis using q(1) by (simp add: t' c seq_class_def)
qed

lemma feed_behind:
  assumes rep: "seq_rep f m S t" and q: "q \<le> m" "m - q < 2048"
    and run: "ci_seq_tracker_feed_body (word_of_nat q) t = (c, t')"
  shows "c = seq_class m S q \<and> seq_rep f m (insert q S) t' \<and> s_n_seen t' = s_n_seen t + 1 \<and>
    s_n_dup t' = s_n_dup t + (if q \<in> S then 1 else 0) \<and>
    s_n_reorder t' = s_n_reorder t + (if q \<in> S then 0 else 1) \<and> s_n_gap t' = s_n_gap t"
proof -
  note R = rep [unfolded seq_rep_def]
  have mx: "s_max t = word_of_nat m" and hv: "s_have t" using R by simp_all
  have d: "sint (word_of_nat q - ucast ((word_of_nat m :: u64) AND 0xFFFF) :: u16) = int q - int m"
    using q by (intro seq_diff) auto
  have u: "word_of_nat m + word_of_int (int q - int m) = (word_of_nat q :: u64)" by (simp add: of_int_diff)
  have q64: "q < 2 ^ 64" using q R by auto
  have g: "seq_bit_get (t\<lparr>s_n_seen := n\<rparr>) (word_of_nat q) \<longleftrightarrow> q \<in> S" for n
    using R q by (auto simp: seq_bit_get_iff bm_index_pos [OF q64])
  show ?thesis
  proof (cases "q \<in> S")
    case True
    then have "c = 2" "t' = t\<lparr>s_n_seen := s_n_seen t + 1, s_n_dup := s_n_dup t + 1\<rparr>"
      using run q(1) hv g unfolding ci_seq_tracker_feed_body_def Let_def by (auto simp: d u mx)
    moreover have "insert q S = S" using True by auto
    ultimately show ?thesis using True q R by (auto simp: seq_class_def seq_rep_def)
  next
    case False
    then have t': "c = 3" "t' = seq_bit_set (t\<lparr>s_n_seen := s_n_seen t + 1\<rparr>) (word_of_nat q) True
        \<lparr>s_n_distinct := s_n_distinct t + 1, s_n_reorder := s_n_reorder t + 1\<rparr>"
      using run q(1) hv g unfolding ci_seq_tracker_feed_body_def Let_def by (auto simp: d u mx)
    have "bm_bit (s_seen t') (p mod 2048) \<longleftrightarrow> p \<in> insert q S" if p: "p \<le> m" "m < p + 2048" for p
      using R p q q64 mod_window [of p q] by (auto simp: t' seq_bit_set_seen bm_index_pos)
    moreover have "card (insert q S) = card S + 1" using False finite_seq_rep [OF rep] by simp
    ultimately have "seq_rep f m (insert q S) t'"
      using R q by (auto simp: seq_rep_def t')
    then show ?thesis using False q(1) by (simp add: t' seq_class_def)
  qed
qed

lemma feed_step:
  assumes "seq_rep f m S t" and "seq_step_ok m q" and "q < 2 ^ 63"
    and "ci_seq_tracker_feed_body (word_of_nat q) t = (c, t')"
  shows "c = seq_class m S q \<and> seq_rep f (max m q) (insert q S) t' \<and> s_n_seen t' = s_n_seen t + 1 \<and>
    s_n_dup t' = s_n_dup t + (if q \<in> S then 1 else 0)"
proof (cases "m < q")
  case True
  then have "q \<notin> S" using assms(1) by (auto simp: seq_rep_def)
  with True show ?thesis
    using feed_forward [OF assms(1) True _ assms(3,4)] assms(2) by (simp add: seq_step_ok_def)
next
  case False
  then show ?thesis
    using feed_behind [OF assms(1) _ _ assms(4)] assms(2) by (simp add: seq_step_ok_def max_def)
qed

text \<open>A run of the tracker over a packet stream: the verdicts and the final tracker.\<close>

fun seq_feed_all :: "ci_seq_tracker option \<Rightarrow> u16 list \<Rightarrow> nat list \<times> ci_seq_tracker option" where
  "seq_feed_all tp [] = ([], tp)"
| "seq_feed_all tp (s # ss) =
     (case ci_seq_tracker_feed tp s of (c, tp') \<Rightarrow>
        case seq_feed_all tp' ss of (cs, tp'') \<Rightarrow> (c # cs, tp''))"

text \<open>
  The stream in terms of the sender's positions: every position within reach of the highest one
  so far, and the verdict that the positions alone determine.
\<close>

fun seq_path_ok :: "nat \<Rightarrow> nat list \<Rightarrow> bool" where
  "seq_path_ok m [] = True"
| "seq_path_ok m (q # qs) = (seq_step_ok m q \<and> q < 2 ^ 63 \<and> seq_path_ok (max m q) qs)"

fun seq_classes :: "nat \<Rightarrow> nat set \<Rightarrow> nat list \<Rightarrow> nat list" where
  "seq_classes m S [] = []"
| "seq_classes m S (q # qs) = seq_class m S q # seq_classes (max m q) (insert q S) qs"

lemma seq_feed_all_rep:
  assumes "seq_rep f m S t" and "seq_path_ok m qs"
  shows "\<exists>t'. seq_feed_all (Some t) (map word_of_nat qs) = (seq_classes m S qs, Some t') \<and>
    seq_rep f (fold max qs m) (S \<union> set qs) t' \<and> s_n_seen t' = s_n_seen t + word_of_nat (length qs) \<and>
    s_n_dup t' + word_of_nat (card (S \<union> set qs)) = s_n_dup t + word_of_nat (card S + length qs)"
  using assms
proof (induction qs arbitrary: m S t)
  case (Cons q qs)
  obtain c u where u: "ci_seq_tracker_feed_body (word_of_nat q) t = (c, u)" by fastforce
  note st = feed_step [OF Cons.prems(1) _ _ u]
  have ok: "seq_step_ok m q" "q < 2 ^ 63" "seq_path_ok (max m q) qs" using Cons.prems(2) by simp_all
  note st = st [OF ok(1,2)]
  then obtain t' where t': "seq_feed_all (Some u) (map word_of_nat qs) =
      (seq_classes (max m q) (insert q S) qs, Some t')"
    "seq_rep f (fold max qs (max m q)) (insert q S \<union> set qs) t'"
    "s_n_seen t' = s_n_seen u + word_of_nat (length qs)"
    "s_n_dup t' + word_of_nat (card (insert q S \<union> set qs)) =
       s_n_dup u + word_of_nat (card (insert q S) + length qs)"
    using Cons.IH [of "max m q" "insert q S" u] ok(3) by blast
  have "card (insert q S) = card S + (if q \<in> S then 0 else 1)"
    using finite_seq_rep [OF Cons.prems(1)] by (auto simp: insert_absorb)
  then show ?case
    using t' st u by (auto simp: ci_seq_tracker_feed_def max.commute algebra_simps)
qed simp

lemma fold_max: "fold max qs (m :: nat) = Max (set (m # qs))"
  by (simp only: Max.set_eq_fold)

lemma seq_rep_span:
  assumes "seq_rep f m S t"
  shows "unat (s_max t - s_first t + 1) = m - f + 1"
proof -
  have "f \<le> m" "m < 2 ^ 63" using assms by (auto simp: seq_rep_def)
  then have "s_max t - s_first t + 1 = word_of_nat (m - f + 1)" "m - f + 1 < 2 ^ 64"
    using assms by (auto simp: seq_rep_def of_nat_diff)
  then show ?thesis by (simp only: unat_pos)
qed

lemma seq_rep_distinct:
  assumes "seq_rep f m S t"
  shows "unat (s_n_distinct t) = card S" and "card S < 2 ^ 64"
proof -
  have "card S \<le> card {..m}" using assms by (intro card_mono) (auto simp: seq_rep_def)
  moreover have "m < 2 ^ 63" using assms by (simp add: seq_rep_def)
  ultimately show lt: "card S < 2 ^ 64" by simp
  have "s_n_distinct t = word_of_nat (card S)" using assms by (simp add: seq_rep_def)
  then show "unat (s_n_distinct t) = card S" using unat_pos [OF lt] by simp
qed

lemma seq_rep_loss:
  assumes "seq_rep f m S t"
  shows "unat (ci_seq_tracker_loss (Some t)) = m - f + 1 - card S"
proof -
  have "s_have t" using assms by (simp add: seq_rep_def)
  then show ?thesis
    using seq_rep_span [OF assms] seq_rep_distinct [OF assms]
    by (auto simp: ci_seq_tracker_loss_def Let_def word_less_nat_alt word_le_nat_alt unat_sub_if_size)
qed

text \<open>A run from the cleared tracker.\<close>

lemma seq_run_rep:
  assumes "q < 65536" and "seq_path_ok q qs"
  shows "\<exists>t. seq_feed_all (Some ci_seq_tracker_init) (map word_of_nat (q # qs)) =
      (0 # seq_classes q {q} qs, Some t) \<and>
    seq_rep q (Max (set (q # qs))) (set (q # qs)) t \<and>
    s_n_seen t = word_of_nat (length (q # qs)) \<and>
    s_n_dup t + word_of_nat (card (set (q # qs))) = word_of_nat (length (q # qs))"
proof -
  obtain c t where f: "ci_seq_tracker_feed_body (word_of_nat q) ci_seq_tracker_init = (c, t)" by fastforce
  note t = feed_first [OF assms(1) f]
  then obtain t' where "seq_feed_all (Some t) (map word_of_nat qs) = (seq_classes q {q} qs, Some t')"
    "seq_rep q (fold max qs q) ({q} \<union> set qs) t'" "s_n_seen t' = s_n_seen t + word_of_nat (length qs)"
    "s_n_dup t' + word_of_nat (card ({q} \<union> set qs)) = s_n_dup t + word_of_nat (card {q} + length qs)"
    using seq_feed_all_rep [of q q "{q}" t qs] assms(2) by blast
  then show ?thesis using t f by (simp add: ci_seq_tracker_feed_def fold_max)
qed

lemma card_missing:
  fixes f m :: nat
  assumes "finite S" and "S \<subseteq> {f..m}" and "f \<le> m"
  shows "card ({f..m} - S) = m - f + 1 - card S"
  using assms by (simp add: card_Diff_subset Suc_diff_le)

text \<open>The loss of a run from the cleared tracker, in terms of the positions that arrived.\<close>

lemma loss_exact:
  assumes "q < 65536" and "seq_path_ok q qs" and "\<forall>p \<in> set qs. q \<le> p"
  shows "\<exists>t. snd (seq_feed_all (Some ci_seq_tracker_init) (map word_of_nat (q # qs))) = Some t \<and>
    unat (ci_seq_tracker_loss (Some t)) = card ({q..Max (set (q # qs))} - set (q # qs)) \<and>
    unat (s_n_distinct t) = card (set (q # qs)) \<and> s_n_seen t = word_of_nat (length (q # qs)) \<and>
    s_n_dup t = word_of_nat (length (q # qs) - card (set (q # qs)))"
proof -
  obtain t where t: "snd (seq_feed_all (Some ci_seq_tracker_init) (map word_of_nat (q # qs))) = Some t"
    and rep: "seq_rep q (Max (set (q # qs))) (set (q # qs)) t"
    and n: "s_n_seen t = word_of_nat (length (q # qs))"
      "s_n_dup t + word_of_nat (card (set (q # qs))) = word_of_nat (length (q # qs))"
    using seq_run_rep [OF assms(1,2)] by fastforce
  have "set (q # qs) \<subseteq> {q..Max (set (q # qs))}" using assms(3) by auto
  then have "unat (ci_seq_tracker_loss (Some t)) = card ({q..Max (set (q # qs))} - set (q # qs))"
    using seq_rep_loss [OF rep] card_missing [of "set (q # qs)"] by simp
  moreover have "s_n_dup t = word_of_nat (length (q # qs) - card (set (q # qs)))"
    using n(2) card_length [of "q # qs"] by (simp add: of_nat_diff eq_diff_eq del: of_nat_Suc)
  ultimately show ?thesis
    using t n(1) seq_rep_distinct(1) [OF rep] by blast
qed

section \<open>Properties of the sequence tracker\<close>

text \<open>
  Property C5. The inferred loss is exact. Take a stream whose first packet is at a position below
  65536, in which no packet precedes the first one and every packet is at most 2047 positions
  behind or 32767 ahead of the highest position so far (across any number of wraps of the 16-bit
  sequence number). Then the loss that the tracker reports is the number of positions between the
  first and the highest one that never arrived, and the counters agree with the stream: packets
  seen, distinct packets, and duplicates.
\<close>

theorem seq_loss_exact:
  assumes "q < 65536" and "seq_path_ok q qs" and "\<forall>p \<in> set qs. q \<le> p"
  shows "\<exists>t. snd (seq_feed_all (Some ci_seq_tracker_init) (map word_of_nat (q # qs))) = Some t \<and>
    unat (ci_seq_tracker_loss (Some t)) = card ({q..Max (set (q # qs))} - set (q # qs)) \<and>
    unat (s_n_distinct t) = card (set (q # qs)) \<and> s_n_seen t = word_of_nat (length (q # qs)) \<and>
    s_n_dup t = word_of_nat (length (q # qs) - card (set (q # qs)))"
  using assms by (rule loss_exact)

theorem seq_loss_exact_witness:
  "\<exists>t. snd (seq_feed_all (Some ci_seq_tracker_init)
      (map word_of_nat [65534, 65536, 65535, 65539, 65536])) = Some t \<and>
    unat (ci_seq_tracker_loss (Some t)) = card {65537, 65538 :: nat} \<and> unat (s_n_distinct t) = 4 \<and>
    s_n_seen t = 5 \<and> s_n_dup t = 1"
proof -
  have m: "Max {65534, 65536, 65535, 65539, 65536} = (65539 :: nat)" by simp
  have s: "{65534..65539} - {65534, 65536, 65535, 65539, 65536} = {65537, 65538 :: nat}" by auto
  have c: "card {65534, 65536, 65535, 65539, 65536 :: nat} = 4" by (simp add: insert_absorb)
  show ?thesis
    using seq_loss_exact [of 65534 "[65536, 65535, 65539, 65536]"] unfolding list.set m s c
    by (simp add: seq_step_ok_def)
qed

text \<open>
  Property C37. On a stream that stays within the tracker's window every packet is classified by its
  position and the positions fed before: 0 for the next position after the highest one, 1 for a
  forward gap, 2 for a position that was fed before, 3 for a late one that fills a hole. Within
  the window a stale bit of the circular bitmap is never taken for a packet, and a late packet is
  never counted twice. The condition \<open>seq_path_ok\<close> on the sender's unwrapped positions: the first one
  is below 65536, each later one is less than 32768 ahead of the highest so far or at most 2047
  behind it, and all are below \<open>2^63\<close>. A packet 2048 or more behind shares its bit with a newer
  position, and nothing is claimed about it.
\<close>

theorem seq_feed_classifies:
  assumes "q < 65536" and "seq_path_ok q qs"
  shows "fst (seq_feed_all (Some ci_seq_tracker_init) (map word_of_nat (q # qs))) =
    0 # seq_classes q {q} qs"
  using seq_run_rep [OF assms] by fastforce

theorem seq_feed_classifies_witness:
  "fst (seq_feed_all (Some ci_seq_tracker_init) (map word_of_nat [65534, 65536, 65535, 65537, 65536]))
    = [0, 1, 3, 0, 2]"
  using seq_feed_classifies [of 65534 "[65536, 65535, 65537, 65536]"]
  by (simp add: seq_step_ok_def seq_class_def)

text \<open>
  The loss figure is called trustworthy exactly when the span is below 64 positions or
  at least one position in eight of it arrived; the multiplication that decides this does not
  overflow on a stream of fewer than 2^60 positions.
\<close>

theorem seq_trustworthy_iff:
  assumes "q < 65536" and "seq_path_ok q qs" and "Max (set (q # qs)) < 2 ^ 60"
  shows "\<exists>t. snd (seq_feed_all (Some ci_seq_tracker_init) (map word_of_nat (q # qs))) = Some t \<and>
    (ci_loss_trustworthy (Some t) \<longleftrightarrow>
       (let span = Max (set (q # qs)) - q + 1 in span < 64 \<or> span \<le> 8 * card (set (q # qs))))"
proof -
  obtain t where t: "snd (seq_feed_all (Some ci_seq_tracker_init) (map word_of_nat (q # qs))) = Some t"
    and rep: "seq_rep q (Max (set (q # qs))) (set (q # qs)) t"
    using seq_run_rep [OF assms(1,2)] by fastforce
  have "card (set (q # qs)) \<le> card {..Max (set (q # qs))}" by (intro card_mono) auto
  then have c: "card (set (q # qs)) * 8 < 2 ^ 64" using assms(3) unfolding card_atMost
    by (simp del: list.set Max_less_iff)
  have d: "unat (s_n_distinct t * CI_LOSS_DENSITY_DIV) = card (set (q # qs)) * 8"
    using seq_rep_distinct(1) [OF rep] c by (simp add: unat_word_ariths CI_LOSS_DENSITY_DIV_def)
  have "s_have t" using rep by (simp add: seq_rep_def)
  then have "ci_loss_trustworthy (Some t) \<longleftrightarrow>
      (let span = Max (set (q # qs)) - q + 1 in span < 64 \<or> span \<le> 8 * card (set (q # qs)))"
    unfolding ci_loss_trustworthy_def Let_def word_less_nat_alt word_le_nat_alt of_ptr_simps
      seq_rep_span [OF rep] d CI_LOSS_MIN_SPAN_def by (auto simp: mult.commute)
  with t show ?thesis by blast
qed

theorem seq_trustworthy_iff_witness:
  "\<exists>t. snd (seq_feed_all (Some ci_seq_tracker_init) (map word_of_nat [10, 12, 30010])) = Some t \<and>
    \<not> ci_loss_trustworthy (Some t)"
  using seq_trustworthy_iff [of 10 "[12, 30010]"] by (simp add: seq_step_ok_def)

text \<open>
  A packet that precedes the first one hides a loss: it is counted among the distinct
  packets although the span starts after it. After a stream that begins at \<open>q\<close>, steps back to
  \<open>q - 1\<close> and then skips \<open>q + 1\<close>, the tracker reports no loss although that position never arrived.
\<close>

theorem seq_backfill_masks_loss:
  assumes "0 < q" and "q < 65534"
  shows "\<exists>t. snd (seq_feed_all (Some ci_seq_tracker_init) (map word_of_nat [q, q - 1, q + 2])) = Some t \<and>
    ci_seq_tracker_loss (Some t) = 0 \<and>
    card ({q..Max {q, q - 1, q + 2}} - {q, q - 1, q + 2}) = 1"
proof -
  have ok: "seq_path_ok q [q - 1, q + 2]" using assms by (auto simp: seq_step_ok_def)
  obtain t where t: "snd (seq_feed_all (Some ci_seq_tracker_init) (map word_of_nat [q, q - 1, q + 2])) = Some t"
    and rep: "seq_rep q (Max (set [q, q - 1, q + 2])) (set [q, q - 1, q + 2]) t"
    using seq_run_rep [OF _ ok] assms(2) by fastforce
  have m: "Max (set [q, q - 1, q + 2]) = q + 2" by simp
  have "card (set [q, q - 1, q + 2]) = 3" using assms(1) by simp
  then have "ci_seq_tracker_loss (Some t) = 0"
    using seq_rep_loss [OF rep] unfolding m by (simp add: unat_eq_0)
  moreover have "{q..q + 2} - {q, q - 1, q + 2} = {q + 1}" using assms(1) by auto
  ultimately show ?thesis using t m by auto
qed

theorem seq_backfill_masks_loss_witness:
  "\<exists>t. snd (seq_feed_all (Some ci_seq_tracker_init) (map word_of_nat [10, 9, 12])) = Some t \<and>
    ci_seq_tracker_loss (Some t) = 0"
  using seq_backfill_masks_loss [of 10] by auto

end
