(* ===== verification/CI_Meas.thy ===== *)
theory CI_Meas
  imports CI_Prelude
begin

text \<open>
  The rest of \<open>src/lib/ci_meas.c\<close>: the ring that pairs a data packet with the acknowledgement that
  names it, and the window flag that separates instrument loss from link loss. The ring is shown
  to implement a list of the last 256 data packets, newest first.
\<close>

section \<open>RTT pairing\<close>

definition CI_RTT_RING :: nat where [const_defs]: "CI_RTT_RING = 256"

record ci_rtt_pairing =
  p_seq :: "u16 list"
  p_t_ms :: "u32 list"
  p_valid :: "bool list"
  p_head :: u32

definition ci_rtt_init :: ci_rtt_pairing where
  "ci_rtt_init = \<lparr>p_seq = replicate CI_RTT_RING 0, p_t_ms = replicate CI_RTT_RING 0,
     p_valid = replicate CI_RTT_RING False, p_head = 0\<rparr>"

definition ci_rtt_on_data_body :: "u16 \<Rightarrow> u32 \<Rightarrow> ci_rtt_pairing \<Rightarrow> ci_rtt_pairing" where
  "ci_rtt_on_data_body seq t_ms p =
     (let i = unat (p_head p mod word_of_nat CI_RTT_RING)
      in p\<lparr>p_seq := (p_seq p)[i := seq], p_t_ms := (p_t_ms p)[i := t_ms],
           p_valid := (p_valid p)[i := True], p_head := p_head p + 1\<rparr>)"

definition ci_rtt_on_data :: "ci_rtt_pairing option \<Rightarrow> u16 \<Rightarrow> u32 \<Rightarrow> ci_rtt_pairing option" where
  "ci_rtt_on_data pp seq t_ms = map_option (ci_rtt_on_data_body seq t_ms) pp"

definition ring_index :: "u32 \<Rightarrow> nat \<Rightarrow> nat" where
  "ring_index head k = unat ((head - 1 - word_of_nat k) mod word_of_nat CI_RTT_RING)"

text \<open>
  The search loop of \<open>ci_rtt_on_ack\<close>, from its counter \<open>k\<close> on. The result is the return value
  together with \<open>*rtt_ms_out\<close>: \<open>Some rtt\<close> for 1, \<open>None\<close> for 0.
\<close>

function rtt_search :: "u16 \<Rightarrow> u32 \<Rightarrow> nat \<Rightarrow> ci_rtt_pairing \<Rightarrow> u32 option \<times> ci_rtt_pairing" where
  "rtt_search ack_nr t_ms k p =
     (if k < CI_RTT_RING then
        (let i = ring_index (p_head p) k in
         if p_valid p ! i \<and> p_seq p ! i = ack_nr
         then (Some (t_ms - p_t_ms p ! i), p\<lparr>p_valid := (p_valid p)[i := False]\<rparr>)
         else rtt_search ack_nr t_ms (k + 1) p)
      else (None, p))"
  by pat_completeness auto
termination by (relation "measure (\<lambda>(_, _, k, _). CI_RTT_RING - k)") auto

declare rtt_search.simps [simp del]

definition ci_rtt_on_ack ::
  "ci_rtt_pairing option \<Rightarrow> u16 \<Rightarrow> u32 \<Rightarrow> u32 option \<times> ci_rtt_pairing option" where
  "ci_rtt_on_ack pp ack_nr t_ms = on_ptr None (rtt_search ack_nr t_ms 0) pp"

section \<open>The suspect flag\<close>

definition CI_SUSPECT_CONN_OVF :: u32 where [const_defs]: "CI_SUSPECT_CONN_OVF = 0x01"
definition CI_SUSPECT_BUFFER_OUT :: u32 where [const_defs]: "CI_SUSPECT_BUFFER_OUT = 0x02"
definition CI_SUSPECT_BUFFER_LOW :: u32 where [const_defs]: "CI_SUSPECT_BUFFER_LOW = 0x04"
definition CI_SUSPECT_SPARSE_SEQ :: u32 where [const_defs]: "CI_SUSPECT_SPARSE_SEQ = 0x08"

text \<open>The two \<open>int\<close> fields are compared only, so their width does not matter.\<close>

record ci_window_health =
  w_conn_ovf_delta :: u8
  w_buffer_out_delta :: u8
  w_buffer_remaining :: int
  w_buffer_low_water :: int

definition ci_u8_delta :: "u8 \<Rightarrow> u8 \<Rightarrow> u8" where
  "ci_u8_delta prev cur = cur - prev"

definition ci_measurement_suspect :: "ci_window_health option \<Rightarrow> bool \<times> u32" where
  "ci_measurement_suspect hp =
     (case hp of None \<Rightarrow> (False, 0)
      | Some h \<Rightarrow>
          (let f = 0;
               f = (if w_conn_ovf_delta h > 0 then f OR CI_SUSPECT_CONN_OVF else f);
               f = (if w_buffer_out_delta h > 0 then f OR CI_SUSPECT_BUFFER_OUT else f);
               f = (if w_buffer_remaining h < w_buffer_low_water h then f OR CI_SUSPECT_BUFFER_LOW else f)
           in (f \<noteq> 0, f)))"

section \<open>The abstract pairing list\<close>

text \<open>
  What the ring stands for: the last 256 data packets, newest first, each with its sequence number
  and time, or \<open>None\<close> once an acknowledgement has consumed it.
\<close>

type_synonym rtt_view = "(u16 \<times> u32) option list"

definition view_data :: "u16 \<Rightarrow> u32 \<Rightarrow> rtt_view \<Rightarrow> rtt_view" where
  "view_data seq t v = Some (seq, t) # take 255 v"

fun view_ack :: "u16 \<Rightarrow> rtt_view \<Rightarrow> u32 option \<times> rtt_view" where
  "view_ack a [] = (None, [])"
| "view_ack a (None # v) = map_prod id ((#) None) (view_ack a v)"
| "view_ack a (Some (s, t) # v) =
     (if s = a then (Some t, None # v) else map_prod id ((#) (Some (s, t))) (view_ack a v))"

definition rtt_slot :: "ci_rtt_pairing \<Rightarrow> nat \<Rightarrow> (u16 \<times> u32) option" where
  "rtt_slot p i = (if p_valid p ! i then Some (p_seq p ! i, p_t_ms p ! i) else None)"

definition rtt_abs :: "ci_rtt_pairing \<Rightarrow> rtt_view" where
  "rtt_abs p = map (\<lambda>k. rtt_slot p (ring_index (p_head p) k)) [0..<256]"

definition rtt_wf :: "ci_rtt_pairing \<Rightarrow> bool" where
  "rtt_wf p \<longleftrightarrow> length (p_seq p) = 256 \<and> length (p_t_ms p) = 256 \<and> length (p_valid p) = 256"

lemma ring_index_int: "int (ring_index head k) = (uint head - 1 - int k) mod 256"
proof -
  have "uint (head - 1 - word_of_nat k) = (uint head - 1 - int k) mod 2 ^ 32"
    by (simp add: uint_word_ariths unsigned_of_nat take_bit_eq_mod zmod_int mod_simps)
  moreover have "uint (w mod 256) = uint w mod 256" for w :: u32
    by (simp add: uint_mod)
  ultimately show ?thesis
    by (simp add: ring_index_def CI_RTT_RING_def mod_mod_cancel flip: uint_nat)
qed

lemma ring_index_less [simp]: "ring_index head k < 256"
proof -
  have "int (ring_index head k) < 256" unfolding ring_index_int by simp
  then show ?thesis by simp
qed

lemma ring_index_inj:
  assumes "ring_index head j = ring_index head k" and "j < 256" and "k < 256"
  shows "j = k"
proof -
  have "(uint head - 1 - int j) mod 256 = (uint head - 1 - int k) mod 256"
    using assms(1) ring_index_int by metis
  then have "256 dvd (int k - int j)" by (simp add: mod_eq_dvd_iff)
  then have "int k - int j = 0"
    using assms(2,3) dvd_imp_le_int [of "int k - int j" 256] by fastforce
  then show ?thesis by simp
qed

lemma ring_index_shift:
  "ring_index (head + 1) 0 = unat (head mod word_of_nat CI_RTT_RING)"
  "ring_index (head + 1) (Suc k) = ring_index head k"
  "unat (head mod word_of_nat CI_RTT_RING) = ring_index head 255"
proof -
  show "ring_index (head + 1) 0 = unat (head mod word_of_nat CI_RTT_RING)"
    "ring_index (head + 1) (Suc k) = ring_index head k"
    by (simp_all add: ring_index_def diff_diff_eq)
  have "int (unat (head mod word_of_nat CI_RTT_RING)) = uint head mod 256"
    by (simp add: CI_RTT_RING_def unat_mod zmod_int)
  also have "\<dots> = (uint head - 1 - int 255) mod 256"
    by (simp add: mod_eq_dvd_iff)
  finally have "int (unat (head mod word_of_nat CI_RTT_RING)) = int (ring_index head 255)"
    using ring_index_int [of head 255] by (simp only:)
  then show "unat (head mod word_of_nat CI_RTT_RING) = ring_index head 255"
    by (simp only: of_nat_eq_iff)
qed

section \<open>The ring implements the list\<close>

lemma rtt_wf_init: "rtt_wf ci_rtt_init" "rtt_abs ci_rtt_init = replicate 256 None"
  by (simp_all add: rtt_wf_def ci_rtt_init_def CI_RTT_RING_def rtt_abs_def rtt_slot_def
      map_replicate_trivial list_eq_iff_nth_eq)

lemma rtt_abs_nth: "k < 256 \<Longrightarrow> rtt_abs p ! k = rtt_slot p (ring_index (p_head p) k)"
  by (simp add: rtt_abs_def)

lemma length_rtt_abs [simp]: "length (rtt_abs p) = 256"
  by (simp add: rtt_abs_def)

lemma rtt_on_data_refines:
  assumes "rtt_wf p"
  shows "rtt_wf (ci_rtt_on_data_body seq t p)"
    and "rtt_abs (ci_rtt_on_data_body seq t p) = view_data seq t (rtt_abs p)"
proof -
  let ?p = "ci_rtt_on_data_body seq t p" and ?i = "ring_index (p_head p) 255"
  have p: "?p = p\<lparr>p_seq := (p_seq p)[?i := seq], p_t_ms := (p_t_ms p)[?i := t],
      p_valid := (p_valid p)[?i := True], p_head := p_head p + 1\<rparr>"
    by (simp only: ci_rtt_on_data_body_def ring_index_shift Let_def)
  show "rtt_wf ?p" using assms by (simp add: p rtt_wf_def)
  have slot: "rtt_slot ?p i = (if i = ?i then Some (seq, t) else rtt_slot p i)" if "i < 256" for i
    using assms that by (auto simp: p rtt_slot_def rtt_wf_def nth_list_update)
  have head: "p_head ?p = p_head p + 1" by (simp add: p)
  show "rtt_abs ?p = view_data seq t (rtt_abs p)"
  proof (rule nth_equalityI)
    fix k assume "k < length (rtt_abs ?p)"
    then have k: "k < 256" by simp
    show "rtt_abs ?p ! k = view_data seq t (rtt_abs p) ! k"
    proof (cases k)
      case 0
      then show ?thesis by (simp add: rtt_abs_nth slot head ring_index_shift view_data_def)
    next
      case (Suc j)
      then have "ring_index (p_head p) j \<noteq> ?i" using ring_index_inj [of "p_head p" j 255] k by auto
      then show ?thesis
        using k Suc by (simp add: rtt_abs_nth slot head ring_index_shift view_data_def)
    qed
  qed (simp add: view_data_def)
qed

text \<open>The loop from counter \<open>k\<close> works on the rest of the list from position \<open>k\<close>.\<close>

lemma rtt_search_refines:
  assumes "rtt_wf p" and "k \<le> 256" and "rtt_search a t k p = (r, p')"
  shows "rtt_wf p' \<and> r = map_option (\<lambda>t0. t - t0) (fst (view_ack a (drop k (rtt_abs p)))) \<and>
    rtt_abs p' = take k (rtt_abs p) @ snd (view_ack a (drop k (rtt_abs p)))"
  using assms(2,3)
proof (induction "256 - k" arbitrary: k)
  case 0
  then have "k = 256" by simp
  with 0 show ?case using assms(1) by (simp add: rtt_search.simps [of a t 256 p] CI_RTT_RING_def)
next
  case (Suc n)
  then have k: "k < 256" by simp
  let ?i = "ring_index (p_head p) k"
  have d: "drop k (rtt_abs p) = rtt_slot p ?i # drop (Suc k) (rtt_abs p)"
    using k by (metis Cons_nth_drop_Suc length_rtt_abs rtt_abs_nth)
  have tk: "take (Suc k) (rtt_abs p) = take k (rtt_abs p) @ [rtt_slot p ?i]"
    using k by (metis length_rtt_abs rtt_abs_nth take_Suc_conv_app_nth)
  show ?case
  proof (cases "p_valid p ! ?i \<and> p_seq p ! ?i = a")
    case True
    then have r: "r = Some (t - p_t_ms p ! ?i)" "p' = p\<lparr>p_valid := (p_valid p)[?i := False]\<rparr>"
      using Suc.prems(2) k by (auto simp: rtt_search.simps [of a t k p] CI_RTT_RING_def Let_def)
    have "rtt_abs p' = (rtt_abs p)[k := None]"
      using assms(1) ring_index_inj [of "p_head p" _ k] k
      by (intro nth_equalityI)
        (auto simp: r rtt_abs_nth rtt_slot_def rtt_wf_def nth_list_update)
    moreover have "rtt_wf p'" using assms(1) by (simp add: r rtt_wf_def)
    moreover have "(rtt_abs p)[k := None] = take k (rtt_abs p) @ None # drop (Suc k) (rtt_abs p)"
      using k by (simp add: upd_conv_take_nth_drop)
    ultimately show ?thesis
      using True d by (simp add: r(1) rtt_slot_def)
  next
    case False
    then have "rtt_search a t (Suc k) p = (r, p')"
      using Suc.prems(2) k by (auto simp: rtt_search.simps [of a t k p] CI_RTT_RING_def Let_def)
    then have IH: "rtt_wf p'" "r = map_option (\<lambda>t0. t - t0) (fst (view_ack a (drop (Suc k) (rtt_abs p))))"
      "rtt_abs p' = take (Suc k) (rtt_abs p) @ snd (view_ack a (drop (Suc k) (rtt_abs p)))"
      using Suc.hyps(1) [of "Suc k"] Suc.hyps(2) k by auto
    then show ?thesis using False by (auto simp: d tk rtt_slot_def)
  qed
qed

text \<open>Streams of data packets and acknowledgements at the tap.\<close>

datatype rtt_event = Data u16 u32 | Ack u16 u32

fun rtt_step :: "ci_rtt_pairing option \<Rightarrow> rtt_event \<Rightarrow> ci_rtt_pairing option" where
  "rtt_step pp (Data s t) = ci_rtt_on_data pp s t"
| "rtt_step pp (Ack a t) = snd (ci_rtt_on_ack pp a t)"

definition rtt_run :: "ci_rtt_pairing option \<Rightarrow> rtt_event list \<Rightarrow> ci_rtt_pairing option" where
  "rtt_run = foldl rtt_step"

fun names_seq :: "u16 \<Rightarrow> rtt_event \<Rightarrow> bool" where
  "names_seq q (Data s t) = (s = q)"
| "names_seq q (Ack a t) = (a = q)"

fun is_data :: "rtt_event \<Rightarrow> bool" where
  "is_data (Data s t) = True"
| "is_data (Ack a t) = False"

lemma rtt_run_wf:
  "rtt_wf p \<Longrightarrow> \<exists>p'. rtt_run (Some p) es = Some p' \<and> rtt_wf p'"
proof (induction es arbitrary: p)
  case (Cons e es)
  have "\<exists>p'. rtt_step (Some p) e = Some p' \<and> rtt_wf p'"
    using Cons.prems rtt_search_refines [of p 0]
    by (cases e) (auto simp: ci_rtt_on_data_def ci_rtt_on_ack_def rtt_on_data_refines prod_eq_iff)
  then show ?case using Cons.IH by (auto simp: rtt_run_def)
qed (simp add: rtt_run_def)

text \<open>The newest entry of a sequence number sits at position \<open>j\<close>.\<close>

definition newest :: "u16 \<Rightarrow> u32 \<Rightarrow> nat \<Rightarrow> rtt_view \<Rightarrow> bool" where
  "newest q t j v \<longleftrightarrow> j < length v \<and> v ! j = Some (q, t) \<and> (\<forall>i < j. \<forall>u. v ! i \<noteq> Some (q, u))"

lemma newest_Cons:
  "newest q t j (x # v) \<longleftrightarrow>
     (case j of 0 \<Rightarrow> x = Some (q, t) | Suc i \<Rightarrow> (\<forall>u. x \<noteq> Some (q, u)) \<and> newest q t i v)"
  by (cases j) (auto simp: newest_def nth_Cons all_conj_distrib less_Suc_eq_0_disj split: nat.splits)

lemma newest_found: "newest q t j v \<Longrightarrow> fst (view_ack q v) = Some t"
  by (induction q v arbitrary: j rule: view_ack.induct)
    (auto simp: newest_Cons newest_def [of _ _ _ "[]"] split: nat.splits if_splits)

lemma newest_ack: "newest q t j v \<Longrightarrow> a \<noteq> q \<Longrightarrow> newest q t j (snd (view_ack a v))"
  by (induction a v arbitrary: j rule: view_ack.induct)
    (auto simp: newest_Cons split: nat.splits if_splits)

lemma newest_data:
  assumes "newest q t j v" and "s \<noteq> q" and "j < 255"
  shows "newest q t (Suc j) (view_data s u v)"
proof -
  have "newest q t j (take 255 v)" using assms(1,3) by (simp add: newest_def)
  then show ?thesis using assms(2) by (simp add: view_data_def newest_Cons)
qed

lemma rtt_run_newest:
  assumes "rtt_wf p" and "newest q t j (rtt_abs p)" and "j + length (filter is_data es) \<le> 255"
    and "\<forall>e \<in> set es. \<not> names_seq q e" and "rtt_run (Some p) es = Some p'"
  shows "\<exists>j. newest q t j (rtt_abs p')"
  using assms
proof (induction es arbitrary: p j)
  case Nil
  then show ?case by (auto simp: rtt_run_def)
next
  case (Cons e es)
  show ?case
  proof (cases e)
    case (Data s u)
    let ?p = "ci_rtt_on_data_body s u p"
    have "newest q t (Suc j) (rtt_abs ?p)"
      using Cons.prems Data by (auto simp: rtt_on_data_refines intro!: newest_data)
    then show ?thesis
      using Cons.IH [of ?p "Suc j"] Cons.prems Data
      by (simp add: rtt_run_def ci_rtt_on_data_def rtt_on_data_refines)
  next
    case (Ack a u)
    let ?p = "snd (rtt_search a u 0 p)"
    have "rtt_wf ?p" "rtt_abs ?p = snd (view_ack a (rtt_abs p))"
      using rtt_search_refines [OF Cons.prems(1), of 0 a u] by (simp_all add: prod_eq_iff)
    then show ?thesis
      using Cons.IH [of ?p j] Cons.prems Ack
      by (simp add: rtt_run_def ci_rtt_on_ack_def newest_ack)
  qed
qed

section \<open>Properties\<close>

text \<open>
  Property C35. The RTT ring is a list of the last 256 data packets, newest first: recording a data
  packet puts it in front and forgets the oldest, and an acknowledgement consumes the newest entry
  that carries its number and reports the elapsed time, or reports nothing. This holds for any
  position of the 32-bit write cursor, so its wrap is harmless.
\<close>

theorem rtt_ring_refines:
  assumes "rtt_wf p"
  shows "(\<exists>p'. ci_rtt_on_data (Some p) seq t = Some p' \<and> rtt_wf p' \<and>
      rtt_abs p' = view_data seq t (rtt_abs p)) \<and>
    (\<exists>p'. ci_rtt_on_ack (Some p) a t =
        (map_option (\<lambda>t0. t - t0) (fst (view_ack a (rtt_abs p))), Some p') \<and> rtt_wf p' \<and>
      rtt_abs p' = snd (view_ack a (rtt_abs p)))"
  using rtt_on_data_refines [OF assms, of seq t] rtt_search_refines [OF assms, of 0 a t]
  by (simp add: ci_rtt_on_data_def ci_rtt_on_ack_def prod_eq_iff)

theorem rtt_ring_refines_witness:
  "\<exists>p'. ci_rtt_on_data (Some ci_rtt_init) 7 100 = Some p' \<and> rtt_wf p' \<and>
    rtt_abs p' = Some (7, 100) # replicate 255 None"
  using rtt_ring_refines [OF rtt_wf_init(1), of 7 100] by (simp add: rtt_wf_init view_data_def)

text \<open>
  A data packet and the acknowledgement that names it are paired: if at most 255 other
  data packets and any number of other acknowledgements pass in between, none with its sequence
  number, the acknowledgement is matched and the reported interval is the difference of the two
  times (modulo the 32-bit millisecond clock).
\<close>

theorem rtt_pairs_data_with_ack:
  assumes "rtt_wf p" and "length (filter is_data es) \<le> 255" and "\<forall>e \<in> set es. \<not> names_seq q e"
  shows "fst (ci_rtt_on_ack (rtt_run (ci_rtt_on_data (Some p) q t0) es) q t1) = Some (t1 - t0)"
proof -
  let ?p = "ci_rtt_on_data_body q t0 p"
  have wf: "rtt_wf ?p" using assms(1) by (rule rtt_on_data_refines)
  obtain p' where p': "rtt_run (Some ?p) es = Some p'" "rtt_wf p'" using rtt_run_wf [OF wf] by blast
  have "newest q t0 0 (rtt_abs ?p)"
    using assms(1) by (simp add: rtt_on_data_refines view_data_def newest_Cons)
  then obtain j where "newest q t0 j (rtt_abs p')"
    using rtt_run_newest [OF wf _ _ assms(3) p'(1), of t0 0] assms(2) by auto
  then show ?thesis
    using rtt_search_refines [OF p'(2), of 0 q t1] p'(1)
    by (simp add: ci_rtt_on_data_def ci_rtt_on_ack_def prod_eq_iff newest_found)
qed

theorem rtt_pairs_data_with_ack_witness:
  "fst (ci_rtt_on_ack (rtt_run (ci_rtt_on_data (Some ci_rtt_init) 5 100) [Data 6 110, Ack 4 111]) 5 130)
    = Some 30"
  using rtt_pairs_data_with_ack [OF rtt_wf_init(1), of "[Data 6 110, Ack 4 111]" 5 100 130] by simp

text \<open>
  Instrument loss is never reported without cause, and it is missed only in the one
  case the 8-bit counters cannot show. When the overflow counter advanced by \<open>m\<close> and the
  buffer-exhaustion counter by \<open>n\<close> events over the window, the window is suspect if and only if
  \<open>m\<close> or \<open>n\<close> is not a multiple of 256 or the pool is below its low-water mark, and each flag bit
  names its own cause.
\<close>

theorem suspect_iff_instrument_loss:
  "ci_measurement_suspect (Some
     \<lparr>w_conn_ovf_delta = ci_u8_delta c0 (c0 + word_of_nat m),
      w_buffer_out_delta = ci_u8_delta b0 (b0 + word_of_nat n),
      w_buffer_remaining = rem, w_buffer_low_water = low\<rparr>) =
   (let ovf = (m mod 256 \<noteq> 0); out = (n mod 256 \<noteq> 0); lo = (rem < low)
    in (ovf \<or> out \<or> lo, of_bool ovf + 2 * of_bool out + 4 * of_bool lo))"
proof -
  have z: "(word_of_nat k :: u8) > 0 \<longleftrightarrow> k mod 256 \<noteq> 0" for k
    by (simp add: word_gt_0 word_of_nat_eq_0_iff dvd_eq_mod_eq_0)
  show ?thesis
    by (auto simp: ci_measurement_suspect_def ci_u8_delta_def z const_defs Let_def)
qed

end
