(* ===== verification/CI_Sha256.thy ===== *)
theory CI_Sha256
  imports CI_Prelude
begin

text \<open>
  The SHA-256 implementation of \<open>src/lib/ci_sha256.c\<close>: the compression function, the streaming
  context (\<open>init\<close>, \<open>update\<close>, \<open>final\<close>) with its 64-byte buffer, and the hash of a whole file. The
  lemmas show that the streaming interface computes the FIPS 180-4 definition: pad the message, cut
  it into 64-byte blocks and fold the compression function over them.
\<close>

section \<open>The compression function\<close>

text \<open>The table, row by row as the source lays it out.\<close>

definition K :: "u32 list" where
  "K = concat [
    [0x428a2f98, 0x71374491, 0xb5c0fbcf, 0xe9b5dba5, 0x3956c25b, 0x59f111f1],
    [0x923f82a4, 0xab1c5ed5, 0xd807aa98, 0x12835b01, 0x243185be, 0x550c7dc3],
    [0x72be5d74, 0x80deb1fe, 0x9bdc06a7, 0xc19bf174, 0xe49b69c1, 0xefbe4786],
    [0x0fc19dc6, 0x240ca1cc, 0x2de92c6f, 0x4a7484aa, 0x5cb0a9dc, 0x76f988da],
    [0x983e5152, 0xa831c66d, 0xb00327c8, 0xbf597fc7, 0xc6e00bf3, 0xd5a79147],
    [0x06ca6351, 0x14292967, 0x27b70a85, 0x2e1b2138, 0x4d2c6dfc, 0x53380d13],
    [0x650a7354, 0x766a0abb, 0x81c2c92e, 0x92722c85, 0xa2bfe8a1, 0xa81a664b],
    [0xc24b8b70, 0xc76c51a3, 0xd192e819, 0xd6990624, 0xf40e3585, 0x106aa070],
    [0x19a4c116, 0x1e376c08, 0x2748774c, 0x34b0bcb5, 0x391c0cb3, 0x4ed8aa4a],
    [0x5b9cca4f, 0x682e6ff3, 0x748f82ee, 0x78a5636f, 0x84c87814, 0x8cc70208],
    [0x90befffa, 0xa4506ceb, 0xbef9a3f7, 0xc67178f2]]"

definition ROTR :: "u32 \<Rightarrow> nat \<Rightarrow> u32" where
  "ROTR x n = drop_bit n x OR push_bit (32 - n) x"

definition CH :: "u32 \<Rightarrow> u32 \<Rightarrow> u32 \<Rightarrow> u32" where
  "CH x y z = (x AND y) XOR (NOT x AND z)"

definition MAJ :: "u32 \<Rightarrow> u32 \<Rightarrow> u32 \<Rightarrow> u32" where
  "MAJ x y z = (x AND y) XOR (x AND z) XOR (y AND z)"

definition EP0 :: "u32 \<Rightarrow> u32" where "EP0 x = ROTR x 2 XOR ROTR x 13 XOR ROTR x 22"
definition EP1 :: "u32 \<Rightarrow> u32" where "EP1 x = ROTR x 6 XOR ROTR x 11 XOR ROTR x 25"
definition SIG0 :: "u32 \<Rightarrow> u32" where "SIG0 x = ROTR x 7 XOR ROTR x 18 XOR drop_bit 3 x"
definition SIG1 :: "u32 \<Rightarrow> u32" where "SIG1 x = ROTR x 17 XOR ROTR x 19 XOR drop_bit 10 x"

record ci_sha256 =
  c_state :: "u32 list"
  c_bitlen :: u64
  c_buf :: bytes
  c_buflen :: nat

text \<open>The message schedule: 16 big-endian words of the block, then 48 computed ones.\<close>

definition sha_schedule :: "bytes \<Rightarrow> u32 list" where
  "sha_schedule p =
     foldl (\<lambda>m i. m @ [SIG1 (m ! (i - 2)) + m ! (i - 7) + SIG0 (m ! (i - 15)) + m ! (i - 16)])
       (map (\<lambda>i. be32 (p ! (i * 4)) (p ! (i * 4 + 1)) (p ! (i * 4 + 2)) (p ! (i * 4 + 3))) [0..<16])
       [16..<64]"

type_synonym sha_vars = "u32 \<times> u32 \<times> u32 \<times> u32 \<times> u32 \<times> u32 \<times> u32 \<times> u32"

fun sha_round :: "sha_vars \<Rightarrow> u32 \<times> u32 \<Rightarrow> sha_vars" where
  "sha_round (a, b, cc, d, e, f, g, h) (k, m) =
     (let t1 = h + EP1 e + CH e f g + k + m;
          t2 = EP0 a + MAJ a b cc
      in (t1 + t2, a, b, cc, d + t1, e, f, g))"

fun sha_add :: "u32 list \<Rightarrow> sha_vars \<Rightarrow> u32 list" where
  "sha_add s (a, b, cc, d, e, f, g, h) =
     [s ! 0 + a, s ! 1 + b, s ! 2 + cc, s ! 3 + d, s ! 4 + e, s ! 5 + f, s ! 6 + g, s ! 7 + h]"

definition sha_compress :: "u32 list \<Rightarrow> bytes \<Rightarrow> u32 list" where
  "sha_compress s p =
     sha_add s (foldl sha_round (s ! 0, s ! 1, s ! 2, s ! 3, s ! 4, s ! 5, s ! 6, s ! 7)
       (zip K (sha_schedule p)))"

definition ci_sha256_transform :: "ci_sha256 \<Rightarrow> bytes \<Rightarrow> ci_sha256" where
  "ci_sha256_transform c p = c\<lparr>c_state := sha_compress (c_state c) p\<rparr>"

section \<open>The streaming context\<close>

definition sha_iv :: "u32 list" where
  "sha_iv = [0x6a09e667, 0xbb67ae85, 0x3c6ef372, 0xa54ff53a,
             0x510e527f, 0x9b05688c, 0x1f83d9ab, 0x5be0cd19]"

text \<open>The buffer of the context keeps whatever bytes it had.\<close>

definition ci_sha256_init :: "ci_sha256 \<Rightarrow> ci_sha256" where
  "ci_sha256_init c = c\<lparr>c_state := sha_iv, c_bitlen := 0, c_buflen := 0\<rparr>"

definition ci_sha256_update_byte :: "ci_sha256 \<Rightarrow> u8 \<Rightarrow> ci_sha256" where
  "ci_sha256_update_byte c b =
     (let c = c\<lparr>c_buf := (c_buf c)[c_buflen c := b], c_buflen := c_buflen c + 1\<rparr>
      in if c_buflen c = 64
         then (let c = ci_sha256_transform c (c_buf c)
               in c\<lparr>c_bitlen := c_bitlen c + 512, c_buflen := 0\<rparr>)
         else c)"

definition ci_sha256_update :: "ci_sha256 \<Rightarrow> bytes \<Rightarrow> ci_sha256" where
  "ci_sha256_update c data = foldl ci_sha256_update_byte c data"

text \<open>\<open>while (i < n) buf[i++] = 0;\<close>\<close>

function zero_fill :: "bytes \<Rightarrow> nat \<Rightarrow> nat \<Rightarrow> bytes" where
  "zero_fill buf i n = (if i < n then zero_fill (buf[i := 0]) (i + 1) n else buf)"
  by pat_completeness auto
termination
  by (relation "measure (\<lambda>(buf, i, n). n - i)") auto

declare zero_fill.simps [simp del]

definition put_bitlen :: "bytes \<Rightarrow> nat \<Rightarrow> u64 \<Rightarrow> bytes" where
  "put_bitlen buf i bitlen =
     fst (foldl (\<lambda>(buf, i) j. (buf[i := ucast (drop_bit (j * 8) bitlen)], i + 1)) (buf, i)
       [7, 6, 5, 4, 3, 2, 1, 0])"

definition be_bytes :: "u32 \<Rightarrow> bytes" where
  "be_bytes w = [ucast (drop_bit 24 w), ucast (drop_bit 16 w), ucast (drop_bit 8 w), ucast w]"

definition ci_sha256_final :: "ci_sha256 \<Rightarrow> bytes" where
  "ci_sha256_final c =
     (let c = c\<lparr>c_bitlen := c_bitlen c + word_of_nat (c_buflen c) * 8\<rparr>;
          i = c_buflen c;
          c = c\<lparr>c_buf := (c_buf c)[i := 0x80]\<rparr>;
          i = i + 1;
          (c, i) = (if 56 < i
                    then (let c = c\<lparr>c_buf := zero_fill (c_buf c) i 64\<rparr>
                          in (ci_sha256_transform c (c_buf c), 0))
                    else (c, i));
          c = c\<lparr>c_buf := zero_fill (c_buf c) i 56\<rparr>;
          c = c\<lparr>c_buf := put_bitlen (c_buf c) 56 (c_bitlen c)\<rparr>;
          c = ci_sha256_transform c (c_buf c)
      in concat (map be_bytes (c_state c)))"

text \<open>
  Hashing a file: \<open>None\<close> is a failed \<open>fopen\<close>, otherwise the chunks that \<open>fread\<close> returns before its
  first 0 and whether \<open>ferror\<close> holds then. The context starts with arbitrary stack contents.
\<close>

definition hx :: string where
  "hx = ''0123456789abcdef''"

definition sha_hex :: "bytes \<Rightarrow> string" where
  "sha_hex digest = concat (map (\<lambda>d. [hx ! unat (drop_bit 4 d), hx ! unat (d AND 0x0f)]) digest)"

definition ci_sha256_file :: "ci_sha256 \<Rightarrow> (bytes list \<times> bool) option \<Rightarrow> (string \<times> u64) option" where
  "ci_sha256_file c0 file =
     (case file of None \<Rightarrow> None
      | Some (chunks, err) \<Rightarrow>
          (let (c, total) = foldl (\<lambda>(c, total) buf.
                 (ci_sha256_update c buf, total + word_of_nat (length buf)))
                 (ci_sha256_init c0, 0) chunks
           in if err then None else Some (sha_hex (ci_sha256_final c), total)))"

section \<open>The reference definition\<close>

fun sha_blocks :: "bytes \<Rightarrow> bytes list" where
  "sha_blocks xs = (if length xs < 64 then [] else take 64 xs # sha_blocks (drop 64 xs))"

declare sha_blocks.simps [simp del]

definition be64_bytes :: "u64 \<Rightarrow> bytes" where
  "be64_bytes w = map (\<lambda>j. ucast (drop_bit (j * 8) w)) [7, 6, 5, 4, 3, 2, 1, 0]"

definition sha256_pad :: "bytes \<Rightarrow> bytes" where
  "sha256_pad msg = msg @ [0x80] @ replicate ((119 - length msg mod 64) mod 64) 0
     @ be64_bytes (word_of_nat (8 * length msg))"

definition sha256 :: "bytes \<Rightarrow> bytes" where
  "sha256 msg = concat (map be_bytes (foldl sha_compress sha_iv (sha_blocks (sha256_pad msg))))"

section \<open>Lemmas on blocks and buffers\<close>

lemma sha_blocks_short: "length xs < 64 \<Longrightarrow> sha_blocks xs = []"
  by (subst sha_blocks.simps) simp

lemma sha_blocks_block: "length b = 64 \<Longrightarrow> sha_blocks (b @ xs) = b # sha_blocks xs"
  by (subst sha_blocks.simps) simp

lemma sha_blocks_append:
  "length xs mod 64 = 0 \<Longrightarrow> sha_blocks (xs @ ys) = sha_blocks xs @ sha_blocks ys"
proof (induction xs rule: sha_blocks.induct)
  case (1 xs)
  show ?case
  proof (cases "length xs < 64")
    case True
    then have "xs = []" using "1.prems" by simp
    then show ?thesis by (simp add: sha_blocks_short)
  next
    case False
    then have l: "length (drop 64 xs) mod 64 = 0"
      using "1.prems" by (simp add: le_mod_geq)
    have b: "length (take 64 xs) = 64" using False by simp
    have "sha_blocks (take 64 xs @ drop 64 xs @ ys) = take 64 xs # sha_blocks (drop 64 xs) @ sha_blocks ys"
      using "1.IH" [OF False l] sha_blocks_block [OF b] by simp
    moreover have "sha_blocks xs = take 64 xs # sha_blocks (drop 64 xs)"
      using False by (subst sha_blocks.simps) simp
    ultimately show ?thesis by (metis append.assoc append_Cons append_take_drop_id)
  qed
qed

lemma sha_blocks_take:
  "length xs = 64 * n + r \<Longrightarrow> r < 64 \<Longrightarrow> sha_blocks xs = sha_blocks (take (64 * n) xs)"
  using sha_blocks_append [of "take (64 * n) xs" "drop (64 * n) xs"]
  by (simp add: sha_blocks_short)

lemma sha_blocks_rest:
  assumes "length xs = 64 * n + r" and "r < 64"
  shows "sha_blocks (xs @ ys) = sha_blocks xs @ sha_blocks (drop (64 * n) xs @ ys)"
proof -
  have "sha_blocks (take (64 * n) xs @ (drop (64 * n) xs @ ys)) =
      sha_blocks (take (64 * n) xs) @ sha_blocks (drop (64 * n) xs @ ys)"
    using assms(1) by (intro sha_blocks_append) simp
  then show ?thesis
    unfolding append.assoc [symmetric] append_take_drop_id
    by (simp only: sha_blocks_take [OF assms] append.assoc)
qed

lemma length_zero_fill [simp]: "length (zero_fill buf i n) = length buf"
  by (induction buf i n rule: zero_fill.induct) (simp add: zero_fill.simps)

lemma zero_fill_eq:
  "i \<le> n \<Longrightarrow> n \<le> length buf \<Longrightarrow> zero_fill buf i n = take i buf @ replicate (n - i) 0 @ drop n buf"
proof (induction buf i n rule: zero_fill.induct)
  case (1 buf i n)
  show ?case
  proof (cases "i < n")
    case True
    then have "zero_fill buf i n = take (i + 1) (buf[i := 0]) @ replicate (n - (i + 1)) 0 @ drop n buf"
      using "1.IH" "1.prems" by (subst zero_fill.simps) simp
    moreover have "take (i + 1) (buf[i := 0]) = take i buf @ [0]"
      using True "1.prems" by (simp add: take_Suc_conv_app_nth)
    moreover have "n - i = Suc (n - (i + 1))" using True by simp
    ultimately show ?thesis by simp
  next
    case False
    then show ?thesis using "1.prems" by (subst zero_fill.simps) simp
  qed
qed

lemma list_update_at_end: "length xs = n \<Longrightarrow> (xs @ y # ys)[n := z] = xs @ z # ys"
  by (simp add: list_update_append)

lemma put_bitlen_eq:
  assumes "length xs = i" and "length ys = 8"
  shows "put_bitlen (xs @ ys) i w = xs @ be64_bytes w"
proof -
  obtain a b c d e f g h where "ys = [a, b, c, d, e, f, g, h]"
    using assms(2) by (auto simp: numeral_eq_Suc length_Suc_conv)
  then show ?thesis
    using assms(1) by (simp add: put_bitlen_def be64_bytes_def list_update_append)
qed

section \<open>The streaming context implements the reference\<close>

text \<open>The state of a context that has absorbed the bytes \<open>xs\<close>.\<close>

definition absorbed :: "ci_sha256 \<Rightarrow> bytes \<Rightarrow> bool" where
  "absorbed c xs \<longleftrightarrow>
     c_state c = foldl sha_compress sha_iv (sha_blocks xs) \<and> length (c_buf c) = 64 \<and>
     c_buflen c = length xs mod 64 \<and> take (c_buflen c) (c_buf c) = drop (64 * (length xs div 64)) xs \<and>
     c_bitlen c = word_of_nat (512 * (length xs div 64))"

lemma absorbed_init: "length (c_buf c) = 64 \<Longrightarrow> absorbed (ci_sha256_init c) []"
  by (simp add: absorbed_def ci_sha256_init_def sha_blocks_short)

lemma absorbed_byte:
  assumes "absorbed c xs"
  shows "absorbed (ci_sha256_update_byte c b) (xs @ [b])"
proof -
  define n r where "n = length xs div 64" and "r = length xs mod 64"
  have l: "length xs = 64 * n + r" and r: "r < 64" by (simp_all add: n_def r_def)
  have c: "c_state c = foldl sha_compress sha_iv (sha_blocks xs)" "length (c_buf c) = 64"
    "c_buflen c = r" "take r (c_buf c) = drop (64 * n) xs" "c_bitlen c = word_of_nat (512 * n)"
    using assms by (auto simp: absorbed_def n_def r_def)
  have upd: "take (Suc r) ((c_buf c)[r := b]) = drop (64 * n) xs @ [b]"
    using c(2,4) r by (simp add: take_Suc_conv_app_nth)
  show ?thesis
  proof (cases "r = 63")
    case True
    have full: "(c_buf c)[r := b] = drop (64 * n) xs @ [b]"
      using upd c(2) True by simp
    have "length (drop (64 * n) xs @ [b]) = 64" using l True by simp
    then have "sha_blocks (drop (64 * n) xs @ [b]) = [drop (64 * n) xs @ [b]]"
      using sha_blocks_block [of "drop (64 * n) xs @ [b]" "[]"] by (simp add: sha_blocks_short)
    then have "sha_blocks (xs @ [b]) = sha_blocks xs @ [drop (64 * n) xs @ [b]]"
      using sha_blocks_rest [OF l r] by simp
    moreover have "length (xs @ [b]) div 64 = Suc n" "length (xs @ [b]) mod 64 = 0"
      using l True by simp_all
    ultimately show ?thesis
      using c full True l
      by (simp add: absorbed_def ci_sha256_update_byte_def ci_sha256_transform_def algebra_simps)
  next
    case False
    then have l': "length (xs @ [b]) = 64 * n + Suc r" and r': "Suc r < 64" using l r by simp_all
    then have "length (xs @ [b]) div 64 = n" "length (xs @ [b]) mod 64 = Suc r" by simp_all
    moreover have "sha_blocks (xs @ [b]) = sha_blocks xs"
      using sha_blocks_take [OF l' r'] sha_blocks_take [OF l r] l by simp
    ultimately show ?thesis
      using c upd False l by (simp add: absorbed_def ci_sha256_update_byte_def)
  qed
qed

lemma absorbed_update: "absorbed c xs \<Longrightarrow> absorbed (ci_sha256_update c ys) (xs @ ys)"
proof (induction ys arbitrary: c xs)
  case (Cons y ys)
  from Cons.IH [OF absorbed_byte [OF Cons.prems]] show ?case
    by (simp add: ci_sha256_update_def)
qed (simp add: ci_sha256_update_def)

text \<open>The zero bytes of the padding: up to the end of this block, or of the next one.\<close>

lemma pad_zeros_short: "r + 1 \<le> 56 \<Longrightarrow> (119 - r) mod 64 = (55 - r :: nat)"
  by (simp add: mod_if)

lemma pad_zeros_long:
  assumes "r < 64" and "\<not> r + 1 \<le> 56"
  shows "(119 - r) mod 64 = (64 - Suc r) + (56 :: nat)"
proof -
  have "119 - r < 64" "119 - r = (64 - Suc r) + 56" using assms by linarith+
  then show ?thesis by (metis mod_less)
qed

lemma final_one_block:
  assumes "c_buflen c + 1 \<le> 56"
  shows "ci_sha256_final c = concat (map be_bytes (sha_compress (c_state c)
    (put_bitlen (zero_fill ((c_buf c)[c_buflen c := 0x80]) (Suc (c_buflen c)) 56) 56
      (c_bitlen c + word_of_nat (c_buflen c) * 8))))"
  using assms by (simp add: ci_sha256_final_def ci_sha256_transform_def Let_def)

lemma final_two_blocks:
  assumes "\<not> c_buflen c + 1 \<le> 56"
    and "zero_fill ((c_buf c)[c_buflen c := 0x80]) (Suc (c_buflen c)) 64 = b1"
  shows "ci_sha256_final c = concat (map be_bytes (sha_compress (sha_compress (c_state c) b1)
    (put_bitlen (zero_fill b1 0 56) 56 (c_bitlen c + word_of_nat (c_buflen c) * 8))))"
  using assms by (simp add: ci_sha256_final_def ci_sha256_transform_def Let_def)

lemma second_block:
  assumes "length b1 = 64"
  shows "put_bitlen (zero_fill b1 0 56) 56 w = replicate 56 0 @ be64_bytes w"
proof -
  have "zero_fill b1 0 56 = replicate 56 0 @ drop 56 b1"
    using assms zero_fill_eq [of 0 56 b1] by simp
  then show ?thesis
    using assms by (simp only:) (rule put_bitlen_eq, simp_all)
qed

lemma final_absorbed:
  assumes "absorbed c xs"
  shows "ci_sha256_final c = sha256 xs"
proof -
  define n r where "n = length xs div 64" and "r = length xs mod 64"
  have l: "length xs = 64 * n + r" and r: "r < 64" by (simp_all add: n_def r_def)
  have c: "c_state c = foldl sha_compress sha_iv (sha_blocks xs)" "length (c_buf c) = 64"
    "c_buflen c = r" "take r (c_buf c) = drop (64 * n) xs" "c_bitlen c = word_of_nat (512 * n)"
    using assms by (auto simp: absorbed_def n_def r_def)
  let ?rest = "drop (64 * n) xs" and ?len = "word_of_nat (8 * length xs) :: u64"
  have len: "word_of_nat (512 * n) + word_of_nat r * 8 = ?len"
    by (simp add: l algebra_simps)
  have b80: "take (Suc r) ((c_buf c)[r := 0x80]) = ?rest @ [0x80]"
    using c(2,4) r by (simp add: take_Suc_conv_app_nth)
  have pre: "sha_blocks (xs @ ys) = sha_blocks xs @ sha_blocks (?rest @ ys)" for ys
    by (rule sha_blocks_rest [OF l r])
  have lr: "length ?rest = r" using l by simp
  show ?thesis
  proof (cases "r + 1 \<le> 56")
    case True
    let ?z = "replicate (55 - r) 0 :: bytes"
    let ?b = "?rest @ 0x80 # ?z @ be64_bytes ?len"
    have "zero_fill ((c_buf c)[r := 0x80]) (Suc r) 56 = (?rest @ 0x80 # ?z) @ drop 56 (c_buf c)"
      using True b80 c(2) by (subst zero_fill_eq) simp_all
    moreover have "put_bitlen ((?rest @ 0x80 # ?z) @ drop 56 (c_buf c)) 56 ?len = (?rest @ 0x80 # ?z) @ be64_bytes ?len"
      using True c(2) lr by (intro put_bitlen_eq) simp_all
    ultimately have buf: "put_bitlen (zero_fill ((c_buf c)[r := 0x80]) (Suc r) 56) 56 ?len = ?b"
      by simp
    have "length ?b = 64" using True lr by (simp add: be64_bytes_def)
    then have "sha_blocks ?b = [?b]"
      using sha_blocks_block [of ?b "[]"] by (simp add: sha_blocks_short)
    moreover have "(119 - length xs mod 64) mod 64 = 55 - r"
      unfolding r_def [symmetric] by (rule pad_zeros_short [OF True])
    then have "sha256_pad xs = xs @ (0x80 # ?z @ be64_bytes ?len)"
      unfolding sha256_pad_def by simp
    ultimately have "sha_blocks (sha256_pad xs) = sha_blocks xs @ [?b]"
      by (simp only: pre)
    then have "sha256 xs = concat (map be_bytes (sha_compress (c_state c) ?b))"
      by (simp only: sha256_def foldl_append foldl.simps c(1))
    then show ?thesis
      using final_one_block [of c] True by (simp only: c(3,5) len buf)
  next
    case False
    let ?z = "replicate (64 - Suc r) 0 :: bytes" and ?z' = "replicate 56 0 :: bytes"
    let ?b1 = "?rest @ 0x80 # ?z" and ?b2 = "?z' @ be64_bytes ?len"
    have b1: "zero_fill ((c_buf c)[r := 0x80]) (Suc r) 64 = ?b1"
      using False r b80 c(2) by (subst zero_fill_eq) simp_all
    have l1: "length ?b1 = 64" using r lr by simp
    have buf: "put_bitlen (zero_fill ?b1 0 56) 56 ?len = ?b2"
      by (rule second_block [OF l1])
    have l2: "length ?b2 = 64" by (simp add: be64_bytes_def)
    have "sha_blocks (?b1 @ ?b2) = [?b1, ?b2]"
      using sha_blocks_block [OF l1, of ?b2] sha_blocks_block [OF l2, of "[]"] sha_blocks_short [of "[]"]
      by (simp only: append_Nil2 list.size)
    then have blk: "sha_blocks (?rest @ (0x80 # ?z @ ?b2)) = [?b1, ?b2]"
      by (simp only: append.assoc append_Cons)
    have "(119 - length xs mod 64) mod 64 = (64 - Suc r) + 56"
      unfolding r_def [symmetric] by (rule pad_zeros_long [OF r False])
    then have pad: "sha256_pad xs = xs @ (0x80 # ?z @ ?b2)"
      unfolding sha256_pad_def by (simp only: replicate_add append.assoc append_Cons append_Nil)
    have "sha_blocks (sha256_pad xs) = sha_blocks xs @ [?b1, ?b2]"
      unfolding pad pre [of "0x80 # ?z @ ?b2"] blk ..
    then have "sha256 xs = concat (map be_bytes (sha_compress (sha_compress (c_state c) ?b1) ?b2))"
      by (simp only: sha256_def foldl_append foldl.simps c(1))
    then show ?thesis
      using final_two_blocks [of c ?b1] False b1 by (simp only: c(3,5) len buf simp_thms)
  qed
qed

lemma update_file_chunks:
  "absorbed c xs \<Longrightarrow> \<exists>c'. absorbed c' (xs @ concat chunks) \<and>
     foldl (\<lambda>(c, total) buf. (ci_sha256_update c buf, total + word_of_nat (length buf))) (c, t) chunks
       = (c', t + word_of_nat (length (concat chunks)))"
proof (induction chunks arbitrary: c xs t)
  case (Cons b chunks)
  from Cons.IH [OF absorbed_update [OF Cons.prems, of b], of "t + word_of_nat (length b)"]
  show ?case by (simp add: add.assoc)
qed auto

lemma length_sha_compress [simp]: "length (sha_compress s p) = 8"
proof -
  obtain a b cc d e f g h where
    "foldl sha_round (s ! 0, s ! 1, s ! 2, s ! 3, s ! 4, s ! 5, s ! 6, s ! 7) (zip K (sha_schedule p))
      = (a, b, cc, d, e, f, g, h)" by (metis surj_pair)
  then show ?thesis by (simp add: sha_compress_def)
qed

lemma length_sha256 [simp]: "length (sha256 xs) = 32"
proof -
  have "length (foldl sha_compress s bs) = 8" if "length s = 8" for s bs
    using that by (induction bs arbitrary: s) simp_all
  then have "length (foldl sha_compress sha_iv bs) = 8" for bs
    by (simp add: sha_iv_def)
  moreover have "length (concat (map be_bytes ws)) = 4 * length ws" for ws
    by (induction ws) (simp_all add: be_bytes_def)
  ultimately show ?thesis by (simp add: sha256_def)
qed

section \<open>The hex form of a digest\<close>

lemma distinct_hx: "distinct hx" and length_hx: "length hx = 16"
  by (simp_all add: hx_def)

lemma nibble_bounds: "unat (drop_bit 4 (d :: u8)) < 16" "unat (d AND 0x0f) < 16"
proof -
  have "unat d < 256" by simp
  then have "unat d div 16 < 16" by linarith
  then show "unat (drop_bit 4 d) < 16" by (simp add: drop_bit_eq_div unat_div)
  have "unat (d AND 0x0f) \<le> unat (0x0f :: u8)"
    by (rule word_and_le1 [THEN word_le_nat_alt [THEN iffD1]])
  then show "unat (d AND 0x0f) < 16" by simp
qed

lemma nibbles_determine:
  assumes "drop_bit 4 x = drop_bit 4 y" and "x AND 0x0f = y AND (0x0f :: u8)"
  shows "x = y"
proof -
  have "x = push_bit 4 (drop_bit 4 x) OR (x AND 0x0f)" for x :: u8
  proof (rule bit_word_eqI)
    fix n assume "n < LENGTH(8)"
    then have "n \<in> {0, 1, 2, 3, 4, 5, 6, 7}" by auto
    then show "bit x n = bit (push_bit 4 (drop_bit 4 x) OR (x AND 0x0f)) n"
      by (auto simp: bit_push_bit_iff bit_drop_bit_eq bit_or_iff bit_and_iff bit_numeral_rec)
  qed
  with assms show ?thesis by metis
qed

lemma sha_hex_Cons:
  "sha_hex (d # ds) = hx ! unat (drop_bit 4 d) # hx ! unat (d AND 0x0f) # sha_hex ds"
  by (simp add: sha_hex_def)

lemma hx_eq_iff: "i < 16 \<Longrightarrow> j < 16 \<Longrightarrow> hx ! i = hx ! j \<longleftrightarrow> i = j"
  using distinct_hx by (simp add: nth_eq_iff_index_eq length_hx)

lemma sha_hex_inj: "sha_hex xs = sha_hex ys \<longleftrightarrow> xs = ys"
proof (induction xs arbitrary: ys)
  case Nil
  then show ?case by (cases ys) (simp_all add: sha_hex_Cons sha_hex_def)
next
  case (Cons x xs)
  show ?case
  proof (cases ys)
    case Nil
    then show ?thesis by (simp add: sha_hex_Cons sha_hex_def)
  next
    case (Cons y ys')
    then show ?thesis
      using Cons.IH [of ys'] nibbles_determine [of x y]
      by (auto simp: sha_hex_Cons hx_eq_iff nibble_bounds dest: word_unat_eq_iff [THEN iffD2])
  qed
qed

section \<open>Properties\<close>

text \<open>
  Property C28. The streaming interface computes SHA-256: for every message, every way of cutting it
  into \<open>update\<close> calls and whatever the buffer of the context held before, \<open>init\<close>, the updates and
  \<open>final\<close> return the digest that FIPS 180-4 defines: pad the message, cut it into 64-byte blocks
  and fold the compression function over them from the initial value.
\<close>

theorem sha256_streaming:
  assumes "length (c_buf c) = 64"
  shows "ci_sha256_final (foldl ci_sha256_update (ci_sha256_init c) chunks) = sha256 (concat chunks)"
proof -
  have "absorbed (foldl ci_sha256_update c' cs) (xs @ concat cs)" if "absorbed c' xs" for c' xs cs
    using that
  proof (induction cs arbitrary: c' xs)
    case (Cons d cs)
    from Cons.IH [OF absorbed_update [OF Cons.prems, of d]] show ?case by simp
  qed simp
  from this [OF absorbed_init [OF assms]] show ?thesis by (simp add: final_absorbed)
qed

theorem sha256_streaming_witness:
  "ci_sha256_final (foldl ci_sha256_update
     (ci_sha256_init \<lparr>c_state = [], c_bitlen = 3, c_buf = replicate 64 9, c_buflen = 5\<rparr>)
     [[0x61], [], [0x62, 0x63]]) = sha256 [0x61, 0x62, 0x63]"
  by (subst sha256_streaming) simp_all

text \<open>
  The file hash reports the digest of the file's bytes: it fails exactly when the file
  cannot be opened or the read ends in an error, and otherwise its 64 characters are the lowercase
  hex of the SHA-256 of the concatenated reads and its count is their total length; two files get
  the same string exactly when their digests are equal.
\<close>

lemma sha256_file_result:
  assumes "length (c_buf c) = 64"
  shows "ci_sha256_file c file =
      (case file of None \<Rightarrow> None | Some (chunks, err) \<Rightarrow>
         if err then None
         else Some (sha_hex (sha256 (concat chunks)), word_of_nat (length (concat chunks))))
    \<and> (sha_hex (sha256 xs) = sha_hex (sha256 ys) \<longleftrightarrow> sha256 xs = sha256 ys)
    \<and> length (sha_hex (sha256 xs)) = 64"
proof -
  have len: "length (sha_hex ds) = 2 * length ds" for ds
    by (induction ds) (simp_all add: sha_hex_def)
  show ?thesis
  proof (cases "file")
    case (Some f)
    obtain chunks err where f: "f = (chunks, err)" by fastforce
    obtain c' where c': "absorbed c' (concat chunks)"
      "foldl (\<lambda>(c, total) buf. (ci_sha256_update c buf, total + word_of_nat (length buf)))
         (ci_sha256_init c, 0 :: u64) chunks = (c', word_of_nat (length (concat chunks)))"
      using update_file_chunks [OF absorbed_init [OF assms], of chunks 0] by auto
    then show ?thesis
      unfolding ci_sha256_file_def Some f option.case prod.case Let_def c'(2)
      by (simp add: final_absorbed sha_hex_inj len)
  qed (simp add: ci_sha256_file_def sha_hex_inj len)
qed

lemma sha_hex_chars: "set (sha_hex ds) \<subseteq> set hx"
proof -
  have "unat (drop_bit 4 d) < length hx" "unat (d AND 0x0f) < length hx" for d :: u8
  proof -
    have l: "length hx = 16" by (simp add: hx_def)
    have "unat d < 256" by simp
    then have "unat d div 16 < 16" by linarith
    then show "unat (drop_bit 4 d) < length hx" unfolding l by (simp add: drop_bit_eq_div unat_div)
    have "d AND 0x0f = take_bit 4 d" by (simp add: take_bit_eq_mask mask_numeral)
    then show "unat (d AND 0x0f) < length hx" unfolding l by (simp add: take_bit_eq_mod unat_mod)
  qed
  then show ?thesis by (auto simp: sha_hex_def)
qed

end
