(* ===== verification/CI_Sha256_Vectors.thy ===== *)
theory CI_Sha256_Vectors
  imports CI_Sha256
begin

text \<open>
  A known answer for the SHA-256 model, evaluated by the simplifier in the kernel: the digest of
  \<open>abc\<close> that \<open>src/tests/test_lib.c\<close> checks the implementation against. It ties the round constants,
  the initial value and the rotation amounts of the model to the published function. The 64 rounds
  are evaluated in four groups of 16.
\<close>

definition abc_block :: bytes where
  "abc_block = [0x61, 0x62, 0x63, 0x80] @ replicate 59 0 @ [24]"

definition abc_schedule :: "u32 list" where
  "abc_schedule = [
    0x61626380, 0x00000000, 0x00000000, 0x00000000, 0x00000000, 0x00000000,
    0x00000000, 0x00000000, 0x00000000, 0x00000000, 0x00000000, 0x00000000,
    0x00000000, 0x00000000, 0x00000000, 0x00000018, 0x61626380, 0x000f0000,
    0x7da86405, 0x600003c6, 0x3e9d7b78, 0x0183fc00, 0x12dcbfdb, 0xe2e2c38e,
    0xc8215c1a, 0xb73679a2, 0xe5bc3909, 0x32663c5b, 0x9d209d67, 0xec8726cb,
    0x702138a4, 0xd3b7973b, 0x93f5997f, 0x3b68ba73, 0xaff4ffc1, 0xf10a5c62,
    0x0a8b3996, 0x72af830a, 0x9409e33e, 0x24641522, 0x9f47bf94, 0xf0a64f5a,
    0x3e246a79, 0x27333ba3, 0x0c4763f2, 0x840abf27, 0x7a290d5d, 0x065c43da,
    0xfb3e89cb, 0xcc7617db, 0xb9e66c34, 0xa9993667, 0x84badedd, 0xc21462bc,
    0x1487472c, 0xb20f7a99, 0xef57b9cd, 0xebe6b238, 0x9fe3095e, 0x78bc8d4b,
    0xa43fcf15, 0x668b2ff8, 0xeeaba2cc, 0x12b1edeb]"

lemma abc_schedule: "sha_schedule abc_block = abc_schedule"
  by code_simp

definition round_group :: "nat \<Rightarrow> (u32 \<times> u32) list" where
  "round_group i = zip (take 16 (drop (16 * i) K)) (take 16 (drop (16 * i) abc_schedule))"

lemma abc_rounds_0:
  "foldl sha_round (0x6a09e667, 0xbb67ae85, 0x3c6ef372, 0xa54ff53a, 0x510e527f, 0x9b05688c, 0x1f83d9ab, 0x5be0cd19) (round_group 0) =
     (0xb0fa238e, 0xc0645fde, 0xd932eb16, 0x87912990, 0x07590dcd, 0x0b92f20c, 0x745a48de, 0x1e578218)"
  by code_simp

lemma abc_rounds_1:
  "foldl sha_round (0xb0fa238e, 0xc0645fde, 0xd932eb16, 0x87912990, 0x07590dcd, 0x0b92f20c, 0x745a48de, 0x1e578218) (round_group 1) =
     (0x73b33bf5, 0xea992a22, 0xa0060b30, 0x363482c9, 0xba591112, 0x0109ab3a, 0xade79437, 0x6112a3b7)"
  by code_simp

lemma abc_rounds_2:
  "foldl sha_round (0x73b33bf5, 0xea992a22, 0xa0060b30, 0x363482c9, 0xba591112, 0x0109ab3a, 0xade79437, 0x6112a3b7) (round_group 2) =
     (0x4172328d, 0xa14c14b0, 0x72ab4b91, 0x26628815, 0xfecf0bc6, 0xd57b94a9, 0xb7755da1, 0xa80f11f0)"
  by code_simp

lemma abc_rounds_3:
  "foldl sha_round (0x4172328d, 0xa14c14b0, 0x72ab4b91, 0x26628815, 0xfecf0bc6, 0xd57b94a9, 0xb7755da1, 0xa80f11f0) (round_group 3) =
     (0x506e3058, 0xd39a2165, 0x04d24d6c, 0xb85e2ce9, 0x5ef50f24, 0xfb121210, 0x948d25b6, 0x961f4894)"
  by code_simp

lemma abc_groups:
  "zip K abc_schedule = round_group 0 @ round_group 1 @ round_group 2 @ round_group 3"
  by code_simp

lemma abc_compress: "sha_compress sha_iv abc_block =
    [0xba7816bf, 0x8f01cfea, 0x414140de, 0x5dae2223, 0xb00361a3, 0x96177a9c, 0xb410ff61, 0xf20015ad]"
proof -
  have "foldl sha_round (sha_iv ! 0, sha_iv ! 1, sha_iv ! 2, sha_iv ! 3, sha_iv ! 4, sha_iv ! 5,
      sha_iv ! 6, sha_iv ! 7) (zip K (sha_schedule abc_block)) =
    (0x506e3058, 0xd39a2165, 0x04d24d6c, 0xb85e2ce9, 0x5ef50f24, 0xfb121210, 0x948d25b6, 0x961f4894)"
    unfolding abc_schedule abc_groups foldl_append
    by (simp add: sha_iv_def abc_rounds_0 abc_rounds_1 abc_rounds_2 abc_rounds_3 del: One_nat_def)
  then show ?thesis by (simp add: sha_compress_def) (simp add: sha_iv_def)
qed

lemma abc_blocks: "sha_blocks (sha256_pad [0x61, 0x62, 0x63]) = [abc_block]"
  by code_simp

text \<open>
  The implementation's digest of \<open>abc\<close>, computed by \<open>init\<close>, \<open>update\<close> and \<open>final\<close> on a
  context with any 64 bytes in its buffer, is the published test vector \<open>ba7816bf..f20015ad\<close>.
\<close>

theorem sha256_abc:
  assumes "length (c_buf c) = 64"
  shows "ci_sha256_final (ci_sha256_update (ci_sha256_init c) [0x61, 0x62, 0x63]) =
   [0xba, 0x78, 0x16, 0xbf, 0x8f, 0x01, 0xcf, 0xea, 0x41, 0x41, 0x40, 0xde, 0x5d, 0xae, 0x22, 0x23,
    0xb0, 0x03, 0x61, 0xa3, 0x96, 0x17, 0x7a, 0x9c, 0xb4, 0x10, 0xff, 0x61, 0xf2, 0x00, 0x15, 0xad]"
proof -
  have "absorbed (ci_sha256_update (ci_sha256_init c) [0x61, 0x62, 0x63]) ([] @ [0x61, 0x62, 0x63])"
    by (rule absorbed_update [OF absorbed_init [OF assms]])
  then have "ci_sha256_final (ci_sha256_update (ci_sha256_init c) [0x61, 0x62, 0x63])
      = sha256 [0x61, 0x62, 0x63]"
    by (simp add: final_absorbed)
  then show ?thesis by (simp add: sha256_def abc_blocks abc_compress be_bytes_def)
qed

theorem sha256_abc_witness:
  "take 4 (ci_sha256_final (ci_sha256_update
     (ci_sha256_init \<lparr>c_state = [], c_bitlen = 3, c_buf = replicate 64 9, c_buflen = 5\<rparr>)
     [0x61, 0x62, 0x63])) = [0xba, 0x78, 0x16, 0xbf]"
  by (subst sha256_abc) simp_all

end
