(* ===== verification/CI_Csp.thy ===== *)
theory CI_Csp
  imports CI_Rule
begin

text \<open>
  What the injectors and the monitor see of a libcsp packet (the identifier fields and the payload
  that the sources read), and the drop log that both injectors write: the rows
  \<open>t_ms,src,dport,csp_flags,is_rdp,index,epoch,dropped\<close> of the \<open>fprintf\<close> calls in
  \<open>src/inject/ci_drop_iface.c\<close> and \<open>src/proxy/zmqproxy.c\<close>, with the text that \<open>fprintf\<close> produces.
  The last part gives the reference for a run of an injector in the identity-keyed mode and an
  interface, \<open>drop_oracle\<close>, that the two injectors implement.
\<close>

section \<open>Packets\<close>

record csp_packet =
  c_src :: u16
  c_dst :: u16
  c_dport :: u16
  c_flags :: u8
  c_data :: bytes

text \<open>The parsed view of a packet, as every caller of the library builds it.\<close>

definition packet_frame :: "csp_packet \<Rightarrow> ci_frame" where
  "packet_frame p = ci_frame_from_fields (c_dport p) (c_flags p) (Some (c_data p))"

definition in_scope :: "ci_drop_rule \<Rightarrow> csp_packet \<Rightarrow> bool" where
  "in_scope r p = ci_rule_match (Some r) (Some (packet_frame p))"

section \<open>The drop log\<close>

record drop_row =
  d_ms :: u32
  d_src :: u16
  d_dport :: u16
  d_csp_flags :: u8
  d_is_rdp :: bool
  d_index :: u64
  d_epoch :: u32
  d_dropped :: bool

text \<open>The conversions \<open>%u\<close>, \<open>%llu\<close> and \<open>%d\<close> (on a truth value) and \<open>%02X\<close> of \<open>fprintf\<close>.\<close>

definition digit_char :: "nat \<Rightarrow> char" where
  "digit_char d = ''0123456789ABCDEF'' ! d"

function show_dec :: "nat \<Rightarrow> string" where
  "show_dec n = (if n < 10 then [digit_char n] else show_dec (n div 10) @ [digit_char (n mod 10)])"
  by pat_completeness auto
termination by (relation "measure (\<lambda>n. n)") auto

declare show_dec.simps [simp del]

definition show_hex2 :: "u8 \<Rightarrow> string" where
  "show_hex2 b = [digit_char (unat b div 16), digit_char (unat b mod 16)]"

definition drop_log_line :: "drop_row \<Rightarrow> string" where
  "drop_log_line d =
     show_dec (unat (d_ms d)) @ '','' @ show_dec (unat (d_src d)) @ '','' @
     show_dec (unat (d_dport d)) @ '',0x'' @ show_hex2 (d_csp_flags d) @ '','' @
     show_dec (of_bool (d_is_rdp d)) @ '','' @ show_dec (unat (d_index d)) @ '','' @
     show_dec (unat (d_epoch d)) @ '','' @ show_dec (of_bool (d_dropped d)) @ [CHR 0x0A]"

subsection \<open>A printed row determines the row\<close>

lemma digit_char_cases: "d < 16 \<Longrightarrow> digit_char d \<in> set ''0123456789ABCDEF''"
  unfolding digit_char_def by (rule nth_mem) simp

lemma digit_char_inj: "a < 16 \<Longrightarrow> b < 16 \<Longrightarrow> digit_char a = digit_char b \<longleftrightarrow> a = b"
  unfolding digit_char_def by (rule nth_eq_iff_index_eq) simp_all

lemma digit_char_not_comma: "d < 16 \<Longrightarrow> digit_char d \<noteq> CHR '',''"
  using digit_char_cases [of d] by auto

lemma show_dec_no_comma: "c \<in> set (show_dec n) \<Longrightarrow> c \<noteq> CHR '',''"
proof (induction n rule: show_dec.induct)
  case (1 n)
  have "n mod 10 < 16" using mod_less_divisor [of 10 n] by linarith
  then have "digit_char (n mod 10) \<noteq> CHR '','' " by (rule digit_char_not_comma)
  with 1 digit_char_not_comma [of n] show ?case
    by (subst (asm) (2) show_dec.simps) (auto split: if_splits)
qed

lemma show_dec_not_Nil [simp]: "show_dec n \<noteq> []"
  by (subst show_dec.simps) simp

lemma show_dec_inj: "show_dec m = show_dec n \<longleftrightarrow> m = n"
proof
  show "show_dec m = show_dec n \<Longrightarrow> m = n"
  proof (induction m arbitrary: n rule: show_dec.induct)
    case (1 m)
    consider "m < 10" "n < 10" | "m < 10" "\<not> n < 10" | "\<not> m < 10" "n < 10" | "\<not> m < 10" "\<not> n < 10"
      by blast
    then show ?case
    proof cases
      case 4
      with "1.prems" have "show_dec (m div 10) = show_dec (n div 10)"
        and "digit_char (m mod 10) = digit_char (n mod 10)"
        by (simp_all add: show_dec.simps [of m] show_dec.simps [of n])
      with "1.IH" [OF 4(1)] have "m div 10 = n div 10" "m mod 10 = n mod 10"
        by (simp_all add: digit_char_inj)
      then show ?thesis by (metis mult_div_mod_eq)
    qed (use "1.prems" in \<open>simp_all add: show_dec.simps [of m] show_dec.simps [of n] digit_char_inj
           append_eq_Cons_conv Cons_eq_append_conv\<close>)
  qed
qed simp

lemma show_hex2_inj: "show_hex2 a = show_hex2 b \<longleftrightarrow> a = b"
proof
  assume "show_hex2 a = show_hex2 b"
  then have "unat a div 16 = unat b div 16" "unat a mod 16 = unat b mod 16"
    using unat_less_pow(1) [of a] unat_less_pow(1) [of b]
    by (simp_all add: show_hex2_def digit_char_inj)
  then have "unat a = unat b" by (metis mult_div_mod_eq)
  then show "a = b" by (simp add: word_unat_eq_iff)
qed simp

lemma show_hex2_no_comma: "c \<in> set (show_hex2 b) \<Longrightarrow> c \<noteq> CHR '','' "
proof -
  assume c: "c \<in> set (show_hex2 b)"
  have "unat b < 256" by simp
  then have "unat b div 16 < 16" by linarith
  with c digit_char_not_comma [of "unat b div 16"] digit_char_not_comma [of "unat b mod 16"]
  show ?thesis by (auto simp: show_hex2_def)
qed

lemma comma_split:
  assumes "\<forall>c \<in> set xs. c \<noteq> k" and "\<forall>c \<in> set ys. c \<noteq> k"
  shows "xs @ k # us = ys @ k # vs \<longleftrightarrow> xs = ys \<and> us = vs"
  using assms by (auto simp: append_eq_append_conv2 Cons_eq_append_conv append_eq_Cons_conv)

lemma drop_log_line_inj: "drop_log_line d = drop_log_line e \<longleftrightarrow> d = e"
proof
  assume "drop_log_line d = drop_log_line e"
  then have "unat (d_ms d) = unat (d_ms e)" "unat (d_src d) = unat (d_src e)"
    "unat (d_dport d) = unat (d_dport e)" "d_csp_flags d = d_csp_flags e"
    "(of_bool (d_is_rdp d) :: nat) = of_bool (d_is_rdp e)" "unat (d_index d) = unat (d_index e)"
    "unat (d_epoch d) = unat (d_epoch e)" "(of_bool (d_dropped d) :: nat) = of_bool (d_dropped e)"
    by (simp_all add: drop_log_line_def comma_split show_dec_no_comma show_hex2_no_comma
        show_dec_inj show_hex2_inj)
  then show "d = e" by (simp add: word_unat_eq_iff [symmetric] of_bool_eq_iff)
qed simp

section \<open>A run in the identity-keyed mode\<close>

text \<open>
  The reference: the rows that an injector with rule \<open>r\<close> logs for a sequence of packets, each with
  the time at which it is handled. A packet outside the rule's scope is not logged and leaves the
  tracker alone.
\<close>

definition log_row :: "u32 \<Rightarrow> csp_packet \<Rightarrow> u64 \<Rightarrow> u32 \<Rightarrow> bool \<Rightarrow> drop_row" where
  "log_row ms p i ep dropped =
     \<lparr>d_ms = ms, d_src = c_src p, d_dport = c_dport p, d_csp_flags = c_flags p,
      d_is_rdp = f_is_rdp (packet_frame p), d_index = i, d_epoch = ep, d_dropped = dropped\<rparr>"

definition packet_index :: "csp_packet \<Rightarrow> ci_flow_tracker \<Rightarrow> u64 \<times> ci_flow_tracker" where
  "packet_index p = ci_flow_index_body (packet_frame p) (Some (c_data p))"

fun drop_rows :: "ci_drop_rule \<Rightarrow> ci_flow_tracker \<Rightarrow> (u32 \<times> csp_packet) list \<Rightarrow> drop_row list" where
  "drop_rows r t [] = []"
| "drop_rows r t ((ms, p) # ps) =
     (if in_scope r p
      then (let (i, t') = packet_index p t
            in log_row ms p i (t_epoch t') (ci_rule_decide (Some r) i) # drop_rows r t' ps)
      else drop_rows r t ps)"

text \<open>
  The interface of an injector with a drop log: a state with a rule, a flow tracker and the rows
  written so far, and a step per packet. An injector that keeps these laws logs the reference.
\<close>

locale drop_oracle = stepper step good ok
  for step :: "'e \<Rightarrow> 's \<Rightarrow> 's"
    and good :: "'e \<Rightarrow> bool"
    and ok :: "'s \<Rightarrow> bool" +
  fixes view :: "'e \<Rightarrow> u32 \<times> csp_packet"
    and rule :: "'s \<Rightarrow> ci_drop_rule"
    and tracker :: "'s \<Rightarrow> ci_flow_tracker"
    and rows :: "'s \<Rightarrow> drop_row list"
  assumes step_rule: "ok s \<Longrightarrow> good e \<Longrightarrow> rule (step e s) = rule s"
    and step_out: "ok s \<Longrightarrow> good e \<Longrightarrow> view e = (ms, p) \<Longrightarrow> \<not> in_scope (rule s) p \<Longrightarrow>
      tracker (step e s) = tracker s \<and> rows (step e s) = rows s"
    and step_in: "ok s \<Longrightarrow> good e \<Longrightarrow> view e = (ms, p) \<Longrightarrow> in_scope (rule s) p \<Longrightarrow>
      packet_index p (tracker s) = (i, t') \<Longrightarrow>
      tracker (step e s) = t' \<and>
      rows (step e s) = rows s @ [log_row ms p i (t_epoch t') (ci_rule_decide (Some (rule s)) i)]"
begin

lemma run_rows:
  "ok s \<Longrightarrow> \<forall>e \<in> set es. good e \<Longrightarrow>
     rows (fold step es s) = rows s @ drop_rows (rule s) (tracker s) (map view es)"
proof (induction es arbitrary: s)
  case (Cons e es)
  then have s: "ok s" "good e" by simp_all
  obtain ms p where e: "view e = (ms, p)" by fastforce
  obtain i t' where it: "packet_index p (tracker s) = (i, t')" by fastforce
  note IH = Cons.IH [OF step_ok [OF s]]
  show ?case
    using IH Cons.prems step_out [OF s e] step_in [OF s e _ it] e it
    by (cases "in_scope (rule s) p") (simp_all add: step_rule [OF s])
qed simp

end

text \<open>The keys and decisions of the reference, over the packets in scope.\<close>

definition scoped :: "ci_drop_rule \<Rightarrow> (u32 \<times> csp_packet) list \<Rightarrow> (ci_frame \<times> bytes) list" where
  "scoped r ps = map (\<lambda>(ms, p). (packet_frame p, c_data p)) (filter (\<lambda>(ms, p). in_scope r p) ps)"

lemma scoped_all:
  assumes "map snd es = ps" and "\<forall>p \<in> set ps. in_scope r p"
  shows "scoped r es = map (\<lambda>p. (packet_frame p, c_data p)) ps"
proof -
  have "scoped r es = map (\<lambda>p. (packet_frame p, c_data p)) (filter (in_scope r) (map snd es))"
    by (simp add: scoped_def filter_map comp_def case_prod_unfold)
  then show ?thesis using assms by (simp add: filter_id_conv)
qed

lemma drop_rows_keys: "map d_index (drop_rows r t ps) = flow_indices t (scoped r ps)"
  by (induction r t ps rule: drop_rows.induct)
    (auto simp: scoped_def packet_index_def log_row_def split: prod.split)

lemma drop_rows_decisions:
  "map d_dropped (drop_rows r t ps) = map (ci_rule_decide (Some r)) (flow_indices t (scoped r ps))"
  by (induction r t ps rule: drop_rows.induct)
    (auto simp: scoped_def packet_index_def log_row_def split: prod.split)

lemma drop_rows_numbered:
  assumes "map (unat \<circ> d_index) (drop_rows r t ps) = ks"
  shows "map d_dropped (drop_rows r t ps) = map (\<lambda>k. ci_rule_decide (Some r) (word_of_nat k)) ks"
proof -
  have "map d_dropped (drop_rows r t ps) = map (ci_rule_decide (Some r)) (map d_index (drop_rows r t ps))"
    unfolding drop_rows_keys drop_rows_decisions ..
  then show ?thesis by (simp add: assms [symmetric])
qed

text \<open>A stream of packets in scope, each with the frame and the payload that the tracker is given.\<close>

lemma stream_rows_keys:
  assumes "map snd es = map pk ks" and "\<forall>k \<in> set ks. in_scope r (pk k)"
    and "\<forall>k \<in> set ks. (packet_frame (pk k), c_data (pk k)) = view k"
    and "map unat (flow_indices t (map view ks)) = ks"
  shows "map (unat \<circ> d_index) (drop_rows r t es) = ks"
proof -
  have "scoped r es = map view ks" using scoped_all [OF assms(1)] assms(2,3) by simp
  then show ?thesis using assms(4) by (simp flip: map_map add: drop_rows_keys)
qed

text \<open>The verdicts of a rule along a sequence of packets, read off the reference rows.\<close>

fun scope_verdicts :: "ci_drop_rule \<Rightarrow> csp_packet list \<Rightarrow> bool list \<Rightarrow> bool list" where
  "scope_verdicts r [] ds = []"
| "scope_verdicts r (p # ps) ds =
     (if in_scope r p then (case ds of d # ds' \<Rightarrow> d # scope_verdicts r ps ds' | [] \<Rightarrow> False # scope_verdicts r ps [])
      else False # scope_verdicts r ps ds)"

lemma scope_verdicts_all:
  "length ds = length ps \<Longrightarrow> \<forall>p \<in> set ps. in_scope r p \<Longrightarrow> scope_verdicts r ps ds = ds"
  by (induction ps arbitrary: ds) (auto simp: length_Suc_conv)

end
