(* ===== verification/CI_Drop_Iface.thy ===== *)
theory CI_Drop_Iface
  imports CI_Csp CI_Ge
begin

text \<open>
  The in-path drop shim of \<open>src/inject/ci_drop_iface.c\<close>: a CSP interface that wraps a target
  interface and, for packets in the scope of its rule, either frees the packet or hands it to the
  target. The target's \<open>nexthop\<close> and \<open>csp_buffer_free\<close> are parameters (they belong to libcsp and its
  drivers) that act on a state \<open>'w\<close> of the rest of the stack; \<open>csp_get_ms\<close> is the argument \<open>ms\<close>.
\<close>

section \<open>The shim\<close>

record csp_iface =
  if_name :: string
  if_addr :: u16
  if_netmask :: u16

text \<open>\<open>i_drop_log\<close> is the open log with the rows written so far, or \<open>None\<close> for a null \<open>FILE\<close> pointer.\<close>

record ci_drop_iface =
  i_iface :: csp_iface
  i_rule :: ci_drop_rule
  i_tracker :: ci_flow_tracker
  i_drop_log :: "drop_row list option"
  i_per_attempt :: bool
  i_ge :: ci_ge_state
  i_injected_drops :: u64
  i_forwarded :: u64
  i_passthrough :: u64

record 'w csp_stack =
  st_nexthop :: "u16 \<Rightarrow> csp_packet \<Rightarrow> int \<Rightarrow> 'w \<Rightarrow> int \<times> 'w"
  st_free :: "csp_packet \<Rightarrow> 'w \<Rightarrow> 'w"

definition CSP_ERR_NONE :: int where [const_defs]: "CSP_ERR_NONE = 0"

definition ci_drop_iface_nexthop ::
  "'w csp_stack \<Rightarrow> u32 \<Rightarrow> u16 \<Rightarrow> csp_packet \<Rightarrow> int \<Rightarrow> ci_drop_iface \<times> 'w \<Rightarrow> int \<times> ci_drop_iface \<times> 'w" where
  "ci_drop_iface_nexthop stk ms via packet from_me sw =
     (let (s, w) = sw;
          f = ci_frame_from_fields (c_dport packet) (c_flags packet) (Some (c_data packet))
      in if \<not> ci_rule_match (Some (i_rule s)) (Some f)
         then (let s = s\<lparr>i_passthrough := i_passthrough s + 1\<rparr>;
                   (rc, w) = st_nexthop stk via packet from_me w
               in (rc, s, w))
         else
          (let (idx, t) = ci_flow_index_body f (Some (c_data packet)) (i_tracker s);
               s = s\<lparr>i_tracker := t\<rparr>;
               (dropped, s) =
                 (if i_per_attempt s
                  then (let (d, g) = ci_ge_state_step_body (i_ge s) in (d, s\<lparr>i_ge := g\<rparr>))
                  else (ci_rule_decide (Some (i_rule s)) idx, s));
               s = (case i_drop_log s of None \<Rightarrow> s
                    | Some rows \<Rightarrow>
                        s\<lparr>i_drop_log := Some (rows @
                           [\<lparr>d_ms = ms, d_src = c_src packet, d_dport = c_dport packet,
                             d_csp_flags = c_flags packet, d_is_rdp = f_is_rdp f, d_index = idx,
                             d_epoch = t_epoch (i_tracker s), d_dropped = dropped\<rparr>])\<rparr>)
           in if dropped
              then (CSP_ERR_NONE, s\<lparr>i_injected_drops := i_injected_drops s + 1\<rparr>, st_free stk packet w)
              else (let s = s\<lparr>i_forwarded := i_forwarded s + 1\<rparr>;
                        (rc, w) = st_nexthop stk via packet from_me w
                    in (rc, s, w))))"

text \<open>\<open>memset\<close> of the whole structure, then the fields that are set.\<close>

definition ci_drop_iface_init ::
  "string option \<Rightarrow> csp_iface option \<Rightarrow> ci_drop_rule option \<Rightarrow> u16 \<Rightarrow> drop_row list option \<Rightarrow>
   ci_drop_iface option \<Rightarrow> int \<times> ci_drop_iface option" where
  "ci_drop_iface_init name target rule dtp_mtu drop_log sp =
     (case (sp, name, target, rule) of
        (Some _, Some nm, Some tg, Some r) \<Rightarrow>
          (0, Some \<lparr>i_iface = \<lparr>if_name = nm, if_addr = if_addr tg, if_netmask = if_netmask tg\<rparr>,
             i_rule = r, i_tracker = ci_flow_tracker_init dtp_mtu, i_drop_log = drop_log,
             i_per_attempt = False,
             i_ge = \<lparr>g_seed = 0, g_step = 0, g_t_g2b = 0, g_t_b2g = 0, g_bad = False\<rparr>,
             i_injected_drops = 0, i_forwarded = 0, i_passthrough = 0\<rparr>)
      | _ \<Rightarrow> (- 1, sp))"

definition ci_drop_iface_enable_ge :: "double \<Rightarrow> double \<Rightarrow> ci_drop_iface option \<Rightarrow> ci_drop_iface option" where
  "ci_drop_iface_enable_ge p_g2b p_b2g sp =
     (case sp of None \<Rightarrow> None
      | Some s \<Rightarrow> Some (s\<lparr>i_ge := ci_ge_state_init (r_seed (i_rule s)) p_g2b p_b2g, i_per_attempt := True\<rparr>))"

section \<open>Runs\<close>

text \<open>One transmission: the time at which it is handled, the packet and the routing arguments.\<close>

type_synonym tx = "u32 \<times> csp_packet \<times> u16 \<times> int"

definition tx_view :: "tx \<Rightarrow> u32 \<times> csp_packet" where
  "tx_view e = (fst e, fst (snd e))"

fun shim_run :: "'w csp_stack \<Rightarrow> tx list \<Rightarrow> ci_drop_iface \<times> 'w \<Rightarrow> int list \<times> ci_drop_iface \<times> 'w" where
  "shim_run stk [] sw = ([], sw)"
| "shim_run stk ((ms, p, via, me) # es) sw =
     (let (rc, sw) = ci_drop_iface_nexthop stk ms via p me sw;
          (rcs, sw) = shim_run stk es sw
      in (rc # rcs, sw))"

text \<open>
  The decision the shim takes on a packet and the state after it, split off from the counters, the
  log and the delegation: \<open>None\<close> for a packet out of scope.
\<close>

definition shim_decide :: "csp_packet \<Rightarrow> ci_drop_iface \<Rightarrow> bool option" where
  "shim_decide p s =
     (if \<not> in_scope (i_rule s) p then None
      else Some (if i_per_attempt s then g_bad (i_ge s)
                 else ci_rule_decide (Some (i_rule s)) (fst (packet_index p (i_tracker s)))))"

definition shim_next :: "u32 \<Rightarrow> csp_packet \<Rightarrow> ci_drop_iface \<Rightarrow> ci_drop_iface" where
  "shim_next ms p s =
     (case shim_decide p s of
        None \<Rightarrow> s\<lparr>i_passthrough := i_passthrough s + 1\<rparr>
      | Some d \<Rightarrow>
          s\<lparr>i_tracker := snd (packet_index p (i_tracker s)),
            i_ge := (if i_per_attempt s then snd (ci_ge_state_step_body (i_ge s)) else i_ge s),
            i_drop_log := map_option (\<lambda>rows. rows @
               [log_row ms p (fst (packet_index p (i_tracker s)))
                  (t_epoch (snd (packet_index p (i_tracker s)))) d]) (i_drop_log s),
            i_injected_drops := i_injected_drops s + of_bool d,
            i_forwarded := i_forwarded s + of_bool (\<not> d)\<rparr>)"

lemma nexthop_eq:
  "ci_drop_iface_nexthop stk ms via p me (s, w) =
     (if shim_decide p s = Some True then (CSP_ERR_NONE, shim_next ms p s, st_free stk p w)
      else case st_nexthop stk via p me w of (rc, w') \<Rightarrow> (rc, shim_next ms p s, w'))"
  by (auto simp: ci_drop_iface_nexthop_def shim_decide_def shim_next_def in_scope_def
      packet_frame_def packet_index_def log_row_def Let_def case_prod_beta split: option.split)

text \<open>
  The rest of the stack as a caller without the shim would drive it: every transmission comes with
  a verdict; a dropped packet is freed and reported as sent, the others are delegated.
\<close>

fun wire_run :: "'w csp_stack \<Rightarrow> (bool \<times> tx) list \<Rightarrow> 'w \<Rightarrow> int list \<times> 'w" where
  "wire_run stk [] w = ([], w)"
| "wire_run stk ((dropped, (ms, p, via, me)) # es) w =
     (let (rc, w) = (if dropped then (CSP_ERR_NONE, st_free stk p w) else st_nexthop stk via p me w);
          (rcs, w) = wire_run stk es w
      in (rc # rcs, w))"

fun shim_step :: "tx \<Rightarrow> ci_drop_iface \<Rightarrow> ci_drop_iface" where
  "shim_step (ms, p, via, me) s = shim_next ms p s"

fun shim_verdicts :: "tx list \<Rightarrow> ci_drop_iface \<Rightarrow> bool list" where
  "shim_verdicts [] s = []"
| "shim_verdicts ((ms, p, via, me) # es) s =
     (shim_decide p s = Some True) # shim_verdicts es (shim_next ms p s)"

lemma shim_run_eq:
  "shim_run stk es (s, w) =
     (case wire_run stk (zip (shim_verdicts es s) es) w of (rcs, w') \<Rightarrow> (rcs, fold shim_step es s, w'))"
  by (induction es s arbitrary: w rule: shim_verdicts.induct)
    (auto simp: nexthop_eq Let_def split: prod.split)

section \<open>The identity-keyed mode\<close>

interpretation shim: drop_oracle shim_step "\<lambda>_. True"
  "\<lambda>s. \<not> i_per_attempt s \<and> i_drop_log s \<noteq> None" tx_view i_rule i_tracker "\<lambda>s. the (i_drop_log s)"
proof (unfold_locales, goal_cases)
  case (1 s e)
  then show ?case by (cases e) (auto simp: shim_next_def split: option.split)
next
  case (2 s e)
  then show ?case by (cases e) (auto simp: shim_next_def split: option.split)
next
  case (3 s e ms p)
  then show ?case by (cases e) (auto simp: shim_next_def shim_decide_def tx_view_def)
next
  case (4 s e ms p i t')
  then show ?case by (cases e) (auto simp: shim_next_def shim_decide_def tx_view_def)
qed

section \<open>Counters and verdicts of a run\<close>

definition n_scope :: "ci_drop_rule \<Rightarrow> tx list \<Rightarrow> nat" where
  "n_scope r es = length (filter (\<lambda>e. in_scope r (fst (snd e))) es)"

lemma shim_rule [simp]: "i_rule (shim_next ms p s) = i_rule s"
  "i_per_attempt (shim_next ms p s) = i_per_attempt s"
  by (auto simp: shim_next_def split: option.split)

text \<open>
  What a run does to the log and the counters, in either mode: \<open>rows\<close> are the rows it adds. In the
  per-attempt mode the decisions are those of the Gilbert-Elliott chain.
\<close>

definition shim_effect :: "ci_drop_iface \<Rightarrow> tx list \<Rightarrow> drop_row list \<Rightarrow> bool" where
  "shim_effect s es rows \<longleftrightarrow>
     (let s' = fold shim_step es s in
      i_drop_log s' = map_option (\<lambda>old. old @ rows) (i_drop_log s) \<and>
      length rows = n_scope (i_rule s) es \<and>
      shim_verdicts es s = scope_verdicts (i_rule s) (map (fst \<circ> snd) es) (map d_dropped rows) \<and>
      i_injected_drops s' = i_injected_drops s + word_of_nat (length (filter d_dropped rows)) \<and>
      i_forwarded s' = i_forwarded s + word_of_nat (length (filter (\<lambda>d. \<not> d_dropped d) rows)) \<and>
      i_passthrough s' = i_passthrough s + word_of_nat (length es - length rows) \<and>
      (i_per_attempt s \<longrightarrow> map d_dropped rows = fst (ge_run (length rows) (i_ge s))))"

lemma n_scope_le: "n_scope r es \<le> length es"
  by (simp add: n_scope_def)

lemma shim_effect_Nil: "shim_effect s [] []"
  by (simp add: shim_effect_def n_scope_def option.map_ident)

lemma shim_effect_out:
  assumes "\<not> in_scope (i_rule s) p" and "shim_effect (shim_next ms p s) es rows"
  shows "shim_effect s ((ms, p, via, me) # es) rows"
  using assms n_scope_le [of "i_rule s" es]
  by (auto simp: shim_effect_def Let_def shim_next_def shim_decide_def n_scope_def Suc_diff_le)

lemma shim_effect_in:
  assumes "in_scope (i_rule s) p" and "shim_effect (shim_next ms p s) es rows"
    and "packet_index p (i_tracker s) = (i, t)" and "shim_decide p s = Some d"
  shows "shim_effect s ((ms, p, via, me) # es) (log_row ms p i (t_epoch t) d # rows)"
  using assms
  by (auto simp: shim_effect_def Let_def shim_next_def shim_decide_def n_scope_def log_row_def
      option.map_comp comp_def case_prod_beta)

lemma shim_effect_ex: "\<exists>rows. shim_effect s es rows"
proof (induction es s rule: shim_verdicts.induct)
  case (2 ms p via me es s)
  obtain i t where it: "packet_index p (i_tracker s) = (i, t)" by fastforce
  from 2 obtain rows where rows: "shim_effect (shim_next ms p s) es rows" ..
  show ?case
  proof (cases "in_scope (i_rule s) p")
    case True
    then obtain d where "shim_decide p s = Some d" by (simp add: shim_decide_def)
    with shim_effect_in [OF True rows it] show ?thesis by blast
  qed (use shim_effect_out [OF _ rows] in blast)
qed (use shim_effect_Nil in blast)

section \<open>Properties\<close>

text \<open>
  Property C10. The shim in its identity-keyed mode. From a fresh shim with a log, for every
  sequence of transmissions and every target interface: the rest of the stack sees exactly the
  packets that the reference does not drop, unmodified and in order, and gets the dropped ones back
  exactly once; the caller gets the target's return codes, and success for a drop; the log holds
  the reference rows; and the three counters (modulo \<open>2^64\<close>) split the transmissions into dropped,
  forwarded and out of scope.
\<close>

theorem shim_identity_run:
  assumes "ci_drop_iface_init name target (Some r) mtu (Some []) sp = (0, Some s)"
    and "rows = drop_rows r (ci_flow_tracker_init mtu) (map tx_view es)"
    and "wire_run stk (zip (scope_verdicts r (map (fst \<circ> snd) es) (map d_dropped rows)) es) w = (rcs, w')"
  shows "\<exists>s'. shim_run stk es (s, w) = (rcs, s', w') \<and> i_drop_log s' = Some rows \<and>
    i_injected_drops s' = word_of_nat (length (filter d_dropped rows)) \<and>
    i_forwarded s' = word_of_nat (length (filter (\<lambda>d. \<not> d_dropped d) rows)) \<and>
    i_passthrough s' = word_of_nat (length es - length rows)"
proof -
  have s: "i_rule s = r" "i_tracker s = ci_flow_tracker_init mtu" "i_drop_log s = Some []"
    "\<not> i_per_attempt s" "i_injected_drops s = 0" "i_forwarded s = 0" "i_passthrough s = 0"
    using assms(1) by (auto simp: ci_drop_iface_init_def split: option.splits)
  obtain rows' where e: "shim_effect s es rows'" using shim_effect_ex by blast
  have "i_drop_log (fold shim_step es s) = Some rows'" using e s by (simp add: shim_effect_def Let_def)
  moreover have "the (i_drop_log (fold shim_step es s)) = rows"
    using shim.run_rows [of s es] s assms(2) by simp
  ultimately have "rows' = rows" by simp
  with e s assms(3) show ?thesis by (simp add: shim_run_eq shim_effect_def Let_def)
qed

text \<open>A stack that records what reaches the target and what is freed, and a short transmission.\<close>

definition recorder :: "(csp_packet list \<times> csp_packet list) csp_stack" where
  "recorder = \<lparr>st_nexthop = (\<lambda>via p me (sent, freed). (7, (sent @ [p], freed))),
     st_free = (\<lambda>p (sent, freed). (sent, freed @ [p]))\<rparr>"

definition dtp_tx :: "u32 \<Rightarrow> u16 \<Rightarrow> tx" where
  "dtp_tx i dport = (100 + i, \<lparr>c_src = 1, c_dst = 2, c_dport = dport, c_flags = 0,
     c_data = ci_gen_dtp_payload 196 i\<rparr>, 0, 1)"

definition replay_rule :: "bytes \<Rightarrow> ci_drop_rule" where
  "replay_rule v = \<lparr>r_seed = 7, r_match_dport = 8, r_match_rdp_syn = False,
     r_drop_probability = 0, r_replay_vector = Some v\<rparr>"

definition plain_iface :: csp_iface where
  "plain_iface = \<lparr>if_name = ''CAN'', if_addr = 5, if_netmask = 8\<rparr>"

definition fresh_shim :: "ci_drop_rule \<Rightarrow> ci_drop_iface" where
  "fresh_shim r = \<lparr>i_iface = \<lparr>if_name = ''DROP'', if_addr = 5, if_netmask = 8\<rparr>,
     i_rule = r, i_tracker = ci_flow_tracker_init 200, i_drop_log = Some [], i_per_attempt = False,
     i_ge = \<lparr>g_seed = 0, g_step = 0, g_t_g2b = 0, g_t_b2g = 0, g_bad = False\<rparr>,
     i_injected_drops = 0, i_forwarded = 0, i_passthrough = 0\<rparr>"

lemma fresh_shim_init:
  "ci_drop_iface_init (Some ''DROP'') (Some plain_iface) (Some r) 200 (Some []) (Some s0) = (0, Some (fresh_shim r))"
  by (simp add: ci_drop_iface_init_def fresh_shim_def plain_iface_def)

theorem shim_identity_run_witness:
  "\<exists>s'. shim_run recorder [dtp_tx 0 8, dtp_tx 1 8, dtp_tx 2 9, dtp_tx 1 8]
      (fresh_shim (replay_rule [0, 1]), [], []) =
    ([7, 0, 7, 0], s', map (fst \<circ> snd) [dtp_tx 0 8, dtp_tx 2 9], map (fst \<circ> snd) [dtp_tx 1 8, dtp_tx 1 8]) \<and>
    i_injected_drops s' = 2 \<and> i_forwarded s' = 1 \<and> i_passthrough s' = 1"
proof -
  let ?es = "[dtp_tx 0 8, dtp_tx 1 8, dtp_tx 2 9, dtp_tx 1 8]" and ?r = "replay_rule [0, 1]"
  let ?rows = "drop_rows ?r (ci_flow_tracker_init 200) (map tx_view ?es)"
  have d: "map d_dropped ?rows = [False, True, True]" by code_simp
  have l: "length ?rows = 3" "length (filter d_dropped ?rows) = 2"
    "length (filter (\<lambda>d. \<not> d_dropped d) ?rows) = 1" by code_simp+
  have w: "wire_run recorder (zip (scope_verdicts ?r (map (fst \<circ> snd) ?es) (map d_dropped ?rows)) ?es) ([], [])
    = ([7, 0, 7, 0], map (fst \<circ> snd) [dtp_tx 0 8, dtp_tx 2 9], map (fst \<circ> snd) [dtp_tx 1 8, dtp_tx 1 8])"
    unfolding d by code_simp
  show ?thesis using shim_identity_run [OF fresh_shim_init [of ?r "fresh_shim ?r"] refl w] unfolding l by auto
qed

text \<open>
  Property C27. The shim in its per-attempt mode. With the Gilbert-Elliott chain enabled, the verdict
  of the \<open>k\<close>-th transmission in scope is entry \<open>k\<close> of the vector that \<open>ci_ge_fill\<close> computes from the
  rule's seed, whatever the packets are; so a retransmission draws afresh, packets out of scope do
  not advance the chain, and two runs with the same seed and the same number of transmissions in
  scope see the same channel.
\<close>

theorem shim_ge_run:
  assumes "ci_drop_iface_init name target (Some r) mtu (Some []) sp = (0, Some s)"
    and "ci_drop_iface_enable_ge p_g2b p_b2g (Some s) = Some g"
    and "ci_ge_fill (r_seed r) p_g2b p_b2g (Some (replicate (n_scope r es) 0)) = Some vec"
    and "wire_run stk (zip (scope_verdicts r (map (fst \<circ> snd) es) (map (\<lambda>b. b \<noteq> 0) vec)) es) w = (rcs, w')"
  shows "\<exists>s' rows. shim_run stk es (g, w) = (rcs, s', w') \<and> i_drop_log s' = Some rows \<and>
    map d_dropped rows = map (\<lambda>b. b \<noteq> 0) vec \<and>
    i_injected_drops s' = word_of_nat (length (filter (\<lambda>b. b \<noteq> 0) vec)) \<and>
    i_forwarded s' = word_of_nat (length (filter (\<lambda>b. b = 0) vec)) \<and>
    i_passthrough s' = word_of_nat (length es - length vec)"
proof -
  have g: "i_rule g = r" "i_drop_log g = Some []" "i_per_attempt g"
    "i_ge g = ci_ge_state_init (r_seed r) p_g2b p_b2g"
    "i_injected_drops g = 0" "i_forwarded g = 0" "i_passthrough g = 0"
    using assms(1,2) by (auto simp: ci_drop_iface_init_def ci_drop_iface_enable_ge_def split: option.splits)
  obtain rows where e: "shim_effect g es rows" using shim_effect_ex by blast
  then have len: "length rows = n_scope r es"
    and run: "map d_dropped rows = fst (ge_run (length rows) (i_ge g))"
    using g by (simp_all add: shim_effect_def Let_def)
  have vec: "map (\<lambda>b. b \<noteq> 0) vec = map d_dropped rows"
    using assms(3) unfolding run len g(4) by (auto simp: ci_ge_fill_Some ge_fill_run comp_def)
  have f: "length (filter d_dropped rows) = length (filter (\<lambda>b. b \<noteq> 0) vec)"
    "length (filter (\<lambda>d. \<not> d_dropped d) rows) = length (filter (\<lambda>b. b = 0) vec)"
    using arg_cong [OF vec, of "\<lambda>bs. length (filter (\<lambda>b. b) bs)"]
      arg_cong [OF vec, of "\<lambda>bs. length (filter Not bs)"] by (simp_all add: filter_map comp_def)
  have "length vec = length rows" using arg_cong [OF vec, of length] by simp
  with e g f assms(4) vec show ?thesis by (simp add: shim_run_eq shim_effect_def Let_def)
qed

definition ge_shim :: "ci_drop_rule \<Rightarrow> ci_drop_iface" where
  "ge_shim r = (fresh_shim r)\<lparr>i_ge := ci_ge_state_init (r_seed r) 1 0, i_per_attempt := True\<rparr>"

theorem shim_ge_run_witness:
  "\<exists>s' rows. shim_run recorder [dtp_tx 5 8, dtp_tx 5 9, dtp_tx 5 8, dtp_tx 5 8]
      (ge_shim (replay_rule []), [], []) =
    ([7, 7, 0, 0], s', map (fst \<circ> snd) [dtp_tx 5 8, dtp_tx 5 9], map (fst \<circ> snd) [dtp_tx 5 8, dtp_tx 5 8]) \<and>
    i_drop_log s' = Some rows \<and> map d_dropped rows = [False, True, True]"
proof -
  let ?es = "[dtp_tx 5 8, dtp_tx 5 9, dtp_tx 5 8, dtp_tx 5 8]" and ?r = "replay_rule []"
  have g: "ci_drop_iface_enable_ge 1 0 (Some (fresh_shim ?r)) = Some (ge_shim ?r)"
    by (simp add: ci_drop_iface_enable_ge_def ge_shim_def fresh_shim_def)
  have v: "ci_ge_fill (r_seed ?r) 1 0 (Some (replicate (n_scope ?r ?es) 0)) = Some [0, 1, 1]" by code_simp
  have w: "wire_run recorder (zip (scope_verdicts ?r (map (fst \<circ> snd) ?es) (map (\<lambda>b. b \<noteq> 0) [0, 1, 1 :: u8])) ?es) ([], [])
    = ([7, 7, 0, 0], map (fst \<circ> snd) [dtp_tx 5 8, dtp_tx 5 9], map (fst \<circ> snd) [dtp_tx 5 8, dtp_tx 5 8])"
    by code_simp
  have v3: "map (\<lambda>b. b \<noteq> 0) [0, 1, 1 :: u8] = [False, True, True]" by simp
  show ?thesis
    using shim_ge_run [OF fresh_shim_init [of ?r "fresh_shim ?r"] g v w] unfolding v3
    by (elim exE conjE) (intro exI conjI)
qed

end
