(* ===== verification/CI_Libc.thy ===== *)
theory CI_Libc
  imports CI_Double CI_Csp
begin

text \<open>
  The functions of the C library that the command-line programs use: \<open>atoi\<close> (for numbers in the range
  of \<open>int\<close>), \<open>strtoul\<close>, \<open>atof\<close> (decimal notation), \<open>getopt\<close> (GNU, with options and other arguments in
  any order), \<open>fgets\<close> and \<open>strncpy\<close>. A C string is its characters without the terminating zero.
\<close>

section \<open>Numbers\<close>

definition is_space :: "char \<Rightarrow> bool" where
  "is_space c \<longleftrightarrow> c \<in> {CHR '' '', CHR 0x09, CHR 0x0A, CHR 0x0B, CHR 0x0C, CHR 0x0D}"

definition is_digit :: "char \<Rightarrow> bool" where
  "is_digit c \<longleftrightarrow> c \<in> set ''0123456789''"

definition digit_val :: "char \<Rightarrow> int" where
  "digit_val c = int (of_char c) - 48"

definition digits_val :: "string \<Rightarrow> int" where
  "digits_val ds = foldl (\<lambda>n c. 10 * n + digit_val c) 0 ds"

text \<open>An optional sign: whether it is a minus, and the rest.\<close>

definition sign_of :: "string \<Rightarrow> bool \<times> string" where
  "sign_of s = (case s of [] \<Rightarrow> (False, [])
     | c # cs \<Rightarrow> if c = CHR ''-'' then (True, cs) else if c = CHR ''+'' then (False, cs) else (False, s))"

definition atoi :: "string \<Rightarrow> int" where
  "atoi s = (let (neg, t) = sign_of (dropWhile is_space s);
                 v = digits_val (takeWhile is_digit t)
             in if neg then - v else v)"

text \<open>\<open>strtoul(s, NULL, 10)\<close>, where \<open>unsigned long\<close> has 64 bits: negated after a minus, the maximum on overflow.\<close>

definition strtoul :: "string \<Rightarrow> u64" where
  "strtoul s = (let (neg, t) = sign_of (dropWhile is_space s);
                    v = digits_val (takeWhile is_digit t)
                in if v \<ge> 2 ^ 64 then 0xFFFFFFFFFFFFFFFF
                   else if neg then - word_of_int v else word_of_int v)"

definition atof :: "string \<Rightarrow> double" where
  "atof s =
     (let (neg, t) = sign_of (dropWhile is_space s);
          ip = takeWhile is_digit t; t = dropWhile is_digit t;
          point = (t \<noteq> [] \<and> hd t = CHR ''.'');
          fp = (if point then takeWhile is_digit (tl t) else []);
          t = (if point then dropWhile is_digit (tl t) else t);
          m = of_int (digits_val (ip @ fp)) / 10 ^ length fp;
          (eneg, et) = (if t \<noteq> [] \<and> (hd t = CHR ''e'' \<or> hd t = CHR ''E'') then sign_of (tl t) else (False, []));
          ev = digits_val (takeWhile is_digit et)
      in if ip @ fp = [] then 0
         else d64_round ((if neg then - m else m) * 10 powi (if eneg then - ev else ev)))"

section \<open>getopt\<close>

text \<open>Whether an option string knows an option, and whether the option takes an argument.\<close>

fun opt_kind :: "string \<Rightarrow> char \<Rightarrow> bool option" where
  "opt_kind [] c = None"
| "opt_kind (x # xs) c =
     (if x = c \<and> c \<noteq> CHR '':'' then Some (xs \<noteq> [] \<and> hd xs = CHR '':'') else opt_kind xs c)"

text \<open>The options in one argument after its dash; the second component are the arguments left.\<close>

fun getopt_cluster :: "string \<Rightarrow> string \<Rightarrow> string list \<Rightarrow> (char \<times> string option) list \<times> string list" where
  "getopt_cluster so [] rest = ([], rest)"
| "getopt_cluster so (c # cs) rest =
     (case opt_kind so c of
        None \<Rightarrow> (let (os, r) = getopt_cluster so cs rest in ((CHR ''?'', None) # os, r))
      | Some False \<Rightarrow> (let (os, r) = getopt_cluster so cs rest in ((c, None) # os, r))
      | Some True \<Rightarrow>
          if cs \<noteq> [] then ([(c, Some cs)], rest)
          else (case rest of [] \<Rightarrow> ([(CHR ''?'', None)], []) | a # as \<Rightarrow> ([(c, Some a)], as)))"

lemma getopt_cluster_rest: "length (snd (getopt_cluster so cs rest)) \<le> length rest"
  by (induction so cs rest rule: getopt_cluster.induct) (auto split: option.split list.split prod.split bool.split)

function getopt :: "string \<Rightarrow> string list \<Rightarrow> (char \<times> string option) list" where
  "getopt so [] = []"
| "getopt so (a # as) =
     (if a = ''--'' then []
      else if a \<noteq> [] \<and> hd a = CHR ''-'' \<and> tl a \<noteq> []
      then fst (getopt_cluster so (tl a) as) @ getopt so (snd (getopt_cluster so (tl a) as))
      else getopt so as)"
  by pat_completeness auto
termination
  by (relation "measure (\<lambda>(so, as). length as)") (auto simp: less_Suc_eq_le getopt_cluster_rest)

text \<open>The arguments that are not options, which \<open>getopt\<close> moves to the end and \<open>optind\<close> points to.\<close>

function getopt_rest :: "string \<Rightarrow> string list \<Rightarrow> string list" where
  "getopt_rest so [] = []"
| "getopt_rest so (a # as) =
     (if a = ''--'' then as
      else if a \<noteq> [] \<and> hd a = CHR ''-'' \<and> tl a \<noteq> []
      then getopt_rest so (snd (getopt_cluster so (tl a) as))
      else a # getopt_rest so as)"
  by pat_completeness auto
termination
  by (relation "measure (\<lambda>(so, as). length as)") (auto simp: less_Suc_eq_le getopt_cluster_rest)

lemma getopt_cluster_arg: "(c, Some x) \<in> set (fst (getopt_cluster so cs rest)) \<Longrightarrow> opt_kind so c = Some True"
  by (induction so cs rest rule: getopt_cluster.induct)
    (auto split: option.splits bool.splits if_splits list.splits prod.splits)

lemma getopt_arg: "(c, Some x) \<in> set (getopt so as) \<Longrightarrow> opt_kind so c = Some True"
  by (induction so as rule: getopt.induct) (auto split: if_splits dest: getopt_cluster_arg)

section \<open>Strings\<close>

text \<open>\<open>fgets\<close> stops after a newline and after \<open>n - 1\<close> characters.\<close>

definition fgets :: "nat \<Rightarrow> string \<Rightarrow> string option" where
  "fgets n s =
     (if s = [] then None
      else let line = takeWhile (\<lambda>c. c \<noteq> CHR 0x0A) s
           in Some (take (n - 1) (if length line < length s then line @ [CHR 0x0A] else line)))"

definition strncpy :: "nat \<Rightarrow> string \<Rightarrow> string" where
  "strncpy n s = take n (takeWhile (\<lambda>c. c \<noteq> CHR 0x00) s)"

section \<open>Decimal numbers\<close>

lemma digits_val_append: "digits_val (xs @ [c]) = 10 * digits_val xs + digit_val c"
  by (simp add: digits_val_def)

lemma digit_char_digit: "d < 10 \<Longrightarrow> is_digit (digit_char d) \<and> digit_val (digit_char d) = int d"
proof -
  have "\<forall>d < 10. is_digit (''0123456789ABCDEF'' ! d) \<and> digit_val (''0123456789ABCDEF'' ! d) = int d"
    by code_simp
  then show "d < 10 \<Longrightarrow> is_digit (digit_char d) \<and> digit_val (digit_char d) = int d"
    by (simp add: digit_char_def)
qed

lemma show_dec_digits: "(\<forall>c \<in> set (show_dec n). is_digit c) \<and> digits_val (show_dec n) = int n"
proof (induction n rule: show_dec.induct)
  case (1 n)
  have "10 * int (n div 10) + int (n mod 10) = int n" by presburger
  with 1 show ?case
    using digit_char_digit [of n] digit_char_digit [of "n mod 10"]
    by (subst show_dec.simps, subst (2) show_dec.simps) (auto simp: digits_val_append digits_val_def)
qed

text \<open>A printed number is read back.\<close>

lemma atoi_show_dec: "atoi (show_dec n) = int n"
proof -
  obtain c cs where s: "show_dec n = c # cs" by (cases "show_dec n") simp_all
  have d: "\<forall>c \<in> set (show_dec n). is_digit c" "is_digit c" using show_dec_digits [of n] s by auto
  then have "\<not> is_space c" "c \<noteq> CHR ''-''" "c \<noteq> CHR ''+''" by (auto simp: is_digit_def is_space_def)
  then have "sign_of (dropWhile is_space (show_dec n)) = (False, show_dec n)" by (simp add: s sign_of_def)
  moreover have "takeWhile is_digit (show_dec n) = show_dec n" using d(1) by (simp add: takeWhile_eq_all_conv)
  ultimately show ?thesis using show_dec_digits [of n] by (simp only: atoi_def Let_def prod.case if_False)
qed

end
