(* ===== verification/CI_Monitor.thy ===== *)
theory CI_Monitor
  imports CI_Csp CI_Seq CI_Meas CI_Libc
begin

text \<open>
  The link monitor of \<open>src/apm/csp_monitor_apm.c\<close>: the drainer that turns promiscuous packets into
  CSV rows, sequence statistics and RTT samples, the window summary with its suspect flag, and the
  commands \<open>start\<close> and \<open>stop\<close>. The file-scope variables are the record \<open>monitor\<close>, the local variables
  of the drainer thread the record \<open>drainer\<close>; the open CSV is the list of its rows.

  Parameters: what \<open>csp_promisc_read\<close>, \<open>csp_get_ms\<close>, the debug counters of libcsp and
  \<open>csp_buffer_remaining\<close> return (record \<open>mon_input\<close>), the result of the option parser, and the success
  of \<open>csp_promisc_enable\<close>, \<open>fopen\<close> and \<open>pthread_create\<close>. \<open>m_promisc\<close> tells whether promiscuous mode is on.
\<close>

section \<open>State\<close>

datatype mon_row =
    Header
  | Rdp_Row u32 u16 u16 u16 u8 u8 u16 u16 bool u32
  | Dtp_Row u32 u16 u16 u16 u8 u32 u32
  | Window_Row u32 u8 u8 int u64 u64 u64 bool u32

record monitor =
  m_running :: bool
  m_csv :: "mon_row list option"
  m_csv_path :: string
  m_match_dport :: int
  m_window_ms :: u32
  m_mtu :: u16
  m_dtp_overhead :: u16
  m_buffer_low_water :: int
  m_seq :: ci_seq_tracker
  m_rtt :: ci_rtt_pairing
  m_loss_suspect_windows :: u64
  m_promisc :: bool

definition mon_initial :: monitor where
  "mon_initial =
     \<lparr>m_running = False, m_csv = None, m_csv_path = ''csp-intercept.csv'',
      m_match_dport = uint CI_DIPP_META_PORT, m_window_ms = 1000, m_mtu = 200,
      m_dtp_overhead = CI_DTP_OVERHEAD_DIPP, m_buffer_low_water = 100,
      m_seq = ci_seq_tracker_init, m_rtt = ci_rtt_init,
      m_loss_suspect_windows = 0, m_promisc = False\<rparr>"

record drainer =
  dr_prev_ovf :: u8
  dr_prev_bout :: u8
  dr_window_start :: u32

definition mon_write :: "mon_row \<Rightarrow> monitor \<Rightarrow> monitor" where
  "mon_write r m = m\<lparr>m_csv := map_option (\<lambda>rows. rows @ [r]) (m_csv m)\<rparr>"

text \<open>The header is three comment lines that do not vary.\<close>

definition mon_write_header :: "monitor \<Rightarrow> monitor" where
  "mon_write_header = mon_write Header"

text \<open>The label of the watched port in the start banner.\<close>

definition CI_VMEM_UPLOAD_PORT :: int where [const_defs]: "CI_VMEM_UPLOAD_PORT = 14"

definition mon_dport_label :: "int \<Rightarrow> string" where
  "mon_dport_label dport =
     (if dport = uint CI_DTP_DATA_PORT then ''DTP data (deployed uploader, no integrity)''
      else if dport = uint CI_DIPP_META_PORT then ''DIPP / RDP meta''
      else if dport = CI_VMEM_UPLOAD_PORT then ''vmem RDP+CRC32 upload (csh `upload`)''
      else if dport < 0 then ''ANY dport'' else ''custom port'')"

section \<open>The drainer\<close>

definition mon_rdp :: "u32 \<Rightarrow> csp_packet \<Rightarrow> monitor \<Rightarrow> monitor" where
  "mon_rdp t pk m =
     (case ci_rdp_parse_trailer (Some (c_data pk)) of
        Some h \<Rightarrow>
          (let m = m\<lparr>m_seq := snd (ci_seq_tracker_feed_body (h_seq h) (m_seq m))\<rparr>;
               m = (if length (c_data pk) > CI_RDP_HEADER_SIZE
                    then m\<lparr>m_rtt := ci_rtt_on_data_body (h_seq h) t (m_rtt m)\<rparr> else m);
               (rtt, p) = rtt_search (h_ack h) t 0 (m_rtt m);
               m = m\<lparr>m_rtt := p\<rparr>
           in mon_write (Rdp_Row t (c_src pk) (c_dst pk) (c_dport pk) (c_flags pk) (h_flags h)
                (h_seq h) (h_ack h) (rtt \<noteq> None) (case rtt of Some v \<Rightarrow> v | None \<Rightarrow> 0)) m)
      | None \<Rightarrow>
          mon_write (Rdp_Row t (c_src pk) (c_dst pk) (c_dport pk) (c_flags pk) 0 0 0 False 0) m)"

definition mon_dtp :: "u32 \<Rightarrow> csp_packet \<Rightarrow> monitor \<Rightarrow> monitor" where
  "mon_dtp t pk m =
     (let (off, frag) =
        (case ci_dtp_parse_offset (Some (c_data pk)) of
           Some off \<Rightarrow>
             (off, case ci_dtp_fragment_index_ovh off (m_mtu m) (m_dtp_overhead m) of
                     Some k \<Rightarrow> k | None \<Rightarrow> 0)
         | None \<Rightarrow> (0, 0))
      in mon_write (Dtp_Row t (c_src pk) (c_dst pk) (c_dport pk) (c_flags pk) off frag) m)"

definition mon_in_scope :: "monitor \<Rightarrow> csp_packet \<Rightarrow> bool" where
  "mon_in_scope m pk \<longleftrightarrow> m_match_dport m < 0 \<or> c_dport pk = word_of_int (m_match_dport m)"

lemma mon_label_any: "mon_dport_label (m_match_dport m) = ''ANY dport'' \<longleftrightarrow> (m_match_dport m < 0 \<and> (\<forall>pk. mon_in_scope m pk))"
  by (auto simp: mon_dport_label_def mon_in_scope_def const_defs)

definition mon_packet :: "u32 \<Rightarrow> csp_packet \<Rightarrow> monitor \<Rightarrow> monitor" where
  "mon_packet t pk m =
     (if mon_in_scope m pk then
        (let f = ci_frame_from_fields (c_dport pk) (c_flags pk) (Some (c_data pk))
         in if f_is_rdp f then mon_rdp t pk m
            else if c_dport pk = CI_DTP_DATA_PORT then mon_dtp t pk m
            else m)
      else m)"

text \<open>
  The values one pass of the loop reads. The two debug counters are read twice, for the deltas and
  for the next window's start; libcsp may advance them in between.
\<close>

record mon_input =
  in_packet :: "csp_packet option"
  in_t :: u32
  in_now :: u32
  in_ovf :: u8
  in_bout :: u8
  in_remaining :: int
  in_ovf2 :: u8
  in_bout2 :: u8

definition mon_window :: "mon_input \<Rightarrow> monitor \<times> drainer \<Rightarrow> monitor \<times> drainer" where
  "mon_window inp md =
     (let (m, dr) = md; now = in_now inp
      in if now - dr_window_start dr \<ge> m_window_ms m then
           (let hw = \<lparr>w_conn_ovf_delta = ci_u8_delta (dr_prev_ovf dr) (in_ovf inp),
                      w_buffer_out_delta = ci_u8_delta (dr_prev_bout dr) (in_bout inp),
                      w_buffer_remaining = in_remaining inp,
                      w_buffer_low_water = m_buffer_low_water m\<rparr>;
                (suspect, flags) = ci_measurement_suspect (Some hw);
                (suspect, flags, m) =
                  (if \<not> ci_loss_trustworthy (Some (m_seq m))
                   then (True, flags OR CI_SUSPECT_SPARSE_SEQ,
                         m\<lparr>m_loss_suspect_windows := m_loss_suspect_windows m + 1\<rparr>)
                   else (suspect, flags, m));
                m = mon_write (Window_Row now (w_conn_ovf_delta hw) (w_buffer_out_delta hw)
                      (w_buffer_remaining hw) (ci_seq_tracker_loss (Some (m_seq m)))
                      (s_n_dup (m_seq m)) (s_n_reorder (m_seq m)) suspect flags) m
            in (m, \<lparr>dr_prev_ovf = in_ovf2 inp, dr_prev_bout = in_bout2 inp, dr_window_start = now\<rparr>))
         else (m, dr))"

definition mon_pass :: "mon_input \<Rightarrow> monitor \<times> drainer \<Rightarrow> monitor \<times> drainer" where
  "mon_pass inp md =
     (let (m, dr) = md;
          m = (case in_packet inp of Some pk \<Rightarrow> mon_packet (in_t inp) pk m | None \<Rightarrow> m)
      in mon_window inp (m, dr))"

definition mon_drainer_init :: "u8 \<Rightarrow> u8 \<Rightarrow> u32 \<Rightarrow> monitor \<Rightarrow> monitor \<times> drainer" where
  "mon_drainer_init ovf bout ms m =
     (m\<lparr>m_seq := ci_seq_tracker_init, m_rtt := ci_rtt_init, m_loss_suspect_windows := 0\<rparr>,
      \<lparr>dr_prev_ovf = ovf, dr_prev_bout = bout, dr_window_start = ms\<rparr>)"

text \<open>The passes of the drainer until \<open>m_running\<close> is cleared; the loop body does not clear it itself.\<close>

definition mon_drainer :: "mon_input list \<Rightarrow> monitor \<times> drainer \<Rightarrow> monitor \<times> drainer" where
  "mon_drainer inps md = fold mon_pass inps md"

section \<open>Commands\<close>

datatype slash_rc = SLASH_SUCCESS | SLASH_EINVAL | SLASH_EIO | SLASH_ENOMEM

record start_opts =
  so_out :: "string option"
  so_dport :: int
  so_window :: u32
  so_mtu :: u32
  so_overhead :: u32

text \<open>\<open>parse\<close> fills the options from their defaults, or gives \<open>None\<close> for a negative result of \<open>optparse_parse\<close>.\<close>

definition csp_monitor_start_cmd ::
  "(start_opts \<Rightarrow> start_opts option) \<Rightarrow> bool \<Rightarrow> bool \<Rightarrow> bool \<Rightarrow> monitor \<Rightarrow> slash_rc \<times> monitor" where
  "csp_monitor_start_cmd parse promisc_ok fopen_ok thread_ok m =
     (if m_running m then (SLASH_SUCCESS, m)
      else case parse \<lparr>so_out = None, so_dport = m_match_dport m, so_window = m_window_ms m,
                       so_mtu = ucast (m_mtu m), so_overhead = ucast (m_dtp_overhead m)\<rparr> of
        None \<Rightarrow> (SLASH_EINVAL, m)
      | Some so \<Rightarrow>
          if so_overhead so < word_of_nat CI_DTP_OFFSET_SIZE \<or> so_overhead so \<ge> so_mtu so
          then (SLASH_EINVAL, m)
          else
            (let m = (case so_out so of Some s \<Rightarrow> m\<lparr>m_csv_path := strncpy 255 s\<rparr> | None \<Rightarrow> m);
                 m = m\<lparr>m_match_dport := so_dport so, m_window_ms := so_window so,
                       m_mtu := ucast (so_mtu so), m_dtp_overhead := ucast (so_overhead so)\<rparr>
             in if \<not> promisc_ok then (SLASH_EINVAL, m)
                else
                  (let m = m\<lparr>m_promisc := True\<rparr>
                   in if \<not> fopen_ok then (SLASH_EIO, m\<lparr>m_csv := None\<rparr>)
                      else
                        (let m = mon_write_header (m\<lparr>m_csv := Some []\<rparr>);
                             m = m\<lparr>m_running := True\<rparr>
                         in if \<not> thread_ok
                            then (SLASH_ENOMEM, m\<lparr>m_running := False, m_promisc := False, m_csv := None\<rparr>)
                            else (SLASH_SUCCESS, m)))))"

text \<open>The packets that \<open>csp_promisc_read(0)\<close> returns until it returns null: all are freed and counted.\<close>

fun mon_drain_residual :: "csp_packet list \<Rightarrow> nat \<times> csp_packet list" where
  "mon_drain_residual [] = (0, [])"
| "mon_drain_residual (stale # rest) = (let (freed, fs) = mon_drain_residual rest in (freed + 1, stale # fs))"

text \<open>The result carries the buffers that \<open>stop\<close> returns to the pool.\<close>

definition csp_monitor_stop_cmd :: "csp_packet list \<Rightarrow> monitor \<Rightarrow> slash_rc \<times> csp_packet list \<times> monitor" where
  "csp_monitor_stop_cmd residual m =
     (if \<not> m_running m then (SLASH_SUCCESS, [], m)
      else
        (let m = m\<lparr>m_running := False, m_promisc := False\<rparr>;
             freed = snd (mon_drain_residual residual);
             m = (if m_csv m \<noteq> None then m\<lparr>m_csv := None\<rparr> else m)
         in (SLASH_SUCCESS, freed, m)))"

section \<open>What a run of the drainer measures\<close>

text \<open>The sequence number that the drainer takes from a packet, if any.\<close>

definition captured_seq :: "int \<Rightarrow> csp_packet \<Rightarrow> u16 option" where
  "captured_seq dport pk =
     (if (dport < 0 \<or> c_dport pk = word_of_int dport) \<and> c_flags pk AND CI_CSP_FRDP \<noteq> 0
      then map_option h_seq (ci_rdp_parse_trailer (Some (c_data pk))) else None)"

definition captured :: "int \<Rightarrow> mon_input list \<Rightarrow> u16 list" where
  "captured dport inps = List.map_filter (captured_seq dport) (List.map_filter in_packet inps)"

lemma mon_write_fields [simp]:
  "m_seq (mon_write r m) = m_seq m" "m_match_dport (mon_write r m) = m_match_dport m"
  "m_running (mon_write r m) = m_running m" "m_window_ms (mon_write r m) = m_window_ms m"
  "m_promisc (mon_write r m) = m_promisc m" "m_csv (mon_write r m) = map_option (\<lambda>rows. rows @ [r]) (m_csv m)"
  "m_mtu (mon_write r m) = m_mtu m" "m_dtp_overhead (mon_write r m) = m_dtp_overhead m"
  by (simp_all add: mon_write_def)

lemma mon_packet_fields [simp]:
  "m_match_dport (mon_packet t pk m) = m_match_dport m" "m_running (mon_packet t pk m) = m_running m"
  "m_window_ms (mon_packet t pk m) = m_window_ms m" "m_promisc (mon_packet t pk m) = m_promisc m"
  "m_mtu (mon_packet t pk m) = m_mtu m" "m_dtp_overhead (mon_packet t pk m) = m_dtp_overhead m"
  by (auto simp: mon_packet_def mon_rdp_def mon_dtp_def Let_def case_prod_beta split: option.split)

lemma mon_packet_seq:
  "m_seq (mon_packet t pk m) =
     (case captured_seq (m_match_dport m) pk of
        Some s \<Rightarrow> snd (ci_seq_tracker_feed_body s (m_seq m)) | None \<Rightarrow> m_seq m)"
  by (auto simp: mon_packet_def mon_rdp_def mon_dtp_def mon_in_scope_def captured_seq_def
      ci_frame_from_fields_def Let_def case_prod_beta split: option.split)

lemma mon_window_fields [simp]:
  "m_seq (fst (mon_window inp (m, dr))) = m_seq m" "m_match_dport (fst (mon_window inp (m, dr))) = m_match_dport m"
  "m_running (fst (mon_window inp (m, dr))) = m_running m"
  "m_window_ms (fst (mon_window inp (m, dr))) = m_window_ms m" "m_promisc (fst (mon_window inp (m, dr))) = m_promisc m"
  "m_mtu (fst (mon_window inp (m, dr))) = m_mtu m" "m_dtp_overhead (fst (mon_window inp (m, dr))) = m_dtp_overhead m"
  by (simp_all add: mon_window_def Let_def case_prod_beta)

lemma mon_pass_fields [simp]:
  "m_match_dport (fst (mon_pass inp (m, dr))) = m_match_dport m"
  "m_running (fst (mon_pass inp (m, dr))) = m_running m" "m_promisc (fst (mon_pass inp (m, dr))) = m_promisc m"
  "m_mtu (fst (mon_pass inp (m, dr))) = m_mtu m" "m_dtp_overhead (fst (mon_pass inp (m, dr))) = m_dtp_overhead m"
  "m_window_ms (fst (mon_pass inp (m, dr))) = m_window_ms m"
  by (simp_all add: mon_pass_def Let_def split: option.split)

lemma mon_pass_seq:
  "m_seq (fst (mon_pass inp (m, dr))) =
     (case in_packet inp of Some pk \<Rightarrow> m_seq (mon_packet (in_t inp) pk m) | None \<Rightarrow> m_seq m)"
  by (simp add: mon_pass_def split: option.split)

lemma map_filter_Cons: "List.map_filter f (x # xs) = (case f x of Some y \<Rightarrow> y # List.map_filter f xs | None \<Rightarrow> List.map_filter f xs)"
  by (simp add: List.map_filter_def split: option.split)

lemma seq_feed_all_Some_Cons:
  "snd (seq_feed_all (Some t) (s # ss)) = snd (seq_feed_all (Some (snd (ci_seq_tracker_feed_body s t))) ss)"
  by (simp add: ci_seq_tracker_feed_def case_prod_beta)

lemma mon_run_seq:
  "Some (m_seq (fst (mon_drainer inps (m, dr)))) =
     snd (seq_feed_all (Some (m_seq m)) (captured (m_match_dport m) inps))"
proof (induction inps arbitrary: m dr)
  case Nil
  then show ?case by (simp add: mon_drainer_def captured_def List.map_filter_def)
next
  case (Cons inp inps)
  obtain m' dr' where p: "mon_pass inp (m, dr) = (m', dr')" by fastforce
  have f: "m_match_dport m' = m_match_dport m" "m_seq m' =
      (case in_packet inp of Some pk \<Rightarrow> m_seq (mon_packet (in_t inp) pk m) | None \<Rightarrow> m_seq m)"
    using mon_pass_fields(1) [of inp m dr] mon_pass_seq [of inp m dr] by (simp_all add: p)
  from Cons.IH [of m' dr'] show ?case
    by (simp add: mon_drainer_def captured_def map_filter_Cons p f mon_packet_seq seq_feed_all_Some_Cons
        del: seq_feed_all.simps split: option.split)
qed

text \<open>The windows of a run: the pass at its end, and the totals of the reported overflow deltas.\<close>

definition closes_window :: "mon_input \<Rightarrow> monitor \<Rightarrow> drainer \<Rightarrow> bool" where
  "closes_window inp m dr \<longleftrightarrow> in_now inp - dr_window_start dr \<ge> m_window_ms m"

lemma mon_window_row:
  assumes "m_window_ms m \<le> in_now inp - dr_window_start dr" and "m_csv m = Some rows"
  shows "\<exists>susp fl. m_csv (fst (mon_window inp (m, dr))) = Some (rows @
      [Window_Row (in_now inp) (in_ovf inp - dr_prev_ovf dr) (in_bout inp - dr_prev_bout dr) (in_remaining inp)
        (ci_seq_tracker_loss (Some (m_seq m))) (s_n_dup (m_seq m)) (s_n_reorder (m_seq m)) susp fl])"
  using assms by (simp add: mon_window_def ci_u8_delta_def Let_def case_prod_beta)

lemma mon_pass_window:
  assumes "closes_window inp m dr" and "m_csv m = Some rows"
  shows "\<exists>rows' susp fl. m_csv (fst (mon_pass inp (m, dr))) = Some (rows' @
      [Window_Row (in_now inp) (in_ovf inp - dr_prev_ovf dr) (in_bout inp - dr_prev_bout dr) (in_remaining inp)
        (ci_seq_tracker_loss (Some (m_seq (fst (mon_pass inp (m, dr))))))
        (s_n_dup (m_seq (fst (mon_pass inp (m, dr))))) (s_n_reorder (m_seq (fst (mon_pass inp (m, dr))))) susp fl])"
proof -
  let ?m = "case in_packet inp of Some pk \<Rightarrow> mon_packet (in_t inp) pk m | None \<Rightarrow> m"
  have c: "\<exists>rows'. m_csv (mon_packet t pk m) = Some rows'" for t pk
    using assms(2)
    by (auto simp: mon_packet_def mon_rdp_def mon_dtp_def Let_def case_prod_beta split: option.split)
  obtain rows' where r: "m_csv ?m = Some rows'"
    using assms(2) c by (cases "in_packet inp") auto
  have w: "m_window_ms ?m = m_window_ms m" by (simp split: option.split)
  have s: "m_seq (fst (mon_pass inp (m, dr))) = m_seq ?m" by (simp add: mon_pass_def)
  have p: "mon_pass inp (m, dr) = mon_window inp (?m, dr)" by (simp add: mon_pass_def)
  show ?thesis unfolding s
    using mon_window_row [of ?m inp dr rows'] r w assms(1) unfolding p closes_window_def by auto
qed

text \<open>What the windows of a run report, and what they leave out.\<close>

fun reported_ovf :: "mon_input list \<Rightarrow> monitor \<times> drainer \<Rightarrow> u8 list" where
  "reported_ovf [] md = []"
| "reported_ovf (inp # inps) md =
     (case md of (m, dr) \<Rightarrow>
        if closes_window inp m dr then (in_ovf inp - dr_prev_ovf dr) # reported_ovf inps (mon_pass inp md)
        else reported_ovf inps (mon_pass inp md))"

fun unread_ovf :: "mon_input list \<Rightarrow> monitor \<times> drainer \<Rightarrow> u8 list" where
  "unread_ovf [] md = []"
| "unread_ovf (inp # inps) md =
     (case md of (m, dr) \<Rightarrow>
        if closes_window inp m dr then (in_ovf2 inp - in_ovf inp) # unread_ovf inps (mon_pass inp md)
        else unread_ovf inps (mon_pass inp md))"

lemma mon_pass_drainer:
  "snd (mon_pass inp (m, dr)) =
     (if closes_window inp m dr
      then \<lparr>dr_prev_ovf = in_ovf2 inp, dr_prev_bout = in_bout2 inp, dr_window_start = in_now inp\<rparr> else dr)"
  by (simp add: mon_pass_def mon_window_def closes_window_def Let_def case_prod_beta split: option.split)

section \<open>The life of the monitor\<close>

text \<open>
  The states the commands and the drainer reach. The drainer thread runs only while \<open>m_running\<close> is set:
  \<open>start\<close> creates it after setting the flag and \<open>stop\<close> joins it after clearing the flag.
\<close>

inductive mon_reach :: "monitor \<Rightarrow> bool" where
  boot: "mon_reach mon_initial"
| start: "mon_reach m \<Longrightarrow> mon_reach (snd (csp_monitor_start_cmd parse promisc_ok fopen_ok thread_ok m))"
| thread: "mon_reach m \<Longrightarrow> m_running m \<Longrightarrow> mon_reach (fst (mon_drainer_init ovf bout ms m))"
| pass: "mon_reach m \<Longrightarrow> m_running m \<Longrightarrow> mon_reach (fst (mon_pass inp (m, dr)))"
| stop: "mon_reach m \<Longrightarrow> mon_reach (snd (snd (csp_monitor_stop_cmd residual m)))"

lemma drain_residual_all: "mon_drain_residual ps = (length ps, ps)"
  by (induction ps) auto

lemma mon_pass_csv: "m_csv (fst (mon_pass inp (m, dr))) = None \<longleftrightarrow> m_csv m = None"
proof -
  have "m_csv (fst (mon_window inp (n, dr))) = None \<longleftrightarrow> m_csv n = None" for n
    by (simp add: mon_window_def Let_def case_prod_beta)
  moreover have "m_csv (mon_packet t pk m) = None \<longleftrightarrow> m_csv m = None" for t pk
    by (auto simp: mon_packet_def mon_rdp_def mon_dtp_def Let_def case_prod_beta split: option.split)
  ultimately show ?thesis by (simp add: mon_pass_def split: option.split)
qed

lemma mon_reach_inv: "mon_reach m \<Longrightarrow> (m_running m \<longleftrightarrow> m_csv m \<noteq> None) \<and> (m_running m \<longrightarrow> m_promisc m)"
proof (induction rule: mon_reach.induct)
  case boot
  then show ?case by (simp add: mon_initial_def)
next
  case (start m parse promisc_ok fopen_ok thread_ok)
  then show ?case
    by (auto simp: csp_monitor_start_cmd_def mon_write_header_def Let_def split: option.split)
next
  case (thread m ovf bout ms)
  then show ?case by (simp add: mon_drainer_init_def)
next
  case (pass m inp dr)
  then show ?case using mon_pass_csv [of inp m dr] by simp
next
  case (stop m residual)
  then show ?case by (auto simp: csp_monitor_stop_cmd_def Let_def)
qed

text \<open>Passes within one window leave the drainer's variables alone.\<close>

lemma mon_drainer_quiet:
  assumes "\<forall>inp \<in> set inps. in_now inp - dr_window_start dr < m_window_ms m"
  shows "snd (mon_drainer inps (m, dr)) = dr \<and> m_window_ms (fst (mon_drainer inps (m, dr))) = m_window_ms m \<and>
    (m_csv (fst (mon_drainer inps (m, dr))) = None \<longleftrightarrow> m_csv m = None)"
  using assms
proof (induction inps arbitrary: m)
  case (Cons inp inps)
  have "snd (mon_pass inp (m, dr)) = dr"
    using Cons.prems by (auto simp: mon_pass_drainer closes_window_def)
  then obtain m' where p: "mon_pass inp (m, dr) = (m', dr)" by (metis prod.collapse)
  have "m_window_ms m' = m_window_ms m" "m_csv m' = None \<longleftrightarrow> m_csv m = None"
    using mon_pass_fields(6) [of inp m dr] mon_pass_csv [of inp m dr] by (simp_all add: p)
  with Cons.IH [of m'] Cons.prems show ?case by (simp add: mon_drainer_def p)
qed (simp add: mon_drainer_def)

section \<open>Properties\<close>

text \<open>
  Property C12. The loss column is exact within the tracker's window. Whatever mix of packets the tap delivers, let the RDP packets
  of the watched port that carry a trailer be at the sender's positions \<open>q, qs\<close>. Under three conditions
  on them (the first is below 65536 and all below \<open>2^63\<close>; none precedes it; each is less than 32768 ahead of the highest
  so far or at most 2047 behind it) the window row that a pass writes to the open capture at the end
  of these packets reports, as inferred loss, the number of positions up to the highest that never
  arrived, and as duplicates the number of repetitions modulo \<open>2^64\<close>. If a packet precedes the first
  one the row can be wrong: 5, 4, 7 gives loss 0 though 6 is missing (\<open>seq_backfill_masks_loss\<close> in
  \<open>CI_Seq\<close>).
\<close>

theorem monitor_loss_exact:
  assumes "captured (m_match_dport m) (inps @ [inp]) = map word_of_nat (q # qs)"
    and "q < 65536" and "seq_path_ok q qs" and "\<forall>p \<in> set qs. q \<le> p"
    and "mon_drainer inps (mon_drainer_init ovf bout ms m) = (m1, dr1)"
    and "closes_window inp m1 dr1" and "m_csv m1 = Some rows1"
  shows "\<exists>rows loss dups reorders susp fl.
    m_csv (fst (mon_drainer (inps @ [inp]) (mon_drainer_init ovf bout ms m))) =
      Some (rows @ [Window_Row (in_now inp) (in_ovf inp - dr_prev_ovf dr1) (in_bout inp - dr_prev_bout dr1)
        (in_remaining inp) loss dups reorders susp fl]) \<and>
    unat loss = card ({q..Max (set (q # qs))} - set (q # qs)) \<and>
    dups = word_of_nat (length (q # qs) - card (set (q # qs)))"
proof -
  let ?m0 = "fst (mon_drainer_init ovf bout ms m)" and ?dr0 = "snd (mon_drainer_init ovf bout ms m)"
  have run: "mon_drainer (inps @ [inp]) (mon_drainer_init ovf bout ms m) = mon_pass inp (m1, dr1)"
    using assms(5) by (simp add: mon_drainer_def)
  have "Some (m_seq (fst (mon_drainer (inps @ [inp]) (?m0, ?dr0)))) =
      snd (seq_feed_all (Some (m_seq ?m0)) (captured (m_match_dport ?m0) (inps @ [inp])))"
    by (rule mon_run_seq)
  then have "Some (m_seq (fst (mon_pass inp (m1, dr1)))) =
      snd (seq_feed_all (Some ci_seq_tracker_init) (map word_of_nat (q # qs)))"
    using run assms(1) by (simp add: mon_drainer_init_def del: seq_feed_all.simps)
  with loss_exact [OF assms(2-4)] obtain
    "unat (ci_seq_tracker_loss (Some (m_seq (fst (mon_pass inp (m1, dr1)))))) = card ({q..Max (set (q # qs))} - set (q # qs))"
    "s_n_dup (m_seq (fst (mon_pass inp (m1, dr1)))) = word_of_nat (length (q # qs) - card (set (q # qs)))"
    by (metis option.inject)
  with mon_pass_window [OF assms(6,7)] show ?thesis unfolding run by blast
qed

text \<open>
  What the windows report of the instrument's overflow counter. Over a run, the deltas of
  all window rows add up (modulo 256, the width of the counter) to the counter's advance less the
  events that fall between the two reads of one window: the first read gives the delta, the second
  starts the next window, so an event in between is in no window and does not make any of them
  suspect. If the counter does not move between the two reads, nothing is missed.
\<close>

theorem monitor_overflow_accounting:
  "sum_list (reported_ovf inps (m, dr)) + sum_list (unread_ovf inps (m, dr)) =
     dr_prev_ovf (snd (mon_drainer inps (m, dr))) - dr_prev_ovf dr"
proof (induction inps arbitrary: m dr)
  case Nil
  then show ?case by (simp add: mon_drainer_def)
next
  case (Cons inp inps)
  obtain m' dr' where p: "mon_pass inp (m, dr) = (m', dr')" by fastforce
  have d: "dr' = (if closes_window inp m dr
      then \<lparr>dr_prev_ovf = in_ovf2 inp, dr_prev_bout = in_bout2 inp, dr_window_start = in_now inp\<rparr> else dr)"
    using mon_pass_drainer [of inp m dr] by (simp add: p)
  from Cons.IH [of m' dr'] show ?case
    by (cases "closes_window inp m dr") (simp_all add: mon_drainer_def p d algebra_simps)
qed

definition gen_packet :: "nat \<Rightarrow> csp_packet" where
  "gen_packet q = \<lparr>c_src = 1, c_dst = 2, c_dport = 13, c_flags = 2, c_data = ci_gen_payload (word_of_nat q)\<rparr>"

definition rdp_input :: "nat \<Rightarrow> u32 \<Rightarrow> mon_input" where
  "rdp_input q t = \<lparr>in_packet = Some (gen_packet q),
     in_t = t, in_now = t, in_ovf = 0, in_bout = 0, in_remaining = 500, in_ovf2 = 0, in_bout2 = 0\<rparr>"

definition running_monitor :: monitor where
  "running_monitor = mon_initial\<lparr>m_running := True, m_csv := Some [Header], m_promisc := True\<rparr>"

lemma captured_gen_packet:
  "captured_seq (m_match_dport running_monitor) (gen_packet q) = Some (word_of_nat q)"
  by (simp only: captured_seq_def gen_packet_def csp_packet.simps ci_gen_payload_eq parse_trailer_append)
    (simp add: running_monitor_def mon_initial_def const_defs)

lemma captured_rdp_inputs:
  "captured (m_match_dport running_monitor) (map2 rdp_input qs ts) = map word_of_nat qs"
  if "length qs = length ts"
  using that
  by (induction qs ts rule: list_induct2)
    (simp_all add: captured_def map_filter_Cons captured_gen_packet rdp_input_def List.map_filter_def)

theorem monitor_loss_exact_witness:
  "\<exists>rows loss dups reorders susp fl.
    m_csv (fst (mon_drainer [rdp_input 65534 0, rdp_input 65537 5, rdp_input 65535 7, rdp_input 65535 1000]
      (mon_drainer_init 0 0 0 running_monitor))) =
      Some (rows @ [Window_Row 1000 0 0 500 loss dups reorders susp fl]) \<and> unat loss = card {65536 :: nat} \<and> dups = 1"
proof -
  let ?in = "[rdp_input 65534 0, rdp_input 65537 5, rdp_input 65535 7]" and ?i = "rdp_input 65535 1000"
    and ?s = "mon_drainer_init 0 0 0 running_monitor"
  let ?m1 = "fst (mon_drainer ?in ?s)" and ?dr1 = "snd (mon_drainer ?in ?s)"
  have c: "captured (m_match_dport running_monitor) (?in @ [?i]) = map word_of_nat [65534, 65537, 65535, 65535]"
    using captured_rdp_inputs [of "[65534, 65537, 65535, 65535]" "[0, 5, 7, 1000]"] by simp
  obtain m0 dr0 where s0: "?s = (m0, dr0)" by fastforce
  then have f0: "m_window_ms m0 = 1000" "m_csv m0 = Some [Header]"
      "dr0 = \<lparr>dr_prev_ovf = 0, dr_prev_bout = 0, dr_window_start = 0\<rparr>"
    by (auto simp: mon_drainer_init_def running_monitor_def mon_initial_def)
  have q: "snd (mon_drainer ?in ?s) = dr0 \<and> m_window_ms ?m1 = m_window_ms m0 \<and> (m_csv ?m1 = None \<longleftrightarrow> m_csv m0 = None)"
    unfolding s0 by (rule mon_drainer_quiet) (simp add: f0 rdp_input_def)
  then have w: "closes_window ?i ?m1 ?dr1" "m_csv ?m1 = Some (the (m_csv ?m1))"
    by (auto simp: closes_window_def f0 rdp_input_def)
  have d: "dr_prev_ovf ?dr1 = 0" "dr_prev_bout ?dr1 = 0" using q by (simp_all add: f0)
  have i: "in_now ?i = 1000" "in_ovf ?i = 0" "in_bout ?i = 0" "in_remaining ?i = 500" by (simp_all add: rdp_input_def)
  have m: "Max {65534, 65537, 65535, 65535} = (65537 :: nat)" by simp
  have s: "{65534..65537} - {65534, 65537, 65535, 65535} = {65536 :: nat}" by auto
  have k: "card {65534, 65537, 65535, 65535 :: nat} = 3" by (simp add: insert_absorb)
  have p: "seq_path_ok 65534 [65537, 65535, 65535]" by (simp add: seq_step_ok_def)
  from monitor_loss_exact [OF c _ p _ prod.collapse [symmetric] w]
  show ?thesis unfolding i d list.set m s k by simp
qed

text \<open>
  The life of the monitor. In every state that the commands and the drainer reach, the CSV
  is open exactly while the monitor runs, and then promiscuous mode is on (so the drainer never
  writes to a closed file); and \<open>stop\<close> on a running monitor closes the CSV, switches promiscuous mode
  off and returns every packet left in the queue to the pool.
\<close>

theorem monitor_lifecycle:
  assumes "mon_reach m"
  shows "(m_running m \<longleftrightarrow> m_csv m \<noteq> None) \<and> (m_running m \<longrightarrow> m_promisc m) \<and>
    (m_running m \<longrightarrow> (\<exists>m'. csp_monitor_stop_cmd residual m = (SLASH_SUCCESS, residual, m') \<and>
      \<not> m_running m' \<and> m_csv m' = None \<and> \<not> m_promisc m'))"
  using mon_reach_inv [OF assms] by (auto simp: csp_monitor_stop_cmd_def drain_residual_all Let_def)

theorem monitor_lifecycle_witness:
  "\<exists>m. mon_reach m \<and> m_running m \<and> m_csv m = Some [Header] \<and>
    (\<exists>m'. csp_monitor_stop_cmd [] m = (SLASH_SUCCESS, [], m') \<and> \<not> m_running m' \<and> m_csv m' = None \<and> \<not> m_promisc m')"
proof -
  let ?m = "snd (csp_monitor_start_cmd Some True True True mon_initial)"
  have r: "mon_reach ?m" by (rule mon_reach.start [OF mon_reach.boot])
  have s: "m_running ?m" "m_csv ?m = Some [Header]" by code_simp+
  from monitor_lifecycle [OF r, of "[]"] r s show ?thesis by blast
qed

text \<open>
  A failed \<open>start\<close> can leave promiscuous mode on. If the CSV cannot be opened, \<open>start\<close> returns
  an I/O error after promiscuous mode was enabled and does not disable it again; the monitor does
  not run, so \<open>stop\<close> does nothing either, and libcsp keeps cloning packets that nobody reads.
\<close>

theorem monitor_failed_open_leaves_promisc:
  assumes "\<not> m_running m"
    and "parse \<lparr>so_out = None, so_dport = m_match_dport m, so_window = m_window_ms m,
      so_mtu = ucast (m_mtu m), so_overhead = ucast (m_dtp_overhead m)\<rparr> = Some so"
    and "4 \<le> so_overhead so" and "so_overhead so < so_mtu so"
  shows "\<exists>m'. csp_monitor_start_cmd parse True False thread_ok m = (SLASH_EIO, m') \<and> m_promisc m' \<and>
    \<not> m_running m' \<and> csp_monitor_stop_cmd residual m' = (SLASH_SUCCESS, [], m')"
  using assms
  by (auto simp: csp_monitor_start_cmd_def csp_monitor_stop_cmd_def CI_DTP_OFFSET_SIZE_def Let_def
      split: option.split)

theorem monitor_failed_open_leaves_promisc_witness:
  "\<exists>m'. csp_monitor_start_cmd Some True False True mon_initial = (SLASH_EIO, m') \<and> m_promisc m' \<and>
    \<not> m_running m' \<and> csp_monitor_stop_cmd [] m' = (SLASH_SUCCESS, [], m')"
proof -
  let ?so = "\<lparr>so_out = None, so_dport = m_match_dport mon_initial, so_window = m_window_ms mon_initial,
    so_mtu = ucast (m_mtu mon_initial), so_overhead = ucast (m_dtp_overhead mon_initial)\<rparr>"
  have "\<not> m_running mon_initial" "4 \<le> so_overhead ?so" "so_overhead ?so < so_mtu ?so" by code_simp+
  from monitor_failed_open_leaves_promisc [of mon_initial Some ?so, OF this(1) refl this(2,3)]
  show ?thesis by blast
qed

end
