(* ===== verification/CI_Verify.thy ===== *)
theory CI_Verify
  imports CI_Sha256 CI_Libc "HOL-Library.Char_ord"
begin

text \<open>
  The \<open>verify\<close> command of \<open>src/apm/csp_monitor_apm.c\<close>: the search for the expected hash in a manifest,
  and the verdict on a delivered file. The option parser of the shell, the two files and the stack
  contents of the hash context are parameters; \<open>fgets\<close>, \<open>strstr\<close>, \<open>strncpy\<close> and \<open>strcasecmp\<close> of the C
  library are modelled.
\<close>

section \<open>The C library\<close>

text \<open>The successive results of \<open>fgets(line, 512, f)\<close> on a file.\<close>

function fgets_lines :: "string \<Rightarrow> string list" where
  "fgets_lines s =
     (case fgets 512 s of None \<Rightarrow> [] | Some line \<Rightarrow> line # fgets_lines (drop (length line) s))"
  by pat_completeness auto
termination
proof (relation "measure length")
  fix s line
  assume "fgets 512 s = Some line"
  then have "s \<noteq> []" "line \<noteq> []"
    by (cases s; auto simp: fgets_def Let_def split: if_splits)+
  then show "(drop (length line) s, s) \<in> measure length" by simp
qed simp

declare fgets_lines.simps [simp del]

definition c_string :: "string \<Rightarrow> string" where
  "c_string s = takeWhile (\<lambda>c. c \<noteq> CHR 0x00) s"

fun prefix_of :: "string \<Rightarrow> string \<Rightarrow> bool" where
  "prefix_of [] s \<longleftrightarrow> True"
| "prefix_of (c # cs) [] \<longleftrightarrow> False"
| "prefix_of (c # cs) (d # ds) \<longleftrightarrow> c = d \<and> prefix_of cs ds"

fun strstr :: "string \<Rightarrow> string \<Rightarrow> string option" where
  "strstr [] needle = (if needle = [] then Some [] else None)"
| "strstr (c # cs) needle = (if prefix_of needle (c # cs) then Some (c # cs) else strstr cs needle)"

definition to_lower :: "char \<Rightarrow> char" where
  "to_lower c = (if CHR ''A'' \<le> c \<and> c \<le> CHR ''Z'' then char_of (of_char c + 32 :: nat) else c)"

definition strcasecmp_eq :: "string \<Rightarrow> string \<Rightarrow> bool" where
  "strcasecmp_eq a b \<longleftrightarrow> map to_lower a = map to_lower b"

section \<open>The command\<close>

definition is_hex :: "char \<Rightarrow> bool" where
  "is_hex c \<longleftrightarrow> (CHR ''0'' \<le> c \<and> c \<le> CHR ''9'') \<or> (CHR ''a'' \<le> c \<and> c \<le> CHR ''f'') \<or>
     (CHR ''A'' \<le> c \<and> c \<le> CHR ''F'')"

text \<open>The hash of the first line with the key, \<open>None\<close> for the return value -1.\<close>

fun manifest_scan :: "string list \<Rightarrow> string" where
  "manifest_scan [] = []"
| "manifest_scan (line # rest) =
     (case strstr (c_string line) ''sha256:'' of
        None \<Rightarrow> manifest_scan rest
      | Some s \<Rightarrow> take 64 (takeWhile is_hex (dropWhile (\<lambda>c. c = CHR '' '' \<or> c = CHR 0x09) (drop 7 s))))"

definition verify_read_manifest_sha :: "string option \<Rightarrow> string option" where
  "verify_read_manifest_sha content =
     (case content of None \<Rightarrow> None
      | Some text \<Rightarrow>
          (let want = manifest_scan (fgets_lines text)
           in if length want = 64 then Some want else None))"

record verify_opts =
  vo_manifest :: "string option"
  vo_expected :: "string option"
  vo_reported :: "string option"
  vo_file :: "string option"

text \<open>The outcomes, by the line that is printed; \<open>V_Ok\<close> and \<open>V_Failed\<close> both return success to the shell.\<close>

datatype verify_result =
    V_Bad_Options
  | V_Missing_File
  | V_No_Sha
  | V_Need_Hash
  | V_Unreadable
  | V_Ok string u64
  | V_Failed "string option" string string

definition verify_cmd ::
  "(string \<Rightarrow> string option) \<Rightarrow> ci_sha256 \<Rightarrow> (string \<Rightarrow> (bytes list \<times> bool) option) \<Rightarrow>
   verify_opts option \<Rightarrow> verify_result" where
  "verify_cmd texts c0 files opts =
     (case opts of None \<Rightarrow> V_Bad_Options
      | Some vo \<Rightarrow>
          case vo_file vo of None \<Rightarrow> V_Missing_File
          | Some fname \<Rightarrow>
              (let want =
                 (case vo_expected vo of
                    Some e \<Rightarrow> Inr (strncpy 64 e)
                  | None \<Rightarrow>
                      (case vo_manifest vo of
                         Some mf \<Rightarrow>
                           (case verify_read_manifest_sha (texts mf) of
                              Some w \<Rightarrow> Inr w | None \<Rightarrow> Inl V_No_Sha)
                       | None \<Rightarrow> Inl V_Need_Hash))
               in case want of
                    Inl r \<Rightarrow> r
                  | Inr w \<Rightarrow>
                      (case ci_sha256_file c0 (files fname) of
                         None \<Rightarrow> V_Unreadable
                       | Some (got, nbytes) \<Rightarrow>
                           if strcasecmp_eq got w then V_Ok got nbytes else V_Failed (vo_reported vo) w got)))"

section \<open>Lemmas\<close>

lemma is_hex_hx: "c \<in> set hx \<Longrightarrow> is_hex c \<and> to_lower c = c \<and> c \<noteq> CHR 0x00 \<and> c \<noteq> CHR 0x0A"
  by (auto simp: hx_def is_hex_def to_lower_def)

lemma sha_hex_facts:
  "length (sha_hex (sha256 xs)) = 64" "\<forall>c \<in> set (sha_hex (sha256 xs)). is_hex c"
  "map to_lower (sha_hex (sha256 xs)) = sha_hex (sha256 xs)" "\<forall>c \<in> set (sha_hex (sha256 xs)). c \<noteq> CHR 0x00"
proof -
  show "length (sha_hex (sha256 xs)) = 64"
    using sha256_file_result [of "\<lparr>c_state = [], c_bitlen = 0, c_buf = replicate 64 0, c_buflen = 0\<rparr>"] by simp
  have h: "c \<in> set hx" if "c \<in> set (sha_hex (sha256 xs))" for c using that sha_hex_chars by blast
  then show "\<forall>c \<in> set (sha_hex (sha256 xs)). is_hex c" "\<forall>c \<in> set (sha_hex (sha256 xs)). c \<noteq> CHR 0x00"
    using is_hex_hx by blast+
  show "map to_lower (sha_hex (sha256 xs)) = sha_hex (sha256 xs)"
    using h is_hex_hx by (intro map_idI) blast
qed

text \<open>A line that fits the buffer is read whole, with its newline.\<close>

lemma fgets_line:
  assumes "length line < 511" and "CHR 0x0A \<notin> set line"
  shows "fgets_lines (line @ CHR 0x0A # rest) = (line @ [CHR 0x0A]) # fgets_lines rest"
proof -
  have "takeWhile (\<lambda>c. c \<noteq> CHR 0x0A) (line @ CHR 0x0A # rest) = line"
    using assms(2) by (induction line) auto
  then have "fgets 512 (line @ CHR 0x0A # rest) = Some (line @ [CHR 0x0A])"
    using assms(1) by (simp add: fgets_def)
  then show ?thesis by (subst fgets_lines.simps) simp
qed

lemma manifest_skip:
  assumes "\<forall>l \<in> set ls. strstr (c_string l) ''sha256:'' = None"
  shows "manifest_scan (ls @ ms) = manifest_scan ms"
  using assms by (induction ls) auto

definition skipped_line :: "string \<Rightarrow> bool" where
  "skipped_line l \<longleftrightarrow> length l < 511 \<and> CHR 0x0A \<notin> set l \<and> strstr (c_string (l @ [CHR 0x0A])) ''sha256:'' = None"

lemma manifest_lines:
  assumes "\<forall>l \<in> set ls. skipped_line l"
  shows "manifest_scan (fgets_lines (concat (map (\<lambda>l. l @ [CHR 0x0A]) ls) @ rest)) = manifest_scan (fgets_lines rest)"
  using assms by (induction ls) (auto simp: fgets_line skipped_line_def)

lemma dropWhile_replicate: "\<not> P d \<Longrightarrow> P c \<Longrightarrow> dropWhile P (replicate k c @ d # ds) = d # ds"
  by (induction k) auto

lemma not_hex: "\<not> is_hex (CHR '' '')" "\<not> is_hex (CHR 0x09)" "\<not> is_hex (CHR 0x0A)"
  by (simp_all add: is_hex_def)

definition hash_line :: "nat \<Rightarrow> string \<Rightarrow> string" where
  "hash_line k h = ''sha256:'' @ replicate k (CHR '' '') @ h"

lemma hash_line_scan:
  assumes "length h = 64" and "\<forall>c \<in> set h. is_hex c"
  shows "take 64 (takeWhile is_hex (dropWhile (\<lambda>c. c = CHR '' '' \<or> c = CHR 0x09) (drop 7 (hash_line k h @ [CHR 0x0A])))) = h"
proof -
  let ?P = "\<lambda>c. c = CHR '' '' \<or> c = CHR 0x09"
  obtain d ds where h: "h = d # ds" using assms(1) by (cases h) auto
  have "is_hex d" using assms(2) h by simp
  then have "\<not> ?P d" using not_hex(1,2) by blast
  then have "dropWhile ?P (replicate k (CHR '' '') @ h @ [CHR 0x0A]) = h @ [CHR 0x0A]"
    unfolding h append_Cons by (intro dropWhile_replicate) simp_all
  moreover have "drop 7 (hash_line k h @ [CHR 0x0A]) = replicate k (CHR '' '') @ h @ [CHR 0x0A]"
    by (simp add: hash_line_def)
  moreover have "takeWhile is_hex (h @ [CHR 0x0A]) = h"
    using assms(2) not_hex(3) by (simp add: takeWhile_append2)
  ultimately show ?thesis using assms(1) by simp
qed

lemma hash_line_chars:
  assumes "\<forall>c \<in> set h. is_hex c \<and> c \<noteq> CHR 0x00 \<and> c \<noteq> CHR 0x0A"
  shows "CHR 0x0A \<notin> set (hash_line k h)" and "c_string (hash_line k h @ [CHR 0x0A]) = hash_line k h @ [CHR 0x0A]"
proof -
  have s: "set (hash_line k h) \<subseteq> set ''sha256: '' \<union> set h" by (auto simp: hash_line_def)
  then show "CHR 0x0A \<notin> set (hash_line k h)" using assms by auto
  have "\<forall>c \<in> set (hash_line k h @ [CHR 0x0A]). c \<noteq> CHR 0x00" using s assms by auto
  then show "c_string (hash_line k h @ [CHR 0x0A]) = hash_line k h @ [CHR 0x0A]"
    unfolding c_string_def by (rule takeWhile_eq_all_conv [THEN iffD2])
qed

lemma hash_line_strstr: "strstr (hash_line k h @ xs) ''sha256:'' = Some (hash_line k h @ xs)"
  by (simp add: hash_line_def)

lemma manifest_hash_line:
  assumes "length h = 64" and "\<forall>c \<in> set h. is_hex c \<and> c \<noteq> CHR 0x00 \<and> c \<noteq> CHR 0x0A" and "k < 400"
  shows "manifest_scan (fgets_lines (hash_line k h @ CHR 0x0A # rest)) = h"
proof -
  have "length (hash_line k h) < 511" using assms(1,3) by (simp add: hash_line_def)
  then have f: "fgets_lines (hash_line k h @ CHR 0x0A # rest) = (hash_line k h @ [CHR 0x0A]) # fgets_lines rest"
    by (rule fgets_line [OF _ hash_line_chars(1) [OF assms(2)]])
  have "\<forall>c \<in> set h. is_hex c" using assms(2) by blast
  from hash_line_scan [OF assms(1) this] show ?thesis
    unfolding f manifest_scan.simps(2) hash_line_chars(2) [OF assms(2)] hash_line_strstr option.case .
qed

section \<open>Properties\<close>

text \<open>
  Property C34. The verdict of \<open>verify\<close>. Let a manifest name the hash of the source: after any lines
  without the key (each fits the line buffer), a line \<open>sha256:\<close>, some blanks and the 64 hex digits. Then
  \<open>verify -c\<close> on a file that can be read prints OK exactly when the file and the source have the same
  SHA-256, and FAILED with both hashes otherwise; on a file that cannot be read it reports that.
\<close>

theorem verify_verdict:
  assumes "length (c_buf c0) = 64" and "\<forall>l \<in> set ls. skipped_line l" and "k < 400"
    and "texts mf = Some (concat (map (\<lambda>l. l @ [CHR 0x0A]) ls) @ hash_line k (sha_hex (sha256 src)) @ CHR 0x0A # rest)"
  shows "verify_cmd texts c0 files (Some \<lparr>vo_manifest = Some mf, vo_expected = None, vo_reported = r, vo_file = Some f\<rparr>) =
    (case files f of
       Some (chunks, False) \<Rightarrow>
         if sha256 (concat chunks) = sha256 src
         then V_Ok (sha_hex (sha256 src)) (word_of_nat (length (concat chunks)))
         else V_Failed r (sha_hex (sha256 src)) (sha_hex (sha256 (concat chunks)))
     | _ \<Rightarrow> V_Unreadable)"
proof -
  have hx: "\<forall>c \<in> set (sha_hex (sha256 src)). is_hex c \<and> c \<noteq> CHR 0x00 \<and> c \<noteq> CHR 0x0A"
    using sha_hex_chars is_hex_hx by blast
  have "manifest_scan (fgets_lines (concat (map (\<lambda>l. l @ [CHR 0x0A]) ls) @ hash_line k (sha_hex (sha256 src)) @
      CHR 0x0A # rest)) = sha_hex (sha256 src)"
    unfolding manifest_lines [OF assms(2)] by (rule manifest_hash_line [OF sha_hex_facts(1) hx assms(3)])
  then have w: "verify_read_manifest_sha (texts mf) = Some (sha_hex (sha256 src))"
    using assms(4) sha_hex_facts(1) by (simp add: verify_read_manifest_sha_def Let_def)
  have eq: "strcasecmp_eq (sha_hex (sha256 xs)) (sha_hex (sha256 src)) \<longleftrightarrow> sha256 xs = sha256 src" for xs
    using sha_hex_facts(3) sha256_file_result [OF assms(1), of None xs src] by (simp add: strcasecmp_eq_def)
  show ?thesis
    using sha256_file_result [OF assms(1), of "files f"] w eq
    by (auto simp: verify_cmd_def Let_def split: option.split)
qed

definition demo_ctx :: ci_sha256 where
  "demo_ctx = \<lparr>c_state = [], c_bitlen = 3, c_buf = replicate 64 9, c_buflen = 5\<rparr>"

theorem verify_verdict_witness:
  "\<exists>texts. texts ''m.txt'' = Some (''name: image.bin'' @ [CHR 0x0A] @ ''sha256: '' @ sha_hex (sha256 [1, 2, 3]) @ [CHR 0x0A]) \<and>
    verify_cmd texts demo_ctx (\<lambda>f. Some ([[1], [2, 3]], False))
      (Some \<lparr>vo_manifest = Some ''m.txt'', vo_expected = None, vo_reported = None, vo_file = Some ''image.bin''\<rparr>) =
    V_Ok (sha_hex (sha256 [1, 2, 3])) 3"
proof -
  let ?t = "\<lambda>f :: string. Some (''name: image.bin'' @ [CHR 0x0A] @ ''sha256: '' @ sha_hex (sha256 [1, 2, 3]) @ [CHR 0x0A])"
  have "length (c_buf demo_ctx) = 64" by (simp add: demo_ctx_def)
  moreover have "\<forall>l \<in> set [''name: image.bin'']. skipped_line l" by (simp add: skipped_line_def c_string_def)
  moreover have "?t ''m.txt'' = Some (concat (map (\<lambda>l. l @ [CHR 0x0A]) [''name: image.bin'']) @
      hash_line 1 (sha_hex (sha256 [1, 2, 3])) @ CHR 0x0A # [])" by (simp add: hash_line_def)
  ultimately show ?thesis
    using verify_verdict [of demo_ctx "[''name: image.bin'']" 1 ?t "''m.txt''" "[1, 2, 3]" "[]"
        "\<lambda>f. Some ([[1], [2, 3]], False)" None "''image.bin''"]
    by (intro exI [of _ ?t]) simp
qed

end
