(* ===== verification/PX_Options.thy ===== *)
theory PX_Options
  imports CI_Csp CI_Libc
begin

text \<open>
  The command line of \<open>src/proxy/zmqproxy.c\<close>: the two option strings of the plain and the lossy
  build, the option switch of \<open>main\<close>, the range check on \<open>-M\<close> and the choice of the CURVE key.
  The argument \<open>lossy\<close> is the build flag \<open>ZMQ_PROXY_LOSSY\<close>.
\<close>

section \<open>Options of the proxy\<close>

definition CURVE_KEYLEN :: nat where [const_defs]: "CURVE_KEYLEN = 41"

record proxy_opts =
  o_debug :: int
  o_version :: int
  o_sub_str :: string
  o_pub_str :: string
  o_logfile_name :: "string option"
  o_keyfile_name :: "string option"
  o_keyarg :: "string option"
  o_hdx_node :: int
  o_hdx_powerup_delay :: int
  o_hdx_powerdown_delay :: int
  o_loss_prob :: double
  o_corr_prob :: double
  o_delay_prob :: double
  o_enable_lossy :: bool
  o_delay_ms :: int
  o_seed :: int
  o_match_dport :: int
  o_match_rdp_syn :: bool
  o_mtu_arg :: int
  o_overhead_arg :: int
  o_drop_log_name :: "string option"

definition proxy_defaults :: proxy_opts where
  "proxy_defaults =
     \<lparr>o_debug = 0, o_version = 2, o_sub_str = ''tcp://0.0.0.0:6000'', o_pub_str = ''tcp://0.0.0.0:7000'',
      o_logfile_name = None, o_keyfile_name = None, o_keyarg = None,
      o_hdx_node = 0, o_hdx_powerup_delay = 30, o_hdx_powerdown_delay = 100,
      o_loss_prob = 0, o_corr_prob = 0, o_delay_prob = 0, o_enable_lossy = False,
      o_delay_ms = 0, o_seed = 0, o_match_dport = - 1, o_match_rdp_syn = False,
      o_mtu_arg = 200, o_overhead_arg = uint CI_DTP_OVERHEAD_DIPP, o_drop_log_name = None\<rparr>"

definition shortopts :: "bool \<Rightarrow> string" where
  "shortopts lossy =
     (if lossy then ''hakgv:d:s:p:f:L:C:D:T:S:N:U:O:M:RH:m:o:'' else ''hgv:a:k:d:s:p:f:'')"

datatype proxy_exit = Usage | Keygen | Bad_Dport | Bad_Overhead | No_Drop_Log | No_Key

text \<open>
  The switch of \<open>main\<close>. Every option whose argument is converted takes one in both option strings,
  so \<open>optarg\<close> is not null there; \<open>optarg\<close> is stored as it is for the options that name a string.
\<close>

definition proxy_opt :: "bool \<Rightarrow> char \<Rightarrow> string option \<Rightarrow> proxy_opts \<Rightarrow> proxy_exit + proxy_opts" where
  "proxy_opt lossy c optarg o1 =
     (let arg = (case optarg of Some s \<Rightarrow> s | None \<Rightarrow> []) in
      if c = CHR ''d'' then Inr (o1\<lparr>o_debug := atoi arg\<rparr>)
      else if c = CHR ''v'' then Inr (o1\<lparr>o_version := atoi arg\<rparr>)
      else if c = CHR ''s'' then Inr (o1\<lparr>o_sub_str := arg\<rparr>)
      else if c = CHR ''p'' then Inr (o1\<lparr>o_pub_str := arg\<rparr>)
      else if c = CHR ''f'' then Inr (o1\<lparr>o_logfile_name := optarg\<rparr>)
      else if c = CHR ''a'' then Inr (o1\<lparr>o_keyfile_name := optarg\<rparr>)
      else if c = CHR ''k'' then Inr (o1\<lparr>o_keyarg := optarg\<rparr>)
      else if c = CHR ''g'' then Inl Keygen
      else if \<not> lossy then Inl Usage
      else if c = CHR ''L'' then Inr (o1\<lparr>o_loss_prob := atof arg, o_enable_lossy := True\<rparr>)
      else if c = CHR ''C'' then Inr (o1\<lparr>o_corr_prob := atof arg, o_enable_lossy := True\<rparr>)
      else if c = CHR ''D'' then Inr (o1\<lparr>o_delay_prob := atof arg, o_enable_lossy := True\<rparr>)
      else if c = CHR ''T'' then Inr (o1\<lparr>o_delay_ms := atoi arg\<rparr>)
      else if c = CHR ''S'' then Inr (o1\<lparr>o_seed := atoi arg\<rparr>)
      else if c = CHR ''N'' then Inr (o1\<lparr>o_hdx_node := atoi arg, o_enable_lossy := True\<rparr>)
      else if c = CHR ''U'' then Inr (o1\<lparr>o_hdx_powerup_delay := atoi arg\<rparr>)
      else if c = CHR ''O'' then Inr (o1\<lparr>o_hdx_powerdown_delay := atoi arg\<rparr>)
      else if c = CHR ''M'' then Inr (o1\<lparr>o_match_dport := atoi arg, o_enable_lossy := True\<rparr>)
      else if c = CHR ''R'' then Inr (o1\<lparr>o_match_rdp_syn := True\<rparr>)
      else if c = CHR ''H'' then Inr (o1\<lparr>o_overhead_arg := atoi arg\<rparr>)
      else if c = CHR ''m'' then Inr (o1\<lparr>o_mtu_arg := atoi arg\<rparr>)
      else if c = CHR ''o'' then Inr (o1\<lparr>o_drop_log_name := optarg\<rparr>)
      else Inl Usage)"

fun proxy_getopt_loop :: "bool \<Rightarrow> (char \<times> string option) list \<Rightarrow> proxy_opts \<Rightarrow> proxy_exit + proxy_opts" where
  "proxy_getopt_loop lossy [] o1 = Inr o1"
| "proxy_getopt_loop lossy ((c, a) # os) o1 =
     (case proxy_opt lossy c a o1 of Inl e \<Rightarrow> Inl e | Inr o2 \<Rightarrow> proxy_getopt_loop lossy os o2)"

definition proxy_options :: "bool \<Rightarrow> string list \<Rightarrow> proxy_exit + proxy_opts" where
  "proxy_options lossy args =
     (case proxy_getopt_loop lossy (getopt (shortopts lossy) args) proxy_defaults of
        Inl e \<Rightarrow> Inl e
      | Inr o1 \<Rightarrow>
          if lossy \<and> (o_match_dport o1 < - 1 \<or> o_match_dport o1 > 63) then Inl Bad_Dport else Inr o1)"

text \<open>
  The CURVE key: \<open>None\<close> for a proxy without encryption, otherwise the string in \<open>sec_key\<close>. A file is
  its content, or \<open>None\<close> when it cannot be opened.
\<close>

definition proxy_curve_key :: "(string \<Rightarrow> string option) \<Rightarrow> proxy_opts \<Rightarrow> proxy_exit + string option" where
  "proxy_curve_key fs o1 =
     (case o_keyfile_name o1 of
        Some fname \<Rightarrow>
          (case fs fname of
             None \<Rightarrow> Inl No_Key
           | Some content \<Rightarrow>
               if length content \<noteq> CURVE_KEYLEN then Inl No_Key
               else (case fgets CURVE_KEYLEN content of None \<Rightarrow> Inl No_Key | Some k \<Rightarrow> Inr (Some k)))
      | None \<Rightarrow>
          (case o_keyarg o1 of Some k \<Rightarrow> Inr (Some (strncpy (CURVE_KEYLEN - 1) k)) | None \<Rightarrow> Inr None))"

section \<open>Lemmas\<close>

lemma getopt_loop_inv:
  assumes "proxy_getopt_loop lossy os o1 = Inr o2" and "I o1"
    and "\<And>c a o1 o2. (c, a) \<in> set os \<Longrightarrow> I o1 \<Longrightarrow> proxy_opt lossy c a o1 = Inr o2 \<Longrightarrow> I o2"
  shows "I o2"
  using assms by (induction lossy os o1 rule: proxy_getopt_loop.induct) (auto split: sum.splits)

lemma options_inv:
  assumes "proxy_options lossy args = Inr o2" and "I proxy_defaults"
    and "\<And>c a o1 o2. (c, a) \<in> set (getopt (shortopts lossy) args) \<Longrightarrow> I o1 \<Longrightarrow>
      proxy_opt lossy c a o1 = Inr o2 \<Longrightarrow> I o2"
  shows "I o2"
  using assms by (auto simp: proxy_options_def split: sum.splits if_splits elim: getopt_loop_inv [where I = I])

section \<open>Properties\<close>

text \<open>
  The lossy build never encrypts. Its option string lists \<open>a\<close> and \<open>k\<close> without a colon,
  so \<open>getopt\<close> gives them no argument: whatever the command line (also with \<open>-a keyfile\<close> or \<open>-k key\<close>,
  which the usage text documents), the lossy proxy runs without CURVE and reports no error, while
  the plain build uses the key.
\<close>

theorem lossy_build_never_encrypts:
  assumes "proxy_options True args = Inr o1"
  shows "proxy_curve_key fs o1 = Inr None \<and>
    (\<exists>o2. proxy_options False [''-k'', key] = Inr o2 \<and>
       proxy_curve_key fs o2 = Inr (Some (take 40 (takeWhile (\<lambda>c. c \<noteq> CHR 0x00) key))))"
proof -
  have "o_keyfile_name o1 = None \<and> o_keyarg o1 = None"
    using assms
  proof (rule options_inv)
    fix c a and o1 o2 :: proxy_opts
    assume c: "(c, a) \<in> set (getopt (shortopts True) args)"
      and o1: "o_keyfile_name o1 = None \<and> o_keyarg o1 = None" and o2: "proxy_opt True c a o1 = Inr o2"
    have "a = None" if "c = CHR ''a'' \<or> c = CHR ''k''"
    proof (cases a)
      case (Some x)
      with c have "opt_kind (shortopts True) c = Some True" using getopt_arg by blast
      with that show ?thesis by (auto simp: shortopts_def)
    qed
    with o1 o2 show "o_keyfile_name o2 = None \<and> o_keyarg o2 = None"
      by (auto simp: proxy_opt_def Let_def split: if_splits)
  qed (simp add: proxy_defaults_def)
  moreover have "proxy_options False [''-k'', key] = Inr (proxy_defaults\<lparr>o_keyarg := Some key\<rparr>)"
    by (simp add: proxy_options_def shortopts_def proxy_opt_def)
  ultimately show ?thesis
    by (simp add: proxy_curve_key_def proxy_defaults_def strncpy_def CURVE_KEYLEN_def)
qed

theorem lossy_build_never_encrypts_witness:
  "\<exists>o1. proxy_options True [''-a'', ''server.key'', ''-M'', ''8'', ''-L'', ''0.5''] = Inr o1 \<and>
    o_match_dport o1 = 8 \<and> o_loss_prob o1 = 1 / 2 \<and> proxy_curve_key (\<lambda>f. Some (replicate 41 (CHR ''x''))) o1 = Inr None"
proof -
  let ?o = "proxy_defaults\<lparr>o_match_dport := 8, o_enable_lossy := True, o_loss_prob := 1 / 2\<rparr>"
  have "proxy_options True [''-a'', ''server.key'', ''-M'', ''8'', ''-L'', ''0.5''] = Inr ?o" by code_simp
  from lossy_build_never_encrypts [OF this] this show ?thesis by (auto simp: proxy_defaults_def)
qed

end
