(* ===== verification/PX_Proxy.thy ===== *)
theory PX_Proxy
  imports PX_Options
begin

text \<open>
  The lossy engine of \<open>src/proxy/zmqproxy.c\<close>: the frame-size guard, the flow index, the set-up in
  \<open>zmq_proxy_lossy\<close>, the handling of one message from the subscriber side (half-duplex simulation,
  corruption, drop decision, delay) and the poll loop with its shutdown. The file-scope variables
  are the record \<open>proxy\<close>.

  Parameters (record \<open>proxy_lib\<close>): \<open>pl_strip\<close> is \<open>csp_id_setup_rx\<close>, the copy into the one reused
  packet and \<open>csp_id_strip\<close> of libcsp, as a function of the bytes and of what the packet held before;
  \<open>pl_data_size\<close> is the size of a packet's data array; \<open>pl_enqueue\<close>, \<open>pl_dequeue\<close> and \<open>pl_size\<close> are libcsp's
  queue. Within the handling of one message every call of \<open>csp_get_ms\<close> and of \<open>rand\<close> is reached at
  most once; \<open>ms k\<close> and \<open>rnd k\<close> are the values that the \<open>k\<close>-th call in the text returns. A C \<open>int\<close> is an
  \<open>int\<close> that is reduced modulo \<open>2^32\<close> where the code mixes it with \<open>uint32_t\<close>.
\<close>

section \<open>State\<close>

record delayed_msg =
  dm_msg :: bytes
  dm_timestamp_tx :: u32
  dm_hdx :: bool

record 'q proxy_lib =
  pl_strip :: "bytes \<Rightarrow> csp_packet \<Rightarrow> csp_packet"
  pl_data_size :: nat
  pl_enqueue :: "delayed_msg \<Rightarrow> 'q \<Rightarrow> 'q option"
  pl_dequeue :: "'q \<Rightarrow> (delayed_msg \<times> 'q) option"
  pl_size :: "'q \<Rightarrow> nat"

text \<open>\<open>x_backend\<close> and \<open>x_frontend\<close> are the messages sent on the two sockets so far.\<close>

record 'q proxy =
  x_opts :: proxy_opts
  x_rule :: ci_drop_rule
  x_last_seq :: u16
  x_have_last_seq :: bool
  x_epoch :: u32
  x_dtp_mtu :: u16
  x_dtp_overhead :: u16
  x_drop_log :: "drop_row list option"
  x_drops :: u64
  x_kept :: u64
  x_delay_drops :: u64
  x_malformed :: u64
  x_hdx_powerup_start :: int
  x_hdx_last_tx :: int
  x_packet :: csp_packet
  x_queue :: 'q
  x_backend :: "bytes list"
  x_frontend :: "bytes list"
  x_stop :: bool

section \<open>Guard and flow index\<close>

definition proxy_frame_fits :: "int \<Rightarrow> nat \<Rightarrow> int \<Rightarrow> bool" where
  "proxy_frame_fits version data_size datalen =
     (let header_size = (if version = 2 then 6 else 4)
      in datalen \<ge> 0 \<and> datalen \<le> int data_size + header_size)"

text \<open>\<open>int datalen = zmq_msg_size(&msg)\<close>.\<close>

definition msg_datalen :: "bytes \<Rightarrow> int" where
  "msg_datalen msg = sint (word_of_nat (length msg) :: u32)"

definition proxy_fits :: "'q proxy_lib \<Rightarrow> bytes \<Rightarrow> 'q proxy \<Rightarrow> bool" where
  "proxy_fits lib msg x = proxy_frame_fits (o_version (x_opts x)) (pl_data_size lib) (msg_datalen msg)"

definition proxy_parse :: "'q proxy_lib \<Rightarrow> bytes \<Rightarrow> 'q proxy \<Rightarrow> 'q proxy" where
  "proxy_parse lib msg x = x\<lparr>x_packet := pl_strip lib (take (nat (msg_datalen msg)) msg) (x_packet x)\<rparr>"

definition proxy_flow_index :: "csp_packet \<Rightarrow> ci_frame \<Rightarrow> 'q proxy \<Rightarrow> u64 \<times> 'q proxy" where
  "proxy_flow_index packet f x =
     (if f_is_rdp f then
        (case ci_rdp_parse_trailer (Some (c_data packet)) of
           Some h \<Rightarrow>
             (let x = (if x_have_last_seq x \<and> ci_rdp_seq_is_wrap (x_last_seq x) (h_seq h)
                       then x\<lparr>x_epoch := x_epoch x + 1\<rparr> else x);
                  x = x\<lparr>x_last_seq := h_seq h\<rparr>;
                  x = x\<lparr>x_have_last_seq := True\<rparr>
              in (ci_flow_index_rdp (x_epoch x) (h_seq h), x))
         | None \<Rightarrow> (0, x))
      else
        (let frag =
           (case ci_dtp_parse_offset (Some (c_data packet)) of
              Some off \<Rightarrow>
                (case ci_dtp_fragment_index_ovh off (x_dtp_mtu x) (x_dtp_overhead x) of
                   Some k \<Rightarrow> k | None \<Rightarrow> 0)
            | None \<Rightarrow> 0)
         in (ucast frag, x)))"

section \<open>Set-up\<close>

text \<open>\<open>log_ok\<close> tells whether \<open>fopen\<close> of the drop log succeeds; \<open>pk\<close> and \<open>q\<close> are the fresh packet and queue.\<close>

definition proxy_lossy_setup ::
  "proxy_opts \<Rightarrow> bool \<Rightarrow> csp_packet \<Rightarrow> 'q \<Rightarrow> proxy_exit + 'q proxy" where
  "proxy_lossy_setup opt log_ok pk q =
     (if o_overhead_arg opt < int CI_DTP_OFFSET_SIZE \<or> o_overhead_arg opt \<ge> o_mtu_arg opt
      then Inl Bad_Overhead
      else if o_drop_log_name opt \<noteq> None \<and> \<not> log_ok then Inl No_Drop_Log
      else Inr
        \<lparr>x_opts = opt,
         x_rule = \<lparr>r_seed = word_of_int (o_seed opt), r_match_dport = o_match_dport opt,
           r_match_rdp_syn = o_match_rdp_syn opt, r_drop_probability = o_loss_prob opt,
           r_replay_vector = None\<rparr>,
         x_last_seq = 0, x_have_last_seq = False, x_epoch = 0,
         x_dtp_mtu = word_of_int (o_mtu_arg opt), x_dtp_overhead = word_of_int (o_overhead_arg opt),
         x_drop_log = (if o_drop_log_name opt \<noteq> None then Some [] else None),
         x_drops = 0, x_kept = 0, x_delay_drops = 0, x_malformed = 0,
         x_hdx_powerup_start = 0, x_hdx_last_tx = 0, x_packet = pk, x_queue = q,
         x_backend = [], x_frontend = [], x_stop = False\<rparr>)"

section \<open>One message from the subscriber side\<close>

text \<open>Every stage tells whether it ended with \<open>continue\<close>.\<close>

definition proxy_reject :: "'q proxy \<Rightarrow> 'q proxy" where
  "proxy_reject x = x\<lparr>x_malformed := x_malformed x + 1\<rparr>"

definition proxy_enqueue :: "'q proxy_lib \<Rightarrow> delayed_msg \<Rightarrow> 'q proxy \<Rightarrow> 'q proxy" where
  "proxy_enqueue lib dm x =
     (case pl_enqueue lib dm (x_queue x) of
        Some q \<Rightarrow> x\<lparr>x_queue := q\<rparr>
      | None \<Rightarrow> x\<lparr>x_delay_drops := x_delay_drops x + 1\<rparr>)"

definition proxy_hdx :: "'q proxy_lib \<Rightarrow> (nat \<Rightarrow> u32) \<Rightarrow> bytes \<Rightarrow> 'q proxy \<Rightarrow> bool \<times> 'q proxy" where
  "proxy_hdx lib ms msg x =
     (if o_hdx_node (x_opts x) = 0 then (False, x)
      else if \<not> proxy_fits lib msg x then (True, proxy_reject x)
      else
        (let x = proxy_parse lib msg x;
             node = o_hdx_node (x_opts x);
             powerdown = o_hdx_powerdown_delay (x_opts x)
         in if uint (c_src (x_packet x)) = node \<and> ms 0 > word_of_int (x_hdx_last_tx x + powerdown)
            then
              (let x = (if x_hdx_powerup_start x = 0 then x\<lparr>x_hdx_powerup_start := sint (ms 1)\<rparr> else x);
                   dm = \<lparr>dm_msg = msg,
                         dm_timestamp_tx = word_of_int (x_hdx_powerup_start x + o_hdx_powerup_delay (x_opts x)),
                         dm_hdx = True\<rparr>
               in (True, proxy_enqueue lib dm x))
            else
              (let x = (if uint (c_src (x_packet x)) = node then x\<lparr>x_hdx_last_tx := sint (ms 2)\<rparr> else x)
               in (uint (c_dst (x_packet x)) = node \<and> word_of_int (x_hdx_last_tx x + powerdown) > ms 3, x))))"

definition RAND_MAX :: nat where [const_defs]: "RAND_MAX = 2147483647"

definition rand_unit :: "nat \<Rightarrow> double" where
  "rand_unit r = d64_div (of_nat r) (of_nat RAND_MAX)"

definition proxy_corrupt :: "(nat \<Rightarrow> nat) \<Rightarrow> double \<Rightarrow> bytes \<Rightarrow> bytes" where
  "proxy_corrupt rnd corr_prob msg =
     (if corr_prob > 0 \<and> rand_unit (rnd 0) < corr_prob then
        (let sz = unat (word_of_nat (length msg) :: u32)
         in if sz > 0
            then (let rand_byte = rnd 1 mod sz; rand_bit = rnd 2 mod 8
                  in msg[rand_byte := msg ! rand_byte XOR push_bit rand_bit 1])
            else msg)
      else msg)"

text \<open>The drop decision: whether the stage ended with \<open>continue\<close>, and whether the message is dropped.\<close>

definition proxy_decide ::
  "'q proxy_lib \<Rightarrow> (nat \<Rightarrow> u32) \<Rightarrow> (nat \<Rightarrow> nat) \<Rightarrow> bytes \<Rightarrow> 'q proxy \<Rightarrow> bool \<times> bool \<times> 'q proxy" where
  "proxy_decide lib ms rnd msg x =
     (if o_match_dport (x_opts x) \<ge> 0 then
        (if \<not> proxy_fits lib msg x then (True, False, proxy_reject x)
         else
           (let x = proxy_parse lib msg x;
                packet = x_packet x;
                f = ci_frame_from_fields (c_dport packet) (c_flags packet) (Some (c_data packet))
            in if ci_rule_match (Some (x_rule x)) (Some f)
               then
                 (let (idx, x) = proxy_flow_index packet f x;
                      dropped = ci_rule_decide (Some (x_rule x)) idx;
                      x = (case x_drop_log x of None \<Rightarrow> x
                           | Some rows \<Rightarrow>
                               x\<lparr>x_drop_log := Some (rows @
                                  [\<lparr>d_ms = ms 4, d_src = c_src packet, d_dport = c_dport packet,
                                    d_csp_flags = c_flags packet, d_is_rdp = f_is_rdp f, d_index = idx,
                                    d_epoch = x_epoch x, d_dropped = dropped\<rparr>])\<rparr>)
                  in (False, dropped, x))
               else (False, False, x)))
      else (False, \<not> (rand_unit (rnd 3) > o_loss_prob (x_opts x)), x))"

definition proxy_send :: "bytes \<Rightarrow> 'q proxy \<Rightarrow> 'q proxy" where
  "proxy_send msg x = x\<lparr>x_backend := x_backend x @ [msg]\<rparr>"

definition proxy_forward ::
  "'q proxy_lib \<Rightarrow> (nat \<Rightarrow> u32) \<Rightarrow> (nat \<Rightarrow> nat) \<Rightarrow> bytes \<Rightarrow> bool \<Rightarrow> 'q proxy \<Rightarrow> bool \<times> 'q proxy" where
  "proxy_forward lib ms rnd msg dropped x =
     (if \<not> dropped then
        (if o_delay_prob (x_opts x) > 0 \<and> rand_unit (rnd 4) < o_delay_prob (x_opts x)
         then (True, proxy_enqueue lib
                \<lparr>dm_msg = msg, dm_timestamp_tx = ms 5 + word_of_int (o_delay_ms (x_opts x)), dm_hdx = False\<rparr> x)
         else (let x = proxy_send msg x in (False, x\<lparr>x_kept := x_kept x + 1\<rparr>)))
      else (False, x\<lparr>x_drops := x_drops x + 1\<rparr>))"

definition proxy_front ::
  "'q proxy_lib \<Rightarrow> (nat \<Rightarrow> u32) \<Rightarrow> (nat \<Rightarrow> nat) \<Rightarrow> bytes \<Rightarrow> 'q proxy \<Rightarrow> bool \<times> 'q proxy" where
  "proxy_front lib ms rnd msg x =
     (let (cont, x) = proxy_hdx lib ms msg x
      in if cont then (True, x)
         else let msg = proxy_corrupt rnd (o_corr_prob (x_opts x)) msg;
                  (cont, dropped, x) = proxy_decide lib ms rnd msg x
              in if cont then (True, x) else proxy_forward lib ms rnd msg dropped x)"

section \<open>The poll loop\<close>

text \<open>
  What one \<open>zmq_poll\<close> gives: an interrupt, another error, or the readiness of the two sockets with
  the messages that \<open>zmq_msg_recv\<close> returns. A message on the backend socket is left for the next
  poll when the handling of the frontend's message ends with \<open>continue\<close>. \<open>Sigint\<close> is the handler's
  assignment, between two polls.
\<close>

datatype poll_event = Sigint | Poll_Eintr | Poll_Error
  | Poll_Ready "bytes option" "bytes option" "nat \<Rightarrow> u32" "nat \<Rightarrow> nat"

definition proxy_ready ::
  "'q proxy_lib \<Rightarrow> bytes option \<Rightarrow> bytes option \<Rightarrow> (nat \<Rightarrow> u32) \<Rightarrow> (nat \<Rightarrow> nat) \<Rightarrow> 'q proxy \<Rightarrow> 'q proxy" where
  "proxy_ready lib front back ms rnd x =
     (let (cont, x) = (case front of Some msg \<Rightarrow> proxy_front lib ms rnd msg x | None \<Rightarrow> (False, x))
      in if cont then x
         else case back of Some msg \<Rightarrow> x\<lparr>x_frontend := x_frontend x @ [msg]\<rparr> | None \<Rightarrow> x)"

text \<open>\<open>Inl\<close> is the state in which the loop was left, \<open>Inr\<close> the state in which it waits for the next poll.\<close>

fun proxy_loop :: "'q proxy_lib \<Rightarrow> poll_event list \<Rightarrow> 'q proxy \<Rightarrow> 'q proxy + 'q proxy" where
  "proxy_loop lib [] x = (if x_stop x then Inl x else Inr x)"
| "proxy_loop lib (ev # evs) x =
     (if x_stop x then Inl x
      else case ev of
        Sigint \<Rightarrow> proxy_loop lib evs (x\<lparr>x_stop := True\<rparr>)
      | Poll_Eintr \<Rightarrow> proxy_loop lib evs x
      | Poll_Error \<Rightarrow> Inl x
      | Poll_Ready front back ms rnd \<Rightarrow> proxy_loop lib evs (proxy_ready lib front back ms rnd x))"

text \<open>The summary that \<open>proxy_shutdown\<close> prints: kept, dropped, delay drops, malformed.\<close>

definition proxy_shutdown :: "'q proxy \<Rightarrow> 'q proxy \<times> u64 \<times> u64 \<times> u64 \<times> u64" where
  "proxy_shutdown x =
     (x\<lparr>x_drop_log := None\<rparr>, x_kept x, x_drops x, x_delay_drops x, x_malformed x)"

text \<open>What is announced about the loss model.\<close>

datatype loss_banner = Deterministic_Loss | Not_Reproducible

definition proxy_banner :: "proxy_opts \<Rightarrow> loss_banner option" where
  "proxy_banner opt =
     (if o_match_dport opt \<ge> 0 then Some Deterministic_Loss
      else if o_loss_prob opt > 0 then Some Not_Reproducible else None)"

text \<open>
  The whole of \<open>zmq_proxy_lossy\<close>: the set-up, the loop over what the polls give and the shutdown,
  after which the process exits with 0. \<open>Inl\<close> is an early exit; without a \<open>packet\<close> its allocation has
  failed, which is an assertion after the set-up. A run that has ended returns the rows of the closed drop log, the final state and
  the summary; one that still waits in \<open>zmq_poll\<close> returns its state.
\<close>

datatype 'q lossy_run =
    Lossy_Ended "drop_row list option" "'q proxy" u64 u64 u64 u64
  | Lossy_Waits "'q proxy"
  | Lossy_Abort

definition zmq_proxy_lossy ::
  "'q proxy_lib \<Rightarrow> proxy_opts \<Rightarrow> bool \<Rightarrow> csp_packet option \<Rightarrow> 'q \<Rightarrow> poll_event list \<Rightarrow>
   proxy_exit + (loss_banner option \<times> 'q lossy_run)" where
  "zmq_proxy_lossy lib opt log_ok packet q evs =
     (case proxy_lossy_setup opt log_ok (case packet of Some pk \<Rightarrow> pk
        | None \<Rightarrow> \<lparr>c_src = 0, c_dst = 0, c_dport = 0, c_flags = 0, c_data = []\<rparr>) q of
        Inl e \<Rightarrow> Inl e
      | Inr x \<Rightarrow> Inr (proxy_banner opt,
          if packet = None then Lossy_Abort
          else case proxy_loop lib evs x of
                 Inr x' \<Rightarrow> Lossy_Waits x'
               | Inl x' \<Rightarrow> (let (x'', kept, drops, delay_drops, malformed) = proxy_shutdown x'
                             in Lossy_Ended (x_drop_log x') x'' kept drops delay_drops malformed)))"

section \<open>The flow index and the library's\<close>

definition x_tracker :: "'q proxy \<Rightarrow> ci_flow_tracker" where
  "x_tracker x = \<lparr>t_last_seq = x_last_seq x, t_have_last_seq = x_have_last_seq x, t_epoch = x_epoch x,
     t_dtp_mtu = x_dtp_mtu x, t_dtp_overhead = x_dtp_overhead x\<rparr>"

definition with_tracker :: "ci_flow_tracker \<Rightarrow> 'q proxy \<Rightarrow> 'q proxy" where
  "with_tracker t x =
     x\<lparr>x_last_seq := t_last_seq t, x_have_last_seq := t_have_last_seq t, x_epoch := t_epoch t\<rparr>"

lemma with_tracker_same [simp]: "with_tracker (x_tracker x) x = x"
  by (simp add: with_tracker_def x_tracker_def)

lemma proxy_index_eq:
  "proxy_flow_index p f x =
     (let (i, t) = ci_flow_index_body f (Some (c_data p)) (x_tracker x) in (i, with_tracker t x))"
  by (auto simp: proxy_flow_index_def ci_flow_index_body_def Let_def x_tracker_def with_tracker_def
      split: option.split)

lemma x_tracker_with_tracker:
  "t_dtp_mtu t = x_dtp_mtu x \<Longrightarrow> t_dtp_overhead t = x_dtp_overhead x \<Longrightarrow> x_tracker (with_tracker t x) = t"
  by (simp add: x_tracker_def with_tracker_def)

lemma with_tracker_fields [simp]:
  "x_opts (with_tracker t x) = x_opts x" "x_rule (with_tracker t x) = x_rule x"
  "x_drop_log (with_tracker t x) = x_drop_log x" "x_epoch (with_tracker t x) = t_epoch t"
  "x_backend (with_tracker t x) = x_backend x" "x_queue (with_tracker t x) = x_queue x"
  "x_kept (with_tracker t x) = x_kept x" "x_drops (with_tracker t x) = x_drops x"
  "x_malformed (with_tracker t x) = x_malformed x" "x_delay_drops (with_tracker t x) = x_delay_drops x"
  "x_packet (with_tracker t x) = x_packet x"
  by (simp_all add: with_tracker_def)

section \<open>The deterministic mode\<close>

text \<open>
  A message with the packet it carries. The packet does not depend on what the reused buffer held
  before: libcsp parses a complete frame into its identifier and payload.
\<close>

type_synonym px_event = "bytes \<times> (nat \<Rightarrow> u32) \<times> (nat \<Rightarrow> nat) \<times> csp_packet"

definition px_view :: "px_event \<Rightarrow> u32 \<times> csp_packet" where
  "px_view e = (case e of (msg, ms, rnd, pk) \<Rightarrow> (ms 4, pk))"

fun px_step :: "'q proxy_lib \<Rightarrow> px_event \<Rightarrow> 'q proxy \<Rightarrow> 'q proxy" where
  "px_step lib (msg, ms, rnd, pk) x = snd (proxy_front lib ms rnd msg x)"

definition px_good :: "'q proxy_lib \<Rightarrow> int \<Rightarrow> px_event \<Rightarrow> bool" where
  "px_good lib v e \<longleftrightarrow> (case e of (msg, ms, rnd, pk) \<Rightarrow>
     proxy_frame_fits v (pl_data_size lib) (msg_datalen msg) \<and>
     (\<forall>old. pl_strip lib (take (nat (msg_datalen msg)) msg) old = pk))"

definition px_det :: "int \<Rightarrow> 'q proxy \<Rightarrow> bool" where
  "px_det v x \<longleftrightarrow> o_match_dport (x_opts x) \<ge> 0 \<and> o_hdx_node (x_opts x) = 0 \<and>
     o_corr_prob (x_opts x) \<le> 0 \<and> o_version (x_opts x) = v \<and> x_drop_log x \<noteq> None"

lemma proxy_enqueue_fields [simp]:
  "x_opts (proxy_enqueue lib dm x) = x_opts x" "x_rule (proxy_enqueue lib dm x) = x_rule x"
  "x_drop_log (proxy_enqueue lib dm x) = x_drop_log x" "x_tracker (proxy_enqueue lib dm x) = x_tracker x"
  "x_backend (proxy_enqueue lib dm x) = x_backend x" "x_kept (proxy_enqueue lib dm x) = x_kept x"
  "x_drops (proxy_enqueue lib dm x) = x_drops x" "x_malformed (proxy_enqueue lib dm x) = x_malformed x"
  by (simp_all add: proxy_enqueue_def x_tracker_def split: option.split)

lemma proxy_forward_fields [simp]:
  "x_opts (snd (proxy_forward lib ms rnd msg d x)) = x_opts x"
  "x_rule (snd (proxy_forward lib ms rnd msg d x)) = x_rule x"
  "x_drop_log (snd (proxy_forward lib ms rnd msg d x)) = x_drop_log x"
  "x_tracker (snd (proxy_forward lib ms rnd msg d x)) = x_tracker x"
  by (simp_all add: proxy_forward_def proxy_send_def Let_def) (simp_all add: x_tracker_def)

text \<open>The state after the decision on a packet, in the deterministic mode.\<close>

definition px_decided :: "u32 \<Rightarrow> csp_packet \<Rightarrow> 'q proxy \<Rightarrow> bool \<times> 'q proxy" where
  "px_decided ms p x =
     (if in_scope (x_rule x) p
      then let (i, t) = packet_index p (x_tracker x); d = ci_rule_decide (Some (x_rule x)) i
           in (d, (with_tracker t (x\<lparr>x_packet := p\<rparr>))
             \<lparr>x_drop_log := map_option (\<lambda>rows. rows @ [log_row ms p i (t_epoch t) d]) (x_drop_log x)\<rparr>)
      else (False, x\<lparr>x_packet := p\<rparr>))"

lemma x_tracker_packet [simp]: "x_tracker (x\<lparr>x_packet := p\<rparr>) = x_tracker x"
  "x_tracker (x\<lparr>x_drop_log := l\<rparr>) = x_tracker x"
  by (simp_all add: x_tracker_def)

lemma proxy_front_det:
  assumes "px_det v x" and "px_good lib v (msg, ms, rnd, p)"
  shows "proxy_front lib ms rnd msg x =
    (case px_decided (ms 4) p x of (d, x') \<Rightarrow> proxy_forward lib ms rnd msg d x')"
  using assms
  by (auto simp: proxy_front_def proxy_hdx_def proxy_corrupt_def proxy_decide_def proxy_fits_def
      proxy_parse_def px_det_def px_good_def px_decided_def in_scope_def packet_frame_def
      packet_index_def proxy_index_eq log_row_def Let_def case_prod_beta split: option.split)

lemma packet_index_mtu [simp]:
  "t_dtp_mtu (snd (packet_index p t)) = t_dtp_mtu t"
  "t_dtp_overhead (snd (packet_index p t)) = t_dtp_overhead t"
  by (simp_all add: packet_index_def)

lemma x_tracker_decided [simp]:
  "x_tracker (with_tracker (snd (packet_index p (x_tracker x))) y) = snd (packet_index p (x_tracker x))"
  if "x_dtp_mtu y = x_dtp_mtu x" "x_dtp_overhead y = x_dtp_overhead x"
  using that by (intro x_tracker_with_tracker) (simp_all add: x_tracker_def)

interpretation proxy: drop_oracle "px_step lib" "px_good lib v" "px_det v" px_view x_rule x_tracker
  "\<lambda>x. the (x_drop_log x)" for lib v
proof (unfold_locales, goal_cases)
  case (1 x e)
  then show ?case
    by (cases e) (auto simp: proxy_front_det [of v] px_det_def px_decided_def case_prod_beta Let_def)
next
  case (2 x e)
  then show ?case by (cases e) (simp add: proxy_front_det [of v] px_decided_def case_prod_beta Let_def)
next
  case (3 x e ms p)
  then show ?case by (cases e) (simp add: proxy_front_det [of v] px_decided_def px_view_def)
next
  case (4 x e ms p i t')
  then show ?case
    using x_tracker_decided [of "x\<lparr>x_packet := p\<rparr>" x p]
    by (cases e) (auto simp: proxy_front_det [of v] px_decided_def px_view_def px_det_def case_prod_beta Let_def)
qed

text \<open>What reaches the subscribers and the counters, without delay simulation.\<close>

definition px_packet :: "px_event \<Rightarrow> csp_packet" where
  "px_packet e = snd (px_view e)"

definition px_rows :: "'q proxy \<Rightarrow> px_event list \<Rightarrow> drop_row list" where
  "px_rows x es = drop_rows (x_rule x) (x_tracker x) (map px_view es)"

definition px_verdicts :: "'q proxy \<Rightarrow> px_event list \<Rightarrow> bool list" where
  "px_verdicts x es = scope_verdicts (x_rule x) (map px_packet es) (map d_dropped (px_rows x es))"

definition kept_msgs :: "px_event list \<Rightarrow> bool list \<Rightarrow> bytes list" where
  "kept_msgs es vs = map (fst \<circ> fst) (filter (\<lambda>(e, v). \<not> v) (zip es vs))"

lemma px_step_opts:
  assumes "px_det v x" and "px_good lib v e"
  shows "x_opts (px_step lib e x) = x_opts x" "x_stop (px_step lib e x) = x_stop x"
  using assms
  by (cases e; simp add: proxy_front_det [of v] px_decided_def proxy_forward_def proxy_send_def proxy_enqueue_def
      with_tracker_def case_prod_beta Let_def split: option.split)+

lemma px_run_backend:
  assumes "px_det v x" and "o_delay_prob (x_opts x) \<le> 0" and "\<forall>e \<in> set es. px_good lib v e"
  shows "x_backend (fold (px_step lib) es x) = x_backend x @ kept_msgs es (px_verdicts x es) \<and>
    x_kept (fold (px_step lib) es x) = x_kept x + word_of_nat (length (kept_msgs es (px_verdicts x es))) \<and>
    x_drops (fold (px_step lib) es x) = x_drops x + word_of_nat (length (filter d_dropped (px_rows x es))) \<and>
    x_malformed (fold (px_step lib) es x) = x_malformed x"
  using assms
proof (induction es arbitrary: x)
  case Nil
  then show ?case by (simp add: kept_msgs_def px_rows_def)
next
  case (Cons e es)
  obtain msg ms rnd p where e: "e = (msg, ms, rnd, p)" by (cases e)
  let ?x = "px_step lib e x"
  have g: "px_good lib v e" using Cons.prems by simp
  have det: "px_det v ?x" by (rule proxy.step_ok [OF Cons.prems(1) g])
  have f: "proxy_front lib ms rnd msg x = (case px_decided (ms 4) p x of (d, x') \<Rightarrow> proxy_forward lib ms rnd msg d x')"
    using Cons.prems(1) g unfolding e by (rule proxy_front_det)
  have opts: "o_delay_prob (x_opts ?x) \<le> 0"
    using Cons.prems(2) by (simp add: e f px_decided_def case_prod_beta Let_def)
  note IH = Cons.IH [OF det opts]
  note r = proxy.step_rule [OF Cons.prems(1) g]
  obtain i t where it: "packet_index p (x_tracker x) = (i, t)" by fastforce
  have v: "px_view e = (ms 4, p)" "px_packet e = p" by (simp_all add: e px_view_def px_packet_def)
  show ?case
  proof (cases "in_scope (x_rule x) p")
    case True
    have t: "x_tracker ?x = t" using proxy.step_in [OF Cons.prems(1) g v(1) True it] by simp
    show ?thesis
      using IH Cons.prems True it t r
      by (simp add: px_rows_def px_verdicts_def kept_msgs_def v log_row_def)
        (simp add: e f px_decided_def proxy_forward_def proxy_send_def Let_def)
  next
    case False
    have t: "x_tracker ?x = x_tracker x" using proxy.step_out [OF Cons.prems(1) g v(1) False] by simp
    show ?thesis
      using IH Cons.prems False t r
      by (simp add: px_rows_def px_verdicts_def kept_msgs_def v)
        (simp add: e f px_decided_def proxy_forward_def proxy_send_def Let_def)
  qed
qed

text \<open>The packets of the messages that the proxy forwards.\<close>

lemma kept_parsed:
  assumes "\<forall>e \<in> set es. px_good lib v e" and "map px_packet es = map pk ks"
  shows "map (\<lambda>msg. pl_strip lib (take (nat (msg_datalen msg)) msg) old) (kept_msgs es (map D ks)) = map pk (filter (\<lambda>k. \<not> D k) ks)"
  using assms
proof (induction es arbitrary: ks)
  case (Cons e es)
  then obtain k ks' where k: "ks = k # ks'" "px_packet e = pk k" "map px_packet es = map pk ks'" by (cases ks) auto
  have "pl_strip lib (take (nat (msg_datalen (fst e))) (fst e)) old = pk k"
    using Cons.prems(1) k(2) by (auto simp: px_good_def px_packet_def px_view_def split: prod.splits)
  with Cons.IH [OF _ k(3)] Cons.prems(1) k(1) show ?case by (simp add: kept_msgs_def)
qed (simp add: kept_msgs_def)

text \<open>
  A run of the loop until Ctrl-C, with interrupts and with subscriptions from the backend in between:
  the messages of the frontend are handled as by the steps alone, the subscriptions are passed on.
\<close>

definition front_event :: "'q proxy_lib \<Rightarrow> csp_packet \<Rightarrow> poll_event \<Rightarrow> px_event option" where
  "front_event lib old ev = (case ev of Poll_Ready (Some msg) sub ms rnd \<Rightarrow>
     Some (msg, ms, rnd, pl_strip lib (take (nat (msg_datalen msg)) msg) old) | _ \<Rightarrow> None)"

definition back_message :: "poll_event \<Rightarrow> bytes option" where
  "back_message ev = (case ev of Poll_Ready front sub ms rnd \<Rightarrow> sub | _ \<Rightarrow> None)"

lemma px_step_frontend:
  assumes "px_det v x" and "px_good lib v (msg, ms, rnd, p)" and "o_delay_prob (x_opts x) \<le> 0"
  shows "proxy_front lib ms rnd msg (x\<lparr>x_frontend := f\<rparr>) = (False, (px_step lib (msg, ms, rnd, p) x)\<lparr>x_frontend := f\<rparr>)"
proof -
  have "px_det v (x\<lparr>x_frontend := f\<rparr>)" using assms(1) by (simp add: px_det_def)
  from proxy_front_det [OF this assms(2)] proxy_front_det [OF assms(1,2)] assms(3) show ?thesis
    by (simp add: px_decided_def proxy_forward_def proxy_send_def with_tracker_def x_tracker_def Let_def case_prod_beta)
qed

lemma proxy_loop_run:
  assumes "px_det v x" and "o_delay_prob (x_opts x) \<le> 0" and "\<not> x_stop x"
    and "\<forall>ev \<in> set evs. ev \<noteq> Sigint \<and> ev \<noteq> Poll_Error"
    and "\<forall>e \<in> set (List.map_filter (front_event lib old) evs). px_good lib v e"
  shows "proxy_loop lib (evs @ Sigint # rest) (x\<lparr>x_frontend := f\<rparr>) =
    Inl ((fold (px_step lib) (List.map_filter (front_event lib old) evs) x)
      \<lparr>x_frontend := f @ List.map_filter back_message evs, x_stop := True\<rparr>)"
  using assms
proof (induction evs arbitrary: x f)
  case Nil
  then show ?case by (cases rest) (simp_all add: List.map_filter_def)
next
  case (Cons ev evs)
  show ?case
  proof (cases ev)
    case Poll_Eintr
    with Cons show ?thesis by (simp add: List.map_filter_simps front_event_def back_message_def)
  next
    case (Poll_Ready front sub ms rnd)
    show ?thesis
    proof (cases front)
      case None
      with Poll_Ready Cons.prems Cons.IH [of x "f @ (case sub of Some m \<Rightarrow> [m] | None \<Rightarrow> [])"] show ?thesis
        by (cases sub) (simp_all add: List.map_filter_simps front_event_def back_message_def proxy_ready_def)
    next
      case (Some msg)
      define e where "e = (msg, ms, rnd, pl_strip lib (take (nat (msg_datalen msg)) msg) old)"
      have g: "px_good lib v e" using Cons.prems(5) Poll_Ready Some by (simp add: List.map_filter_simps front_event_def e_def)
      have det: "px_det v (px_step lib e x)" by (rule proxy.step_ok [OF Cons.prems(1) g])
      have f: "proxy_front lib ms rnd msg (x\<lparr>x_frontend := f\<rparr>) = (False, (px_step lib e x)\<lparr>x_frontend := f\<rparr>)"
        using px_step_frontend [OF Cons.prems(1) g [unfolded e_def] Cons.prems(2)] by (simp add: e_def)
      have o: "o_delay_prob (x_opts (px_step lib e x)) \<le> 0" "\<not> x_stop (px_step lib e x)"
        using px_step_opts [OF Cons.prems(1) g] Cons.prems(2,3) by simp_all
      from Cons.IH [OF det o, of "f @ (case sub of Some m \<Rightarrow> [m] | None \<Rightarrow> [])"] Cons.prems Poll_Ready Some f show ?thesis
        by (cases sub) (simp_all add: List.map_filter_simps front_event_def back_message_def proxy_ready_def e_def)
    qed
  qed (use Cons.prems in auto)
qed

lemma proxy_setup_fields:
  assumes "proxy_lossy_setup opt log_ok pk q = Inr x"
  shows "x_opts x = opt" "x_drop_log x = (if o_drop_log_name opt \<noteq> None then Some [] else None)"
    "x_backend x = []" "x_kept x = 0" "x_drops x = 0" "x_malformed x = 0" "x_delay_drops x = 0" "x_queue x = q"
    "x_tracker x = ci_flow_tracker_init_ovh (word_of_int (o_mtu_arg opt)) (word_of_int (o_overhead_arg opt))"
    "r_match_dport (x_rule x) = o_match_dport opt" "r_drop_probability (x_rule x) = o_loss_prob opt"
    "r_replay_vector (x_rule x) = None"
    "4 \<le> o_overhead_arg opt" "o_overhead_arg opt < o_mtu_arg opt"
  using assms
  by (auto simp: proxy_lossy_setup_def x_tracker_def ci_flow_tracker_init_ovh_def CI_DTP_OFFSET_SIZE_def
      split: if_splits)

lemma lossy_run_ended:
  assumes "proxy_lossy_setup opt log_ok pk q = Inr x" and "px_det v x" and "o_delay_prob opt \<le> 0"
    and "\<forall>ev \<in> set evs. ev \<noteq> Sigint \<and> ev \<noteq> Poll_Error"
    and "es = List.map_filter (front_event lib old) evs" and "\<forall>e \<in> set es. px_good lib v e"
    and "x' = fold (px_step lib) es x"
  shows "\<exists>x''. zmq_proxy_lossy lib opt log_ok (Some pk) q (evs @ Sigint # rest) =
      Inr (Some Deterministic_Loss, Lossy_Ended (x_drop_log x') x'' (x_kept x') (x_drops x') (x_delay_drops x') (x_malformed x')) \<and>
    x_backend x'' = x_backend x' \<and> x_frontend x'' = List.map_filter back_message evs"
proof -
  have x: "x_frontend x = []" "\<not> x_stop x" "x_opts x = opt"
    using assms(1) by (auto simp: proxy_lossy_setup_def split: if_splits)
  then have "x\<lparr>x_frontend := []\<rparr> = x" by simp
  then have "proxy_loop lib (evs @ Sigint # rest) x =
      Inl (x'\<lparr>x_frontend := List.map_filter back_message evs, x_stop := True\<rparr>)"
    using proxy_loop_run [OF assms(2) _ x(2) assms(4) assms(6) [unfolded assms(5)], where f = "[]"] assms(3) x(3)
    by (simp add: assms(5,7))
  moreover have "proxy_banner opt = Some Deterministic_Loss" using assms(2) x(3) by (simp add: px_det_def proxy_banner_def)
  ultimately show ?thesis using assms(1) by (simp add: zmq_proxy_lossy_def proxy_shutdown_def)
qed

text \<open>Corruption keeps the length, so it does not change whether a frame fits.\<close>

lemma length_proxy_corrupt [simp]: "length (proxy_corrupt rnd c msg) = length msg"
  by (simp add: proxy_corrupt_def Let_def)

lemma proxy_fits_corrupt [simp]: "proxy_fits lib (proxy_corrupt rnd c msg) x = proxy_fits lib msg x"
  by (simp add: proxy_fits_def msg_datalen_def)

section \<open>Properties\<close>

text \<open>
  Property C9. The proxy in its deterministic mode (\<open>-M\<close> with a log, without half-duplex, corruption
  and delay simulation). For every sequence of messages that are complete frames within the packet
  buffer: the drop log is the reference for the packets they carry; exactly the messages that the
  reference does not drop reach the subscribers, byte for byte and in order; and the kept and
  dropped counters (modulo \<open>2^64\<close>) agree with them.
\<close>

theorem proxy_reference_run:
  assumes "proxy_lossy_setup opt log_ok pk q = Inr x" and "px_det v x" and "o_delay_prob opt \<le> 0"
    and "\<forall>e \<in> set es. px_good lib v e"
    and "rows = drop_rows (x_rule x)
      (ci_flow_tracker_init_ovh (word_of_int (o_mtu_arg opt)) (word_of_int (o_overhead_arg opt))) (map px_view es)"
    and "kept = kept_msgs es (scope_verdicts (x_rule x) (map px_packet es) (map d_dropped rows))"
  shows "x_drop_log (fold (px_step lib) es x) = Some rows \<and> x_backend (fold (px_step lib) es x) = kept \<and>
    x_kept (fold (px_step lib) es x) = word_of_nat (length kept) \<and>
    x_drops (fold (px_step lib) es x) = word_of_nat (length (filter d_dropped rows))"
proof -
  note x = proxy_setup_fields [OF assms(1)]
  have rows: "rows = px_rows x es" using assms(5) x by (simp add: px_rows_def)
  have kept: "kept = kept_msgs es (px_verdicts x es)" using assms(6) rows by (simp add: px_verdicts_def)
  have "px_det v (fold (px_step lib) es x)"
    by (rule proxy.run_ok [OF assms(2,4)])
  moreover have "the (x_drop_log (fold (px_step lib) es x)) = rows"
    using proxy.run_rows [OF assms(2,4)] assms(2) x
    by (auto simp: rows px_rows_def px_det_def split: if_splits)
  ultimately have "x_drop_log (fold (px_step lib) es x) = Some rows" by (auto simp: px_det_def)
  then show ?thesis
    using px_run_backend [OF assms(2) _ assms(4)] assms(3) x unfolding kept rows by simp
qed

text \<open>
  A concrete library for the examples: a six-byte header whose first four bytes are the source, the
  destination, the destination port and the flags, 256 bytes of data, and a queue of 1024 messages.
\<close>

definition demo_lib :: "delayed_msg list proxy_lib" where
  "demo_lib = \<lparr>pl_strip = (\<lambda>bs old. if length bs < 6 then old
       else \<lparr>c_src = ucast (bs ! 0), c_dst = ucast (bs ! 1), c_dport = ucast (bs ! 2), c_flags = bs ! 3,
         c_data = drop 6 bs\<rparr>),
     pl_data_size = 256,
     pl_enqueue = (\<lambda>m q. if length q < 1024 then Some (q @ [m]) else None),
     pl_dequeue = (\<lambda>q. case q of [] \<Rightarrow> None | m # q' \<Rightarrow> Some (m, q')),
     pl_size = length\<rparr>"

definition demo_opts :: proxy_opts where
  "demo_opts = proxy_defaults\<lparr>o_match_dport := 8, o_enable_lossy := True, o_loss_prob := 1,
     o_drop_log_name := Some ''drops.csv''\<rparr>"

definition demo_packet :: csp_packet where
  "demo_packet = \<lparr>c_src = 0, c_dst = 0, c_dport = 0, c_flags = 0, c_data = []\<rparr>"

definition demo_proxy :: "proxy_opts \<Rightarrow> delayed_msg list proxy" where
  "demo_proxy opt = (case proxy_lossy_setup opt True demo_packet [] of Inr x \<Rightarrow> x)"

definition demo_event :: "u8 \<Rightarrow> u32 \<Rightarrow> px_event" where
  "demo_event dport i =
     ([1, 2, dport, 0, 0, 0] @ ci_gen_dtp_payload 196 i, (\<lambda>k. 50), (\<lambda>k. 1),
      \<lparr>c_src = 1, c_dst = 2, c_dport = ucast dport, c_flags = 0, c_data = ci_gen_dtp_payload 196 i\<rparr>)"

lemma demo_event_good: "px_good demo_lib 2 (demo_event dport i)"
proof -
  let ?m = "[1, 2, dport, 0, 0, 0] @ ci_gen_dtp_payload 196 i"
  have "msg_datalen ?m = 14" unfolding msg_datalen_def ci_gen_dtp_payload_def Let_def by simp
  moreover have "take 14 ?m = ?m" by (simp add: ci_gen_dtp_payload_def Let_def)
  ultimately show ?thesis
    by (simp add: px_good_def demo_event_def proxy_frame_fits_def demo_lib_def)
qed

text \<open>A packet on the wire, in the format of the concrete library.\<close>

definition wire_event :: "csp_packet \<Rightarrow> px_event" where
  "wire_event p = ([ucast (c_src p), ucast (c_dst p), ucast (c_dport p), c_flags p, 0, 0] @ c_data p, (\<lambda>k. 50), (\<lambda>k. 1), p)"

lemma px_packet_wire [simp]: "px_packet (wire_event p) = p"
  by (simp add: px_packet_def px_view_def wire_event_def)

lemma wire_event_good:
  assumes "unat (c_src p) < 256" "unat (c_dst p) < 256" "unat (c_dport p) < 256" "length (c_data p) = 8"
  shows "px_good demo_lib 2 (wire_event p)"
proof -
  let ?m = "fst (wire_event p)"
  have "(ucast (ucast w :: u8) :: u16) = w" if "unat w < 256" for w :: u16
    using that by (simp add: word_unat_eq_iff unsigned_ucast_eq unsigned_take_bit_eq take_bit_nat_eq_self)
  moreover have "msg_datalen ?m = 14" using assms(4) by (simp add: msg_datalen_def wire_event_def)
  ultimately show ?thesis using assms
    by (simp add: px_good_def wire_event_def proxy_frame_fits_def demo_lib_def)
qed

theorem proxy_reference_run_witness:
  "x_backend (fold (px_step demo_lib) [demo_event 8 0, demo_event 9 1, demo_event 8 2] (demo_proxy demo_opts))
     = [fst (demo_event 9 1)] \<and>
   x_drops (fold (px_step demo_lib) [demo_event 8 0, demo_event 9 1, demo_event 8 2] (demo_proxy demo_opts)) = 2"
proof -
  let ?es = "[demo_event 8 0, demo_event 9 1, demo_event 8 2]" and ?x = "demo_proxy demo_opts"
  have s: "proxy_lossy_setup demo_opts True demo_packet [] = Inr ?x" by code_simp
  have d: "px_det 2 ?x" by code_simp
  have p: "o_delay_prob demo_opts \<le> 0" by code_simp
  let ?rows = "drop_rows (x_rule ?x) (ci_flow_tracker_init_ovh (word_of_int (o_mtu_arg demo_opts))
    (word_of_int (o_overhead_arg demo_opts))) (map px_view ?es)"
  have r: "map d_dropped ?rows = [True, True]" "length (filter d_dropped ?rows) = 2" by code_simp+
  have k: "[fst (demo_event 9 1)] = kept_msgs ?es (scope_verdicts (x_rule ?x) (map px_packet ?es) (map d_dropped ?rows))"
    unfolding r by code_simp
  have "\<forall>e \<in> set ?es. px_good demo_lib 2 e" by (simp add: demo_event_good)
  from proxy_reference_run [OF s d p this refl k] show ?thesis unfolding r by simp
qed

text \<open>
  The proxy's own flow index is the library's: with the tracker's five fields as globals
  it computes the same key and the same next state as \<open>ci_flow_index\<close> on every packet.
\<close>

theorem proxy_index_is_library:
  "proxy_flow_index p f x = (fst (ci_flow_index (Some (x_tracker x)) (Some f) (Some (c_data p))),
     with_tracker (the (snd (ci_flow_index (Some (x_tracker x)) (Some f) (Some (c_data p))))) x)"
  by (simp add: proxy_index_eq ci_flow_index_def case_prod_beta Let_def)

text \<open>
  Property C36. No frame overflows the packet buffer. Handling a message of any length depends on
  \<open>csp_id_strip\<close> only through inputs of at most the data size plus the header size, so nothing longer
  is copied into the packet; and a frame that is too long is counted as malformed and goes nowhere
  whenever the proxy would have to parse it.
\<close>

theorem proxy_oversize_safe:
  assumes "\<forall>bs old. length bs \<le> pl_data_size lib + (if o_version (x_opts x) = 2 then 6 else 4) \<longrightarrow>
      strip' bs old = pl_strip lib bs old"
  shows "proxy_front (lib\<lparr>pl_strip := strip'\<rparr>) ms rnd msg x = proxy_front lib ms rnd msg x \<and>
    (\<not> proxy_fits lib msg x \<and>
      (o_match_dport (x_opts x) \<ge> 0 \<or> o_hdx_node (x_opts x) \<noteq> 0) \<longrightarrow>
      proxy_front lib ms rnd msg x = (True, proxy_reject x))"
proof -
  let ?lib = "lib\<lparr>pl_strip := strip'\<rparr>"
  have parse: "proxy_parse ?lib m y = proxy_parse lib m y"
    if "proxy_fits lib m y" "x_opts y = x_opts x" for m y
  proof -
    have "length (take (nat (msg_datalen m)) m) \<le> pl_data_size lib + (if o_version (x_opts x) = 2 then 6 else 4)"
      using that by (auto simp: proxy_fits_def proxy_frame_fits_def Let_def split: if_splits)
    with assms show ?thesis by (simp add: proxy_parse_def)
  qed
  have fits: "proxy_fits ?lib m y = proxy_fits lib m y" for m y by (simp add: proxy_fits_def)
  have enq: "proxy_enqueue ?lib dm y = proxy_enqueue lib dm y" for dm y by (simp add: proxy_enqueue_def)
  have hdx: "proxy_hdx ?lib ms msg x = proxy_hdx lib ms msg x"
    using parse [of msg x] by (simp add: proxy_hdx_def fits enq Let_def)
  have opts: "x_opts (snd (proxy_hdx lib ms msg x)) = x_opts x"
    by (simp add: proxy_hdx_def proxy_reject_def proxy_parse_def Let_def)
  have "proxy_decide ?lib ms rnd m y = proxy_decide lib ms rnd m y" if "x_opts y = x_opts x" for m y
    using parse [of m y] that by (simp add: proxy_decide_def fits Let_def)
  moreover have "proxy_forward ?lib ms rnd m d y = proxy_forward lib ms rnd m d y" for m d y
    by (simp add: proxy_forward_def enq)
  ultimately have "proxy_front ?lib ms rnd msg x = proxy_front lib ms rnd msg x"
    using opts by (simp add: proxy_front_def hdx case_prod_beta Let_def)
  moreover have "proxy_front lib ms rnd msg x = (True, proxy_reject x)"
    if "\<not> proxy_fits lib msg x"
      "o_match_dport (x_opts x) \<ge> 0 \<or> o_hdx_node (x_opts x) \<noteq> 0"
    using that by (auto simp: proxy_front_def proxy_hdx_def proxy_decide_def)
  ultimately show ?thesis by blast
qed

theorem proxy_oversize_safe_witness:
  "proxy_front demo_lib (\<lambda>k. 0) (\<lambda>k. 0) (replicate 263 0) (demo_proxy demo_opts) =
     (True, proxy_reject (demo_proxy demo_opts))"
proof -
  have f: "\<not> proxy_fits demo_lib (replicate 263 0) (demo_proxy demo_opts)" by code_simp
  have o: "o_match_dport (x_opts (demo_proxy demo_opts)) \<ge> 0"
    by code_simp
  from proxy_oversize_safe [of demo_lib "demo_proxy demo_opts" "pl_strip demo_lib" "\<lambda>k. 0" "\<lambda>k. 0" "replicate 263 0"]
    f o show ?thesis by blast
qed

text \<open>
  The guard on the header overhead. Once the set-up has accepted \<open>-m\<close> and \<open>-H\<close>, an MTU below
  65536 gives every DTP data packet the fragment number of its byte offset. The guard compares the
  numbers before they are cut to 16 bits, though: an MTU of 65536 or more whose low 16 bits do not
  exceed the overhead is accepted as well, and then every data packet is keyed 0.
\<close>

theorem proxy_overhead_guard:
  assumes "proxy_lossy_setup opt log_ok pk q = Inr x" and "\<not> f_is_rdp f"
  shows "(o_mtu_arg opt < 65536 \<longrightarrow> c_data p = le32_bytes_of off @ rest \<longrightarrow>
      unat (fst (proxy_flow_index p f x)) = unat off div nat (o_mtu_arg opt - o_overhead_arg opt)) \<and>
    (o_mtu_arg opt mod 65536 \<le> o_overhead_arg opt \<longrightarrow> o_overhead_arg opt < 65536 \<longrightarrow>
      fst (proxy_flow_index p f x) = 0)"
proof -
  note x = proxy_setup_fields(9,13,14) [OF assms(1)]
  have t: "t_dtp_mtu (x_tracker x) = word_of_int (o_mtu_arg opt)"
    "t_dtp_overhead (x_tracker x) = word_of_int (o_overhead_arg opt)"
    using x by (simp_all add: ci_flow_tracker_init_ovh_def)
  have "fst (proxy_flow_index p f x) = fst (ci_flow_index_body f (Some (c_data p)) (x_tracker x))"
    by (simp add: proxy_index_eq case_prod_beta Let_def)
  then show ?thesis using flow_index_int_args [OF assms(2) _ _ t] x by simp
qed

theorem proxy_overhead_guard_witness:
  "\<exists>x. proxy_lossy_setup (demo_opts\<lparr>o_mtu_arg := 65736, o_overhead_arg := 300\<rparr>) True demo_packet [] = Inr (x :: delayed_msg list proxy) \<and>
     fst (proxy_flow_index (px_packet (demo_event 8 5)) (packet_frame (px_packet (demo_event 8 5))) x) = 0 \<and>
     unat (fst (proxy_flow_index (px_packet (demo_event 8 5)) (packet_frame (px_packet (demo_event 8 5))) (demo_proxy demo_opts))) = 5"
proof -
  let ?bad = "demo_opts\<lparr>o_mtu_arg := 65736, o_overhead_arg := 300\<rparr>" and ?p = "px_packet (demo_event 8 5)"
  have b: "proxy_lossy_setup ?bad True demo_packet [] = Inr (demo_proxy ?bad)" by code_simp
  have g: "proxy_lossy_setup demo_opts True demo_packet [] = Inr (demo_proxy demo_opts)" by code_simp
  have f: "\<not> f_is_rdp (packet_frame ?p)" by code_simp
  have d: "c_data ?p = le32_bytes_of 980 @ [0xDE, 0xAD, 0xBE, 0xEF]" by code_simp
  have o: "o_mtu_arg ?bad = 65736" "o_overhead_arg ?bad = 300" "o_mtu_arg demo_opts = 200" "o_overhead_arg demo_opts = 4"
    by code_simp+
  show ?thesis
    using proxy_overhead_guard [OF b f, of ?p] proxy_overhead_guard [OF g f, of ?p 980] b d unfolding o by simp
qed

lemma rand_unit_pos: "0 < rand_unit r \<longleftrightarrow> r \<noteq> 0"
proof (cases "r = 0")
  case False
  then have "1 / 2147483647 \<le> of_nat r / (2147483647 :: rat)" by (simp add: divide_right_mono)
  moreover have "2 powi (- 1022) \<le> (1 / 2147483647 :: rat)" by (simp add: power_int_minus field_simps)
  ultimately have b: "2 powi (- 1022) \<le> of_nat r / (2147483647 :: rat)" by linarith
  have "0 < d64_round (of_nat r / 2147483647)"
    using d64_round_error_pos(2,3) [OF b] by linarith
  with False show ?thesis by (simp add: rand_unit_def d64_div_def RAND_MAX_def)
qed (simp add: rand_unit_def d64_div_def)

text \<open>
  The legacy loss mode does not honour a loss of 0. Without \<open>-M\<close> a message is dropped unless
  the random number exceeds the probability, so a proxy that was only asked to corrupt or delay
  packets (loss probability 0) still drops a message whenever \<open>rand\<close> returns 0.
\<close>

theorem proxy_legacy_zero_loss:
  assumes "o_match_dport (x_opts x) < 0" and "o_loss_prob (x_opts x) = 0"
  shows "proxy_decide lib ms rnd msg x = (False, rnd 3 = 0, x)"
  using assms rand_unit_pos [of "rnd 3"] by (auto simp: proxy_decide_def)

theorem proxy_legacy_zero_loss_witness:
  "proxy_decide demo_lib (\<lambda>k. 0) (\<lambda>k. 0) [1, 2, 3] (demo_proxy (proxy_defaults\<lparr>o_corr_prob := 1 / 2\<rparr>)) =
     (False, True, demo_proxy (proxy_defaults\<lparr>o_corr_prob := 1 / 2\<rparr>))"
proof -
  let ?x = "demo_proxy (proxy_defaults\<lparr>o_corr_prob := 1 / 2\<rparr>)"
  have "o_match_dport (x_opts ?x) < 0" "o_loss_prob (x_opts ?x) = 0" by code_simp+
  from proxy_legacy_zero_loss [OF this] show ?thesis by simp
qed

text \<open>Corruption flips exactly one bit of a message that is not empty.\<close>

lemma proxy_corrupt_one_bit:
  assumes "0 < c" and "rand_unit (rnd 0) < c" and "0 < length msg" and "length msg < 2 ^ 32"
  shows "\<exists>i < length msg. \<exists>b < 8. proxy_corrupt rnd c msg = msg[i := flip_bit b (msg ! i)]"
proof -
  have "unat (word_of_nat (length msg) :: u32) = length msg" by (rule unat_pos32 [OF assms(4)])
  then have "proxy_corrupt rnd c msg =
      msg[rnd 1 mod length msg := flip_bit (rnd 2 mod 8) (msg ! (rnd 1 mod length msg))]"
    using assms by (simp add: proxy_corrupt_def flip_bit_eq_xor Let_def)
  moreover have "rnd 1 mod length msg < length msg" "rnd 2 mod 8 < 8" using assms(3) by simp_all
  ultimately show ?thesis by blast
qed

end
