(* ===== verification/PX_Delay.thy ===== *)
theory PX_Delay
  imports PX_Proxy
begin

text \<open>
  The delay worker of \<open>src/proxy/zmqproxy.c\<close> (\<open>task_delay_send\<close>) and its interleaving with the main
  thread. The worker is a program counter beside the shared state; one step of it is one queue
  operation or one send, which libcsp's queue makes atomic. The queue itself is a parameter; what
  the proxy relies on is that it is a bounded first-in first-out queue.
\<close>

section \<open>The worker\<close>

text \<open>
  \<open>W_Front\<close> is the label \<open>front\<close>, \<open>W_Loop i n\<close> the test of the inner loop, \<open>W_Hold i n m\<close> the point after the
  dequeue. \<open>W_Garbage\<close> is the use of a message that \<open>csp_queue_dequeue\<close> did not fill in.
\<close>

datatype worker = W_Front | W_Loop nat nat | W_Hold nat nat delayed_msg | W_Garbage

definition delay_sent :: "u32 \<Rightarrow> delayed_msg \<Rightarrow> 'q proxy \<Rightarrow> 'q proxy" where
  "delay_sent now m x =
     (let x = proxy_send (dm_msg m) x
      in if dm_hdx m then x\<lparr>x_hdx_last_tx := sint now, x_hdx_powerup_start := 0\<rparr> else x)"

text \<open>One step; \<open>ms\<close> are the values of the two \<open>csp_get_ms\<close> calls.\<close>

fun task_delay_send :: "'q proxy_lib \<Rightarrow> (nat \<Rightarrow> u32) \<Rightarrow> worker \<Rightarrow> 'q proxy \<Rightarrow> worker \<times> 'q proxy" where
  "task_delay_send lib ms W_Front x = (W_Loop 0 (pl_size lib (x_queue x)), x)"
| "task_delay_send lib ms (W_Loop i n) x =
     (if i < n
      then (case pl_dequeue lib (x_queue x) of
              Some (m, q) \<Rightarrow> (W_Hold i n m, x\<lparr>x_queue := q\<rparr>)
            | None \<Rightarrow> (W_Garbage, x))
      else (W_Front, x))"
| "task_delay_send lib ms (W_Hold i n m) x =
     (if ms 0 > dm_timestamp_tx m then (W_Front, delay_sent (ms 1) m x)
      else (case pl_enqueue lib m (x_queue x) of
              Some q \<Rightarrow> (W_Loop (Suc i) n, x\<lparr>x_queue := q\<rparr>)
            | None \<Rightarrow> (W_Loop (Suc i) n, x)))"
| "task_delay_send lib ms W_Garbage x = (W_Garbage, x)"

text \<open>
  The start of the two threads: the seed of \<open>rand\<close> (\<open>now\<close> is \<open>time(NULL)\<close>) and the condition under which
  the worker is created.
\<close>

definition proxy_srand :: "proxy_opts \<Rightarrow> u32 \<Rightarrow> u32" where
  "proxy_srand opt now = (if o_seed opt \<noteq> 0 then word_of_int (o_seed opt) else now)"

definition delay_worker_starts :: "proxy_opts \<Rightarrow> bool" where
  "delay_worker_starts opt \<longleftrightarrow> o_delay_prob opt > 0 \<or> o_delay_ms opt > 0 \<or> o_hdx_node opt \<noteq> 0"

section \<open>The two threads\<close>

text \<open>The queue the proxy relies on: first in, first out, with room for \<open>cap\<close> messages.\<close>

definition fifo :: "'q proxy_lib \<Rightarrow> nat \<Rightarrow> ('q \<Rightarrow> delayed_msg list) \<Rightarrow> bool" where
  "fifo lib cap items \<longleftrightarrow>
     (\<forall>m q. case pl_enqueue lib m q of
        Some q' \<Rightarrow> length (items q) < cap \<and> items q' = items q @ [m]
      | None \<Rightarrow> cap \<le> length (items q)) \<and>
     (\<forall>q. case pl_dequeue lib q of Some (m, q') \<Rightarrow> items q = m # items q' | None \<Rightarrow> items q = []) \<and>
     (\<forall>q. pl_size lib q = length (items q))"

text \<open>
  The two ways in which a message disappears without being counted: the half-duplex simulation
  discards a message to a node that is transmitting, and the worker fails to put a message back.
\<close>

definition hdx_rx_drop :: "'q proxy_lib \<Rightarrow> (nat \<Rightarrow> u32) \<Rightarrow> bytes \<Rightarrow> 'q proxy \<Rightarrow> bool" where
  "hdx_rx_drop lib ms msg x \<longleftrightarrow>
     (let x1 = proxy_parse lib msg x; node = o_hdx_node (x_opts x);
          late = (uint (c_src (x_packet x1)) = node \<and>
            ms 0 > word_of_int (x_hdx_last_tx x + o_hdx_powerdown_delay (x_opts x)))
      in node \<noteq> 0 \<and> proxy_fits lib msg x \<and> \<not> late \<and> fst (proxy_hdx lib ms msg x))"

fun requeue_fails :: "'q proxy_lib \<Rightarrow> (nat \<Rightarrow> u32) \<Rightarrow> worker \<Rightarrow> 'q proxy \<Rightarrow> bool" where
  "requeue_fails lib ms (W_Hold i n m) x \<longleftrightarrow>
     \<not> ms 0 > dm_timestamp_tx m \<and> pl_enqueue lib m (x_queue x) = None"
| "requeue_fails lib ms _ x \<longleftrightarrow> False"

text \<open>
  Reachable states of the two threads from \<open>x0\<close>, with the number \<open>n\<close> of messages received and the
  numbers of messages that disappeared: \<open>r\<close> at the half-duplex receiver and \<open>l\<close> when the worker
  failed to put a message back.
\<close>

inductive proxy_sys :: "'q proxy_lib \<Rightarrow> 'q proxy \<Rightarrow> nat \<Rightarrow> nat \<Rightarrow> nat \<Rightarrow> worker \<Rightarrow> 'q proxy \<Rightarrow> bool" for lib x0 where
  start: "proxy_sys lib x0 0 0 0 W_Front x0"
| main: "proxy_sys lib x0 n r l w x \<Longrightarrow>
    proxy_sys lib x0 (Suc n) (r + of_bool (hdx_rx_drop lib ms msg x)) l w (snd (proxy_front lib ms rnd msg x))"
| worker: "proxy_sys lib x0 n r l w x \<Longrightarrow> task_delay_send lib ms w x = (w', x') \<Longrightarrow>
    proxy_sys lib x0 n r (l + of_bool (requeue_fails lib ms w x)) w' x'"

section \<open>Conservation of messages\<close>

fun held :: "worker \<Rightarrow> nat" where
  "held (W_Hold i n m) = 1"
| "held _ = 0"

fun worker_ok :: "nat \<Rightarrow> worker \<Rightarrow> bool" where
  "worker_ok k W_Front \<longleftrightarrow> True"
| "worker_ok k (W_Loop i n) \<longleftrightarrow> n - i \<le> k"
| "worker_ok k (W_Hold i n m) \<longleftrightarrow> n - Suc i \<le> k"
| "worker_ok k W_Garbage \<longleftrightarrow> False"

definition accounted :: "('q \<Rightarrow> delayed_msg list) \<Rightarrow> 'q proxy \<Rightarrow> u64" where
  "accounted items x = word_of_nat (length (x_backend x)) + x_drops x + x_delay_drops x + x_malformed x +
     word_of_nat (length (items (x_queue x)))"

lemma fifo_enqueue:
  assumes "fifo lib cap items"
  shows "pl_enqueue lib m q = Some q' \<Longrightarrow> items q' = items q @ [m] \<and> length (items q) < cap"
    and "pl_enqueue lib m q = None \<Longrightarrow> cap \<le> length (items q)"
proof -
  have "case pl_enqueue lib m q of Some q' \<Rightarrow> length (items q) < cap \<and> items q' = items q @ [m]
      | None \<Rightarrow> cap \<le> length (items q)"
    using assms by (simp add: fifo_def)
  then show "pl_enqueue lib m q = Some q' \<Longrightarrow> items q' = items q @ [m] \<and> length (items q) < cap"
    and "pl_enqueue lib m q = None \<Longrightarrow> cap \<le> length (items q)" by simp_all
qed

lemma fifo_dequeue:
  assumes "fifo lib cap items"
  shows "pl_dequeue lib q = Some (m, q') \<Longrightarrow> items q = m # items q'"
    and "pl_dequeue lib q = None \<Longrightarrow> items q = []"
    and "pl_size lib q = length (items q)"
proof -
  have "case pl_dequeue lib q of Some (m, q') \<Rightarrow> items q = m # items q' | None \<Rightarrow> items q = []"
    and "pl_size lib q = length (items q)"
    using assms by (simp_all add: fifo_def)
  then show "pl_dequeue lib q = Some (m, q') \<Longrightarrow> items q = m # items q'"
    and "pl_dequeue lib q = None \<Longrightarrow> items q = []" and "pl_size lib q = length (items q)" by simp_all
qed

lemma accounted_enqueue:
  assumes "fifo lib cap items"
  shows "accounted items (proxy_enqueue lib dm x) = accounted items x + 1"
    and "x_queue x = q \<Longrightarrow> length (items q) \<le> length (items (x_queue (proxy_enqueue lib dm x)))"
  using fifo_enqueue [OF assms, of dm "x_queue x"]
  by (auto simp: accounted_def proxy_enqueue_def split: option.split)

lemma accounted_forward:
  assumes "fifo lib cap items"
  shows "accounted items (snd (proxy_forward lib ms rnd msg d x)) = accounted items x + 1"
    and "length (items (x_queue x)) \<le> length (items (x_queue (snd (proxy_forward lib ms rnd msg d x))))"
  using accounted_enqueue [OF assms]
  by (auto simp: proxy_forward_def proxy_send_def accounted_def Let_def)

lemma accounted_decide:
  "accounted items (snd (snd (proxy_decide lib ms rnd msg x))) =
     accounted items x + of_bool (fst (proxy_decide lib ms rnd msg x))"
  "x_queue (snd (snd (proxy_decide lib ms rnd msg x))) = x_queue x"
  by (auto simp: proxy_decide_def proxy_reject_def proxy_parse_def proxy_index_eq accounted_def
      case_prod_beta Let_def split: option.split)

lemma accounted_hdx:
  assumes "fifo lib cap items"
  shows "accounted items (snd (proxy_hdx lib ms msg x)) =
      accounted items x + of_bool (fst (proxy_hdx lib ms msg x)) - of_bool (hdx_rx_drop lib ms msg x)"
    and "length (items (x_queue x)) \<le> length (items (x_queue (snd (proxy_hdx lib ms msg x))))"
proof -
  have f: "accounted items (y\<lparr>x_packet := a\<rparr>) = accounted items y"
    "accounted items (y\<lparr>x_hdx_powerup_start := b\<rparr>) = accounted items y"
    "accounted items (y\<lparr>x_hdx_last_tx := b\<rparr>) = accounted items y"
    "accounted items (y\<lparr>x_malformed := x_malformed y + 1\<rparr>) = accounted items y + 1" for y a b
    by (simp_all add: accounted_def)
  show "accounted items (snd (proxy_hdx lib ms msg x)) =
      accounted items x + of_bool (fst (proxy_hdx lib ms msg x)) - of_bool (hdx_rx_drop lib ms msg x)"
    by (simp add: proxy_hdx_def hdx_rx_drop_def proxy_reject_def proxy_parse_def Let_def f
        accounted_enqueue [OF assms])
  show "length (items (x_queue x)) \<le> length (items (x_queue (snd (proxy_hdx lib ms msg x))))"
    using accounted_enqueue(2) [OF assms]
    by (auto simp: proxy_hdx_def proxy_reject_def proxy_parse_def Let_def)
qed

lemma accounted_front:
  assumes "fifo lib cap items"
  shows "accounted items (snd (proxy_front lib ms rnd msg x)) =
      accounted items x + 1 - of_bool (hdx_rx_drop lib ms msg x)"
    and "length (items (x_queue x)) \<le> length (items (x_queue (snd (proxy_front lib ms rnd msg x))))"
proof -
  let ?h = "proxy_hdx lib ms msg x" and ?m = "proxy_corrupt rnd (o_corr_prob (x_opts (snd (proxy_hdx lib ms msg x)))) msg"
  have no: "\<not> fst ?h \<Longrightarrow> \<not> hdx_rx_drop lib ms msg x" by (simp add: hdx_rx_drop_def Let_def)
  note facts = accounted_hdx [OF assms, where ms = ms and msg = msg and x = x] accounted_forward [OF assms]
    accounted_decide(1) [of items lib ms rnd ?m "snd ?h"] accounted_decide(2) [of lib ms rnd ?m "snd ?h"]
  show "accounted items (snd (proxy_front lib ms rnd msg x)) =
      accounted items x + 1 - of_bool (hdx_rx_drop lib ms msg x)"
    using facts no by (auto simp: proxy_front_def case_prod_beta Let_def)
  show "length (items (x_queue x)) \<le> length (items (x_queue (snd (proxy_front lib ms rnd msg x))))"
    using facts(2) facts(4) [where x = "snd (snd (proxy_decide lib ms rnd ?m (snd ?h)))"] facts(6)
    by (auto simp: proxy_front_def case_prod_beta Let_def intro: order_trans)
qed

lemma worker_step_ok:
  assumes "fifo lib cap items" and "worker_ok (length (items (x_queue x))) w"
    and "task_delay_send lib ms w x = (w', x')"
  shows "worker_ok (length (items (x_queue x'))) w' \<and>
    accounted items x' + word_of_nat (held w') + of_bool (requeue_fails lib ms w x) =
      accounted items x + word_of_nat (held w)"
proof (cases w)
  case W_Front
  with assms show ?thesis by (auto simp: fifo_dequeue(3) [OF assms(1)])
next
  case (W_Loop i n)
  then show ?thesis
    using assms(2,3) fifo_dequeue [OF assms(1), of "x_queue x"]
    by (auto simp: accounted_def split: if_splits option.splits)
next
  case (W_Hold i n m)
  then show ?thesis
    using assms(2,3) fifo_enqueue [OF assms(1), of m "x_queue x"]
    by (auto simp: accounted_def delay_sent_def proxy_send_def Let_def split: if_splits option.splits)
next
  case W_Garbage
  with assms(2) show ?thesis by simp
qed

lemma worker_ok_mono: "worker_ok k w \<Longrightarrow> k \<le> k' \<Longrightarrow> worker_ok k' w"
  by (cases w) auto

lemma proxy_sys_conserves:
  assumes "proxy_sys lib x0 n r l w x" and "fifo lib cap items" and "accounted items x0 = 0"
  shows "worker_ok (length (items (x_queue x))) w \<and>
    word_of_nat n = accounted items x + word_of_nat (held w) + word_of_nat r + word_of_nat l"
  using assms(1)
proof induction
  case start
  then show ?case using assms(3) by simp
next
  case (main n r l w x ms msg rnd)
  then show ?case
    using accounted_front [OF assms(2), where ms = ms and rnd = rnd and msg = msg and x = x] worker_ok_mono by (auto simp: algebra_simps)
next
  case (worker n r l w x ms w' x')
  then show ?case
    using worker_step_ok [OF assms(2) _ worker.hyps(2)] by (auto simp: algebra_simps)
qed

section \<open>Filling the queue\<close>

text \<open>Options under which every message is delayed by the same time and nothing else happens to it.\<close>

definition always_delay :: "proxy_opts \<Rightarrow> bool" where
  "always_delay opt \<longleftrightarrow> o_hdx_node opt = 0 \<and> o_corr_prob opt \<le> 0 \<and> o_match_dport opt < 0 \<and>
     o_loss_prob opt = 0 \<and> 1 / 2 \<le> o_delay_prob opt"

definition delayed :: "proxy_opts \<Rightarrow> bytes \<Rightarrow> delayed_msg" where
  "delayed opt msg = \<lparr>dm_msg = msg, dm_timestamp_tx = word_of_int (o_delay_ms opt), dm_hdx = False\<rparr>"

lemma rand_unit_1: "rand_unit 1 < 1 / 2"
proof -
  have b: "2 powi (- 1022) \<le> (1 / 2147483647 :: rat)" by (simp add: power_int_minus field_simps)
  have "d64_round (1 / 2147483647) \<le> 1 / 2147483647 + 1 / 2147483647 * (1 / 2 ^ 53)"
    using d64_round_error_pos(1) [OF b] by linarith
  then show ?thesis by (simp add: rand_unit_def d64_div_def RAND_MAX_def)
qed

lemma front_always_delay:
  assumes "always_delay (x_opts x)"
  shows "proxy_front lib (\<lambda>k. 0) (\<lambda>k. 1) msg x = (True, proxy_enqueue lib (delayed (x_opts x) msg) x)"
    and "\<not> hdx_rx_drop lib ms msg x"
  using assms rand_unit_1 rand_unit_pos [of 1]
  by (auto simp: always_delay_def proxy_front_def proxy_hdx_def proxy_corrupt_def proxy_decide_def
      proxy_forward_def delayed_def hdx_rx_drop_def Let_def)

lemma sys_enqueue:
  assumes "fifo lib cap items" and "proxy_sys lib x0 n r l w x" and "always_delay (x_opts x)"
    and "length (items (x_queue x)) < cap"
  obtains q where "proxy_sys lib x0 (Suc n) r l w (x\<lparr>x_queue := q\<rparr>)" "items q = items (x_queue x) @ [delayed (x_opts x) msg]"
proof (cases "pl_enqueue lib (delayed (x_opts x) msg) (x_queue x)")
  case None
  then have "cap \<le> length (items (x_queue x))" by (rule fifo_enqueue(2) [OF assms(1)])
  with assms(4) show ?thesis by simp
next
  case (Some q)
  have "snd (proxy_front lib (\<lambda>k. 0) (\<lambda>k. 1) msg x) = x\<lparr>x_queue := q\<rparr>"
    using front_always_delay(1) [OF assms(3)] Some by (simp add: proxy_enqueue_def)
  with proxy_sys.main [OF assms(2), of "\<lambda>k. 0" msg "\<lambda>k. 1"] front_always_delay(2) [OF assms(3)]
  have "proxy_sys lib x0 (Suc n) r l w (x\<lparr>x_queue := q\<rparr>)" by simp
  with that fifo_enqueue(1) [OF assms(1) Some] show ?thesis by blast
qed

lemma sys_fill:
  assumes "fifo lib cap items" and "always_delay (x_opts x0)" and "items (x_queue x0) = []" and "k \<le> cap"
  shows "\<exists>q. proxy_sys lib x0 k 0 0 W_Front (x0\<lparr>x_queue := q\<rparr>) \<and> items q = replicate k (delayed (x_opts x0) msg)"
  using assms(4)
proof (induction k)
  case 0
  have "x0\<lparr>x_queue := x_queue x0\<rparr> = x0" by simp
  with proxy_sys.start [of lib x0] assms(3) show ?case by (intro exI [of _ "x_queue x0"]) simp
next
  case (Suc k)
  then obtain q where q: "proxy_sys lib x0 k 0 0 W_Front (x0\<lparr>x_queue := q\<rparr>)" "items q = replicate k (delayed (x_opts x0) msg)"
    by auto
  have ad: "always_delay (x_opts (x0\<lparr>x_queue := q\<rparr>))" using assms(2) by simp
  have lt: "length (items (x_queue (x0\<lparr>x_queue := q\<rparr>))) < cap" using q(2) Suc.prems by simp
  obtain q' where "proxy_sys lib x0 (Suc k) 0 0 W_Front (x0\<lparr>x_queue := q, x_queue := q'\<rparr>)"
    "items q' = items q @ [delayed (x_opts x0) msg]"
    using sys_enqueue [OF assms(1) q(1) ad lt, of msg] by auto
  with q(2) show ?case by (auto simp: replicate_append_same)
qed

section \<open>The worker's start\<close>

text \<open>Only a delay probability and the half-duplex simulation ever put a message into the queue.\<close>

lemma decide_frame:
  "x_opts (snd (snd (proxy_decide lib ms rnd msg x))) = x_opts x"
  "x_delay_drops (snd (snd (proxy_decide lib ms rnd msg x))) = x_delay_drops x"
  by (simp_all add: proxy_decide_def proxy_reject_def proxy_parse_def proxy_index_eq case_prod_beta Let_def
      split: option.split)

lemma forward_frame:
  assumes "\<not> o_delay_prob (x_opts x) > 0"
  shows "x_queue (snd (proxy_forward lib ms rnd msg d x)) = x_queue x"
    and "x_opts (snd (proxy_forward lib ms rnd msg d x)) = x_opts x"
    and "x_delay_drops (snd (proxy_forward lib ms rnd msg d x)) = x_delay_drops x"
  using assms by (simp_all add: proxy_forward_def proxy_send_def Let_def)

lemma front_queue_untouched:
  assumes "\<not> o_delay_prob (x_opts x) > 0" and "o_hdx_node (x_opts x) = 0"
  shows "x_queue (snd (proxy_front lib ms rnd msg x)) = x_queue x"
    and "x_delay_drops (snd (proxy_front lib ms rnd msg x)) = x_delay_drops x"
    and "x_opts (snd (proxy_front lib ms rnd msg x)) = x_opts x"
proof -
  have h: "proxy_hdx lib ms msg x = (False, x)" using assms(2) by (simp add: proxy_hdx_def)
  show "x_queue (snd (proxy_front lib ms rnd msg x)) = x_queue x"
    "x_delay_drops (snd (proxy_front lib ms rnd msg x)) = x_delay_drops x"
    "x_opts (snd (proxy_front lib ms rnd msg x)) = x_opts x"
    using assms(1) by (simp_all add: proxy_front_def h case_prod_beta Let_def forward_frame decide_frame accounted_decide(2))
qed

text \<open>
  Without the worker no message waits for it: for every sequence of messages, the queue stays as it
  was. The converse does not hold: with a delay but no delay probability the worker is started for
  a queue that stays empty, and each of its rounds ends where it began.
\<close>

lemma main_without_worker:
  assumes "\<not> delay_worker_starts (x_opts x)"
  shows "x_queue (fold (\<lambda>(ms, rnd, msg) x. snd (proxy_front lib ms rnd msg x)) evs x) = x_queue x"
proof -
  have "\<not> o_delay_prob (x_opts x) > 0" "o_hdx_node (x_opts x) = 0" using assms by (auto simp: delay_worker_starts_def)
  then show ?thesis by (induction evs arbitrary: x) (auto simp: front_queue_untouched)
qed

lemma idle_worker_spins:
  assumes "fifo lib cap items" and "items (x_queue x) = []"
  shows "task_delay_send lib ms W_Front x = (W_Loop 0 0, x)" and "task_delay_send lib ms (W_Loop 0 0) x = (W_Front, x)"
  using assms fifo_dequeue(3) [OF assms(1)] by simp_all

lemma delay_without_probability:
  assumes "\<not> o_delay_prob opt > 0" and "o_hdx_node opt = 0" and "0 < o_delay_ms opt"
  shows "delay_worker_starts opt \<and> (x_opts x = opt \<longrightarrow> x_queue (snd (proxy_front lib ms rnd msg x)) = x_queue x)"
  using assms by (auto simp: delay_worker_starts_def front_queue_untouched)

section \<open>Properties\<close>

text \<open>
  Property C13. Messages are conserved under every interleaving of the main thread and the delay
  worker, in every mode: the number \<open>n\<close> of messages received is, modulo \<open>2^64\<close>, the number sent plus
  the three counters of the program (dropped, refused by the queue, malformed), plus those waiting
  in the queue or in the worker's hand, plus two numbers that the program does not count: the \<open>r\<close>
  messages that the half-duplex receiver discarded and the \<open>l\<close> messages that were lost because the
  worker took them from the queue before they were due and failed to put them back. Nothing
  disappears in any other way, and the worker never uses a message that the queue did not deliver.
  The queue is assumed to be a bounded first-in first-out queue, empty at the start.
\<close>

theorem proxy_conserves_messages:
  assumes "proxy_lossy_setup opt log_ok pk q = Inr x0" and "items q = []" and "fifo lib cap items"
    and "proxy_sys lib x0 n r l w x"
  shows "w \<noteq> W_Garbage \<and>
    (word_of_nat n :: u64) = word_of_nat (length (x_backend x)) + x_drops x + x_delay_drops x + x_malformed x +
      word_of_nat (length (items (x_queue x))) + word_of_nat (held w) + word_of_nat r + word_of_nat l"
proof -
  have "accounted items x0 = 0" using proxy_setup_fields [OF assms(1)] assms(2) by (simp add: accounted_def)
  from proxy_sys_conserves [OF assms(4,3) this] show ?thesis by (auto simp: accounted_def)
qed

lemma demo_fifo: "fifo demo_lib 1024 (\<lambda>q. q)"
  by (auto simp: fifo_def demo_lib_def split: list.split)

theorem proxy_conserves_messages_witness:
  "\<exists>x. proxy_sys demo_lib (demo_proxy demo_opts) 1 0 0 W_Front x \<and>
    (1 :: u64) = word_of_nat (length (x_backend x)) + x_drops x + x_delay_drops x + x_malformed x + word_of_nat (length (x_queue x))"
proof -
  let ?x = "demo_proxy demo_opts" and ?m = "fst (demo_event 8 0)"
  have s: "proxy_lossy_setup demo_opts True demo_packet [] = Inr ?x" by code_simp
  have h: "\<not> hdx_rx_drop demo_lib (\<lambda>k. 0) ?m ?x" by code_simp
  have r: "proxy_sys demo_lib ?x 1 0 0 W_Front (snd (proxy_front demo_lib (\<lambda>k. 0) (\<lambda>k. 0) ?m ?x))"
    using proxy_sys.main [OF proxy_sys.start [of demo_lib ?x], of "\<lambda>k. 0" ?m "\<lambda>k. 0"] h by simp
  from proxy_conserves_messages [OF s refl demo_fifo r] r show ?thesis by auto
qed

text \<open>
  The delay worker can lose messages without counting them. It takes a message that is
  not due out of the queue and puts it back at the end, but ignores whether that succeeds; when the
  queue is full and the main thread has used the free place meanwhile, the message is gone: nothing
  was sent and every drop counter is still zero.
\<close>

theorem delay_worker_loses_message:
  assumes "proxy_lossy_setup opt log_ok pk q = Inr x0" and "items q = []" and "fifo lib cap items"
    and "0 < cap" and "always_delay opt"
  shows "\<exists>x. proxy_sys lib x0 (Suc cap) 0 1 (W_Loop 1 cap) x \<and> x_backend x = [] \<and>
    length (items (x_queue x)) = cap \<and> x_drops x = 0 \<and> x_delay_drops x = 0 \<and> x_malformed x = 0"
proof -
  note x0 = proxy_setup_fields [OF assms(1)]
  have ad: "always_delay (x_opts x0)" using assms(5) x0 by simp
  obtain q1 where q1: "proxy_sys lib x0 cap 0 0 W_Front (x0\<lparr>x_queue := q1\<rparr>)"
    "items q1 = replicate cap (delayed opt [])"
    using sys_fill [OF assms(3) ad, of cap "[]"] x0(1,8) assms(2) by auto
  have "task_delay_send lib (\<lambda>k. 0) W_Front (x0\<lparr>x_queue := q1\<rparr>) = (W_Loop 0 cap, x0\<lparr>x_queue := q1\<rparr>)"
    using q1(2) by (simp add: fifo_dequeue(3) [OF assms(3)])
  from proxy_sys.worker [OF q1(1) this] have r1: "proxy_sys lib x0 cap 0 0 (W_Loop 0 cap) (x0\<lparr>x_queue := q1\<rparr>)"
    by simp
  obtain m q2 where q2: "pl_dequeue lib q1 = Some (m, q2)"
    using q1(2) assms(4) fifo_dequeue(2) [OF assms(3), of q1] by (cases "pl_dequeue lib q1") auto
  from fifo_dequeue(1) [OF assms(3) q2] q1(2) assms(4)
  have m: "m = delayed opt []" "length (items q2) = cap - 1" by (cases cap; simp)+
  have "task_delay_send lib (\<lambda>k. 0) (W_Loop 0 cap) (x0\<lparr>x_queue := q1\<rparr>) = (W_Hold 0 cap m, x0\<lparr>x_queue := q2\<rparr>)"
    using q2 assms(4) by simp
  from proxy_sys.worker [OF r1 this] have r2: "proxy_sys lib x0 cap 0 0 (W_Hold 0 cap m) (x0\<lparr>x_queue := q2\<rparr>)"
    by simp
  have ad2: "always_delay (x_opts (x0\<lparr>x_queue := q2\<rparr>))" using ad by simp
  have lt: "length (items (x_queue (x0\<lparr>x_queue := q2\<rparr>))) < cap" using m(2) assms(4) by simp
  obtain q3 where "proxy_sys lib x0 (Suc cap) 0 0 (W_Hold 0 cap m) (x0\<lparr>x_queue := q2, x_queue := q3\<rparr>)"
    and "items q3 = items (x_queue (x0\<lparr>x_queue := q2\<rparr>)) @ [delayed (x_opts (x0\<lparr>x_queue := q2\<rparr>)) []]"
    by (rule sys_enqueue [OF assms(3) r2 ad2 lt])
  then have q3: "proxy_sys lib x0 (Suc cap) 0 0 (W_Hold 0 cap m) (x0\<lparr>x_queue := q3\<rparr>)" "length (items q3) = cap"
    using m(2) assms(4) by simp_all
  have full: "pl_enqueue lib m q3 = None"
    using fifo_enqueue(1) [OF assms(3), of m q3] q3(2) by (cases "pl_enqueue lib m q3") auto
  then have "task_delay_send lib (\<lambda>k. 0) (W_Hold 0 cap m) (x0\<lparr>x_queue := q3\<rparr>) = (W_Loop 1 cap, x0\<lparr>x_queue := q3\<rparr>)"
    by simp
  from proxy_sys.worker [OF q3(1) this] full
  have "proxy_sys lib x0 (Suc cap) 0 1 (W_Loop 1 cap) (x0\<lparr>x_queue := q3\<rparr>)" by simp
  with q3(2) x0 show ?thesis by (intro exI [of _ "x0\<lparr>x_queue := q3\<rparr>"]) simp
qed

definition delay_opts :: proxy_opts where
  "delay_opts = proxy_defaults\<lparr>o_delay_prob := 1, o_delay_ms := 100, o_enable_lossy := True\<rparr>"

theorem delay_worker_loses_message_witness:
  "\<exists>x. proxy_sys demo_lib (demo_proxy delay_opts) 1025 0 1 (W_Loop 1 1024) x \<and> x_backend x = [] \<and>
    length (x_queue x) = 1024 \<and> x_drops x = 0 \<and> x_delay_drops x = 0 \<and> x_malformed x = 0"
proof -
  have s: "proxy_lossy_setup delay_opts True demo_packet [] = Inr (demo_proxy delay_opts)" by code_simp
  have a: "always_delay delay_opts" by code_simp
  show ?thesis using delay_worker_loses_message [OF s refl demo_fifo _ a] by simp
qed

end
