(* ===== verification/PX_Capture.thy ===== *)
theory PX_Capture
  imports PX_Proxy
begin

text \<open>
  The debug threads of \<open>src/proxy/zmqproxy.c\<close>: the socket monitors (\<open>get_monitor_event\<close>, \<open>handle_event\<close>
  and the loop that the two monitor tasks share) and the capture task that logs frames to a file.
  Parameters are what the \<open>zmq\<close> calls return; the event numbers are those of libzmq, whose first
  frame of an event always has six bytes.
\<close>

section \<open>Socket events\<close>

text \<open>
  The pointer to the event's address in the monitor task: not yet set, null, a block, or freed. A
  failed assertion and a \<open>free\<close> of anything but null or a block end the process.
\<close>

datatype addr_ptr = A_Uninit | A_Null | A_Block bytes | A_Freed

datatype mon_fault = Assert_Failed | Bad_Free

text \<open>One \<open>zmq_msg_recv\<close>: \<open>None\<close> for an error, otherwise the frame and whether more frames follow.\<close>

type_synonym zmq_frame = "(bytes \<times> bool) option"

text \<open>The event number (-1 for an interrupted receive), the value and the address pointer afterwards.\<close>

definition get_monitor_event ::
  "zmq_frame \<Rightarrow> zmq_frame \<Rightarrow> bool \<Rightarrow> u32 \<times> addr_ptr \<Rightarrow> mon_fault + (int \<times> u32 \<times> addr_ptr)" where
  "get_monitor_event first second malloc_ok st =
     (let (val, addr) = st
      in case first of
           None \<Rightarrow> Inr (- 1, val, addr)
         | Some (d, more1) \<Rightarrow>
             if \<not> more1 then Inl Assert_Failed
             else
               (let event = ucast (d ! 0) OR push_bit 8 (ucast (d ! 1)) :: u16;
                    val = le32 (d ! 2) (d ! 3) (d ! 4) (d ! 5)
                in case second of
                     None \<Rightarrow> Inr (- 1, val, addr)
                   | Some (a, more2) \<Rightarrow>
                       if more2 then Inl Assert_Failed
                       else Inr (uint event, val, if malloc_ok then A_Block a else A_Null)))"

definition ZMQ_EVENT_ACCEPTED :: int where [const_defs]: "ZMQ_EVENT_ACCEPTED = 0x20"
definition ZMQ_EVENT_DISCONNECTED :: int where [const_defs]: "ZMQ_EVENT_DISCONNECTED = 0x200"
definition ZMQ_EVENT_HANDSHAKE_FAILED_NO_DETAIL :: int where [const_defs]: "ZMQ_EVENT_HANDSHAKE_FAILED_NO_DETAIL = 0x800"
definition ZMQ_EVENT_HANDSHAKE_SUCCEEDED :: int where [const_defs]: "ZMQ_EVENT_HANDSHAKE_SUCCEEDED = 0x1000"
definition ZMQ_EVENT_HANDSHAKE_FAILED_PROTOCOL :: int where [const_defs]: "ZMQ_EVENT_HANDSHAKE_FAILED_PROTOCOL = 0x2000"
definition ZMQ_EVENT_HANDSHAKE_FAILED_AUTH :: int where [const_defs]: "ZMQ_EVENT_HANDSHAKE_FAILED_AUTH = 0x4000"

text \<open>What is printed; \<open>peer\<close> is the peer's address and port when \<open>getpeername\<close> on the descriptor succeeds.\<close>

datatype mon_line =
    Connected "(string \<times> u16) option" addr_ptr
  | Handshake_Succeeded addr_ptr
  | Handshake_Protocol addr_ptr
  | Handshake_Auth addr_ptr
  | Disconnected addr_ptr
  | Handshake_System addr_ptr u32
  | Other_Event int

definition handle_event :: "(u32 \<Rightarrow> (string \<times> u16) option) \<Rightarrow> int \<Rightarrow> u32 \<Rightarrow> addr_ptr \<Rightarrow> mon_line" where
  "handle_event peer event val addr =
     (if event = ZMQ_EVENT_ACCEPTED then Connected (if val \<noteq> - 1 then peer val else None) addr
      else if event = ZMQ_EVENT_HANDSHAKE_SUCCEEDED then Handshake_Succeeded addr
      else if event = ZMQ_EVENT_HANDSHAKE_FAILED_PROTOCOL then Handshake_Protocol addr
      else if event = ZMQ_EVENT_HANDSHAKE_FAILED_AUTH then Handshake_Auth addr
      else if event = ZMQ_EVENT_DISCONNECTED then Disconnected addr
      else if event = ZMQ_EVENT_HANDSHAKE_FAILED_NO_DETAIL then Handshake_System addr val
      else Other_Event event)"

definition free_addr :: "addr_ptr \<Rightarrow> mon_fault + addr_ptr" where
  "free_addr a = (case a of A_Block b \<Rightarrow> Inr A_Freed | A_Null \<Rightarrow> Inr A_Null | _ \<Rightarrow> Inl Bad_Free)"

text \<open>The loop of \<open>task_monitor_backend\<close> and \<open>task_monitor_frontend\<close>, over the receives it makes.\<close>

fun task_monitor ::
  "(u32 \<Rightarrow> (string \<times> u16) option) \<Rightarrow> (zmq_frame \<times> zmq_frame \<times> bool) list \<Rightarrow> u32 \<times> addr_ptr \<Rightarrow>
   mon_line list \<times> (mon_fault + (u32 \<times> addr_ptr))" where
  "task_monitor peer [] st = ([], Inr st)"
| "task_monitor peer ((f1, f2, ok) # rest) st =
     (case get_monitor_event f1 f2 ok st of
        Inl e \<Rightarrow> ([], Inl e)
      | Inr (event, val, addr) \<Rightarrow>
          (let line = handle_event peer event val addr
           in case free_addr addr of
                Inl e \<Rightarrow> ([line], Inl e)
              | Inr addr' \<Rightarrow> (let (ls, r) = task_monitor peer rest (val, addr') in (line # ls, r))))"

text \<open>
  The two tasks: the results of \<open>zmq_socket_monitor\<close>, \<open>zmq_socket\<close> and \<open>zmq_connect\<close> are asserted before the
  loop; \<open>val\<close> is the uninitialised \<open>value\<close>.
\<close>

definition task_monitor_backend ::
  "int \<Rightarrow> bool \<Rightarrow> int \<Rightarrow> (u32 \<Rightarrow> (string \<times> u16) option) \<Rightarrow> (zmq_frame \<times> zmq_frame \<times> bool) list \<Rightarrow> u32 \<Rightarrow>
   mon_line list \<times> (mon_fault + (u32 \<times> addr_ptr))" where
  "task_monitor_backend mon_rc backend_mon conn_rc peer rs val =
     (if mon_rc \<noteq> 0 \<or> \<not> backend_mon \<or> conn_rc \<noteq> 0 then ([], Inl Assert_Failed) else task_monitor peer rs (val, A_Uninit))"

definition task_monitor_frontend ::
  "int \<Rightarrow> bool \<Rightarrow> int \<Rightarrow> (u32 \<Rightarrow> (string \<times> u16) option) \<Rightarrow> (zmq_frame \<times> zmq_frame \<times> bool) list \<Rightarrow> u32 \<Rightarrow>
   mon_line list \<times> (mon_fault + (u32 \<times> addr_ptr))" where
  "task_monitor_frontend mon_rc frontend_mon conn_rc peer rs val =
     (if mon_rc \<noteq> 0 \<or> \<not> frontend_mon \<or> conn_rc \<noteq> 0 then ([], Inl Assert_Failed) else task_monitor peer rs (val, A_Uninit))"

section \<open>Capture\<close>

text \<open>
  A result of \<open>zmq_msg_recv\<close> on the capture socket: an error, or a message with the information
  whether it was already waiting when the previous one was handled. The log file, if there is one,
  is the list of the frames written.
\<close>

datatype capture_event = C_Error | C_Msg bytes bool

record capture =
  ca_log :: "bytes list option"
  ca_packet :: csp_packet
  ca_malformed :: u64

text \<open>After a short frame: discard while a receive without blocking gives a message that is not empty.\<close>

fun capture_discard :: "capture_event list \<Rightarrow> capture_event list" where
  "capture_discard (C_Msg m waiting # es) =
     (if waiting then (if m = [] then es else capture_discard es) else C_Msg m waiting # es)"
| "capture_discard es = es"

lemma capture_discard_length: "length (capture_discard es) \<le> length es"
  by (induction es rule: capture_discard.induct) auto

function task_capture :: "'q proxy_lib \<Rightarrow> int \<Rightarrow> capture_event list \<Rightarrow> capture \<Rightarrow> capture" where
  "task_capture lib version [] ca = ca"
| "task_capture lib version (C_Error # es) ca = task_capture lib version es ca"
| "task_capture lib version (C_Msg msg waiting # es) ca =
     (let datalen = msg_datalen msg
      in if datalen < 5 then task_capture lib version (capture_discard es) ca
         else if \<not> proxy_frame_fits version (pl_data_size lib) datalen
         then task_capture lib version es (ca\<lparr>ca_malformed := ca_malformed ca + 1\<rparr>)
         else
           (let frame = take (nat datalen) msg;
                ca = ca\<lparr>ca_packet := pl_strip lib frame (ca_packet ca)\<rparr>
            in task_capture lib version es
                 (ca\<lparr>ca_log := map_option (\<lambda>l. l @ [frame]) (ca_log ca)\<rparr>)))"
  by pat_completeness auto
termination
  by (relation "measure (\<lambda>(lib, version, es, ca). length es)")
    (auto simp: less_Suc_eq_le capture_discard_length)

text \<open>
  What the capture task does before its loop: with a key it authenticates to the publisher, as a
  client whose key pair is the server's; a failed assertion or a log file that cannot be opened ends
  the process. The parameters are \<open>zmq_curve_public\<close> and whether the calls succeed.
\<close>

datatype capture_exit = Capture_Abort | No_Logfile

record capture_env =
  ce_public :: "string \<Rightarrow> string"
  ce_connect :: "string \<Rightarrow> bool"
  ce_subscribe :: bool
  ce_malloc :: bool
  ce_fopen :: "string \<Rightarrow> bool"

record curve_keys =
  cv_server :: string
  cv_public :: string
  cv_secret :: string

definition capture_setup ::
  "capture_env \<Rightarrow> proxy_opts \<Rightarrow> string \<Rightarrow> csp_packet \<Rightarrow> capture_exit + (curve_keys option \<times> capture)" where
  "capture_setup env o1 sec_key pk =
     (let curve = (if o_keyfile_name o1 \<noteq> None \<or> o_keyarg o1 \<noteq> None
                   then (let pub_key = ce_public env sec_key
                         in Some \<lparr>cv_server = pub_key, cv_public = pub_key, cv_secret = sec_key\<rparr>)
                   else None)
      in if \<not> ce_connect env (o_pub_str o1) then Inl Capture_Abort
         else if \<not> ce_subscribe env then Inl Capture_Abort
         else if \<not> ce_malloc env then Inl Capture_Abort
         else case o_logfile_name o1 of
                None \<Rightarrow> Inr (curve, \<lparr>ca_log = None, ca_packet = pk, ca_malformed = 0\<rparr>)
              | Some f \<Rightarrow>
                  if \<not> ce_fopen env f then Inl No_Logfile
                  else Inr (curve, \<lparr>ca_log = Some [], ca_packet = pk, ca_malformed = 0\<rparr>))"

text \<open>
  The capture socket authenticates exactly when the proxy's own sockets do, and with the proxy's
  key; frames are logged exactly when a log file was named.
\<close>

lemma capture_setup_key:
  assumes "proxy_curve_key fs o1 = Inr k" and "capture_setup env o1 (case k of Some s \<Rightarrow> s | None \<Rightarrow> []) pk = Inr (curve, ca)"
  shows "map_option cv_secret curve = k" and "map_option cv_server curve = map_option (ce_public env) k"
    and "ca_log ca \<noteq> None \<longleftrightarrow> o_logfile_name o1 \<noteq> None"
  using assms by (auto simp: proxy_curve_key_def capture_setup_def Let_def split: option.splits if_splits)

section \<open>The program\<close>

text \<open>
  \<open>main\<close> up to the forwarding loop: the key in use, the threads started by the bits of \<open>-d\<close>, and
  whether \<open>zmq_proxy_lossy\<close> runs (it does not return) or the plain forwarder of libzmq. A failed
  assertion on a libzmq call ends the process before that.
\<close>

datatype proxy_thread = T_Capture | T_Monitor_Frontend | T_Monitor_Backend

definition proxy_main ::
  "bool \<Rightarrow> (string \<Rightarrow> string option) \<Rightarrow> string list \<Rightarrow> proxy_exit + (string option \<times> proxy_thread list \<times> bool)" where
  "proxy_main lossy fs args =
     (case proxy_options lossy args of
        Inl e \<Rightarrow> Inl e
      | Inr o1 \<Rightarrow>
          (case proxy_curve_key fs o1 of
             Inl e \<Rightarrow> Inl e
           | Inr key \<Rightarrow>
               Inr (key,
                 (if bit (o_debug o1) 1 then [T_Capture] else []) @
                 (if bit (o_debug o1) 0 then [T_Monitor_Frontend, T_Monitor_Backend] else []),
                 lossy \<and> o_enable_lossy o1)))"

section \<open>Lemmas\<close>

definition complete_event :: "zmq_frame \<times> zmq_frame \<times> bool \<Rightarrow> bool" where
  "complete_event r = (\<exists>d a. r = (Some (d, True), Some (a, False), True))"

lemma monitor_complete:
  assumes "complete_event r"
  obtains line v' where
    "\<And>rest. task_monitor peer (r # rest) st =
      (line # fst (task_monitor peer rest (v', A_Freed)), snd (task_monitor peer rest (v', A_Freed)))"
proof -
  obtain d a where r: "r = (Some (d, True), Some (a, False), True)"
    using assms unfolding complete_event_def by blast
  obtain v p where st: "st = (v, p)" by fastforce
  show ?thesis
    by (rule that [of "handle_event peer (uint (ucast (d ! 0) OR push_bit 8 (ucast (d ! 1)) :: u16))
        (le32 (d ! 2) (d ! 3) (d ! 4) (d ! 5)) (A_Block a)" "le32 (d ! 2) (d ! 3) (d ! 4) (d ! 5)"])
      (simp add: r st get_monitor_event_def free_addr_def Let_def split: prod.split)
qed

lemma monitor_prefix:
  assumes "\<forall>r \<in> set rs. complete_event r" and "snd st \<in> {A_Uninit, A_Freed}"
  shows "\<exists>ls st'. length ls = length rs \<and> snd st' \<in> {A_Uninit, A_Freed} \<and>
    task_monitor peer (rs @ rest) st =
      (ls @ fst (task_monitor peer rest st'), snd (task_monitor peer rest st'))"
  using assms
proof (induction rs arbitrary: st)
  case Nil
  then show ?case by (intro exI [of _ "[]"] exI [of _ st]) simp
next
  case (Cons r rs)
  obtain line v' where step: "\<And>rest. task_monitor peer (r # rest) st =
      (line # fst (task_monitor peer rest (v', A_Freed)), snd (task_monitor peer rest (v', A_Freed)))"
    using monitor_complete [of r peer st] Cons.prems by auto
  have "\<exists>ls st'. length ls = length rs \<and> snd st' \<in> {A_Uninit, A_Freed} \<and>
      task_monitor peer (rs @ rest) (v', A_Freed) =
        (ls @ fst (task_monitor peer rest st'), snd (task_monitor peer rest st'))"
    using Cons.prems by (intro Cons.IH) simp_all
  then obtain ls st' where IH: "length ls = length rs" "snd st' \<in> {A_Uninit, A_Freed}"
    "task_monitor peer (rs @ rest) (v', A_Freed) =
        (ls @ fst (task_monitor peer rest st'), snd (task_monitor peer rest st'))"
    by (elim exE conjE)
  then show ?case
    by (intro exI [of _ "line # ls"] exI [of _ st']) (simp add: step)
qed

text \<open>
  A monitor task prints one line per event as long as events arrive whole. The first
  receive that is interrupted makes it print the event number -1 and then free a pointer that is not
  set (no event before) or already freed (any event before).
\<close>

theorem monitor_interrupted_bad_free:
  assumes "\<forall>r \<in> set rs. complete_event r"
  shows "\<exists>ls. length ls = length rs \<and>
    task_monitor_backend 0 True 0 peer (rs @ (None, f2, ok) # rest) v = (ls @ [Other_Event (- 1)], Inl Bad_Free) \<and>
    task_monitor_frontend 0 True 0 peer (rs @ (None, f2, ok) # rest) v = (ls @ [Other_Event (- 1)], Inl Bad_Free)"
proof -
  have "\<exists>ls st'. length ls = length rs \<and> snd st' \<in> {A_Uninit, A_Freed} \<and>
      task_monitor peer (rs @ (None, f2, ok) # rest) (v, A_Uninit) =
        (ls @ fst (task_monitor peer ((None, f2, ok) # rest) st'),
         snd (task_monitor peer ((None, f2, ok) # rest) st'))"
    using assms by (intro monitor_prefix) simp_all
  then obtain ls st' where *: "length ls = length rs" "snd st' \<in> {A_Uninit, A_Freed}"
    "task_monitor peer (rs @ (None, f2, ok) # rest) (v, A_Uninit) =
        (ls @ fst (task_monitor peer ((None, f2, ok) # rest) st'),
         snd (task_monitor peer ((None, f2, ok) # rest) st'))"
    by (elim exE conjE)
  obtain v' p where st': "st' = (v', p)" by fastforce
  have "task_monitor peer ((None, f2, ok) # rest) st' = ([Other_Event (- 1)], Inl Bad_Free)"
    using *(2) by (auto simp: st' get_monitor_event_def handle_event_def free_addr_def const_defs Let_def)
  with * show ?thesis by (intro exI [of _ ls]) (simp add: task_monitor_backend_def task_monitor_frontend_def)
qed

theorem monitor_interrupted_bad_free_witness:
  "\<exists>ls. length ls = 1 \<and>
    task_monitor_backend 0 True 0 (\<lambda>_. None) [(Some ([0x20, 0, 7, 0, 0, 0], True), Some ([], False), True), (None, None, True)] 0 =
      (ls @ [Other_Event (- 1)], Inl Bad_Free)"
  using monitor_interrupted_bad_free
    [of "[(Some ([0x20, 0, 7, 0, 0, 0], True), Some ([], False), True)]" "\<lambda>_. None" None True "[]" 0]
  by (auto simp: complete_event_def)

text \<open>The frames of the messages received, and those among them that the capture task can hold.\<close>

definition capture_frames :: "capture_event list \<Rightarrow> bytes list" where
  "capture_frames es = concat (map (\<lambda>e. case e of C_Msg m _ \<Rightarrow> [m] | C_Error \<Rightarrow> []) es)"

lemma capture_frames_simps [simp]:
  "capture_frames [] = []"
  "capture_frames (C_Error # es) = capture_frames es"
  "capture_frames (C_Msg m w # es) = m # capture_frames es"
  by (simp_all add: capture_frames_def)

lemma msg_datalen_small: "length m < 2 ^ 31 \<Longrightarrow> msg_datalen m = int (length m)"
  unfolding msg_datalen_def
  by (simp add: sint_uint unsigned_of_nat take_bit_nat_eq_self signed_take_bit_int_eq_self_iff)

definition long_frames :: "capture_event list \<Rightarrow> bool" where
  "long_frames es = (\<forall>m \<in> set (capture_frames es). 5 \<le> length m \<and> length m < 2 ^ 31)"

lemma long_frames_simps [simp]:
  "long_frames []"
  "long_frames (C_Error # es) = long_frames es"
  "long_frames (C_Msg m w # es) = (5 \<le> length m \<and> length m < 2 ^ 31 \<and> long_frames es)"
  by (auto simp: long_frames_def)

lemma capture_logs_long:
  assumes "long_frames es"
  shows "ca_log (task_capture lib version es ca) = map_option (\<lambda>l. l @
      filter (\<lambda>m. proxy_frame_fits version (pl_data_size lib) (int (length m))) (capture_frames es)) (ca_log ca) \<and>
    ca_malformed (task_capture lib version es ca) = ca_malformed ca + word_of_nat (length
      (filter (\<lambda>m. \<not> proxy_frame_fits version (pl_data_size lib) (int (length m))) (capture_frames es)))"
  using assms
proof (induction lib version es ca rule: task_capture.induct)
  case (3 lib version msg waiting es ca)
  then have len: "msg_datalen msg = int (length msg)" "\<not> msg_datalen msg < 5"
    by (simp_all add: msg_datalen_small)
  show ?case
  proof (cases "proxy_frame_fits version (pl_data_size lib) (msg_datalen msg)")
    case True
    then show ?thesis
      using 3(3) [OF refl len(2), simplified] 3(4) len(1)
      by (auto simp: Let_def len option.map_comp comp_def)
  next
    case False
    then show ?thesis
      using 3(2) [OF refl len(2) False] 3(4) by (simp add: Let_def len)
  qed
qed (simp_all add: option.map_ident)

lemma task_capture_append:
  "long_frames es \<Longrightarrow> task_capture lib version (es @ es') ca =
     task_capture lib version es' (task_capture lib version es ca)"
proof (induction lib version es ca rule: task_capture.induct)
  case (3 lib version msg waiting es ca)
  then have len: "msg_datalen msg = int (length msg)" "\<not> msg_datalen msg < 5"
    by (simp_all add: msg_datalen_small)
  show ?case
    using 3(2) [OF refl len(2)] 3(3) [OF refl len(2) _ refl refl] 3(4)
    by (simp add: Let_def len)
qed simp_all

lemma capture_discard_waiting:
  "\<forall>m \<in> set ws. m \<noteq> [] \<Longrightarrow>
   capture_discard (map (\<lambda>m. C_Msg m True) ws @ es) = capture_discard es"
  by (induction ws) auto

text \<open>
  While no frame is shorter than five bytes, the log gains exactly the frames that fit
  the packet buffer, in order, and the malformed counter counts the others. One short frame makes the
  task discard, unlogged and uncounted, every frame that is already waiting behind it.
\<close>

theorem capture_short_frame_discards:
  assumes "long_frames es" and "length short < 5" and "\<forall>m \<in> set ws. m \<noteq> []"
    and "ca' = task_capture lib version (es @ C_Msg short w # map (\<lambda>m. C_Msg m True) ws) ca"
  shows "ca_log ca' = map_option (\<lambda>l. l @
      filter (\<lambda>m. proxy_frame_fits version (pl_data_size lib) (int (length m))) (capture_frames es)) (ca_log ca) \<and>
    ca_malformed ca' = ca_malformed ca + word_of_nat (length
      (filter (\<lambda>m. \<not> proxy_frame_fits version (pl_data_size lib) (int (length m))) (capture_frames es)))"
proof -
  have "ca' = task_capture lib version es ca"
    using assms capture_discard_waiting [OF assms(3), of "[]"]
    by (simp add: task_capture_append msg_datalen_small Let_def)
  with capture_logs_long [OF assms(1), of lib version ca] show ?thesis by (simp only:)
qed

theorem capture_short_frame_discards_witness:
  "ca_log (task_capture demo_lib 2
      [C_Msg [1, 2, 3, 4, 5, 6] False, C_Msg [0] False, C_Msg [7, 8, 9, 10, 11, 12] True]
      \<lparr>ca_log = Some [], ca_packet = demo_packet, ca_malformed = 0\<rparr>) = Some [[1, 2, 3, 4, 5, 6]]"
  using capture_short_frame_discards
    [where es = "[C_Msg [1, 2, 3, 4, 5, 6] False]" and short = "[0]" and w = False
      and ws = "[[7, 8, 9, 10, 11, 12]]" and lib = demo_lib and version = 2
      and ca = "\<lparr>ca_log = Some [], ca_packet = demo_packet, ca_malformed = 0\<rparr>", OF _ _ _ refl]
  by (simp add: proxy_frame_fits_def demo_lib_def)

end
