(* ===== verification/CI_Svu.thy ===== *)
theory CI_Svu
  imports CI_Sha256
begin

text \<open>
  The core of the self-verifying uploader, \<open>src/lib/ci_svu.c\<close>: the manifest of per-block digests,
  the reassembly buffer with its coverage map, and the verdict that names the byte ranges to
  request again. The contract of the reassembly buffer and that of the block digest are stated
  as locales and interpreted on the definitions of this theory.

  Conventions: an allocation failure of \<open>ci_svu_new\<close> is an argument; the loop indices that the
  payload size bounds are natural numbers; the stack contents of the hash context are fixed, since
  the digest does not depend on them.
\<close>

section \<open>Data\<close>

definition CI_SVU_HASH_LEN :: nat where [const_defs]: "CI_SVU_HASH_LEN = 32"

datatype ci_svu_status = CI_SVU_INCOMPLETE | CI_SVU_COMPLETE_VERIFIED | CI_SVU_CORRUPT

record ci_svu_interval =
  iv_start :: u32
  iv_end :: u32

record ci_svu =
  v_total :: u32
  v_block :: u32
  v_nblocks :: u32
  v_covered_count :: u32
  v_data :: bytes
  v_covered :: bytes
  v_expected :: bytes

section \<open>Operations\<close>

definition ci_svu_nblocks :: "u32 \<Rightarrow> u32 \<Rightarrow> u32" where
  "ci_svu_nblocks total_size block_size =
     (if total_size = 0 \<or> block_size = 0 then 0
      else (total_size + block_size - 1) div block_size)"

definition stack_ctx :: ci_sha256 where
  "stack_ctx = \<lparr>c_state = [], c_bitlen = 0, c_buf = replicate 64 0, c_buflen = 0\<rparr>"

definition hash_block :: "bytes \<Rightarrow> u32 \<Rightarrow> u32 \<Rightarrow> u32 \<Rightarrow> bytes" where
  "hash_block src total_size block b =
     (let start = ucast b * ucast block :: u64;
          stop = start + ucast block;
          stop = (if stop > ucast total_size then ucast total_size else stop);
          ctx = ci_sha256_init stack_ctx;
          ctx = ci_sha256_update ctx (seg (unat start) (unat stop) src)
      in ci_sha256_final ctx)"

definition ci_svu_manifest :: "bytes option \<Rightarrow> u32 \<Rightarrow> u32 \<Rightarrow> bytes option \<Rightarrow> u32 \<times> bytes option" where
  "ci_svu_manifest src total_size block_size digests_out =
     (case (src, digests_out) of
        (Some src, Some out) \<Rightarrow>
          (let nblk = ci_svu_nblocks total_size block_size
           in if nblk = 0 then (0, Some out)
              else (nblk, Some (foldl (\<lambda>out b. memcpy_at out (b * CI_SVU_HASH_LEN)
                                  (hash_block src total_size block_size (word_of_nat b)))
                                out [0..<unat nblk])))
      | _ \<Rightarrow> (0, digests_out))"

definition ci_svu_new :: "bool \<Rightarrow> u32 \<Rightarrow> u32 \<Rightarrow> bytes option \<Rightarrow> u32 \<Rightarrow> ci_svu option" where
  "ci_svu_new alloc_ok total_size block_size expected nblocks =
     (let nblk = ci_svu_nblocks total_size block_size
      in case expected of
           None \<Rightarrow> None
         | Some expected \<Rightarrow>
             if nblk = 0 \<or> nblk \<noteq> nblocks then None
             else if \<not> alloc_ok then None
             else Some \<lparr>v_total = total_size, v_block = block_size, v_nblocks = nblk,
                        v_covered_count = 0,
                        v_data = replicate (unat total_size) 0,
                        v_covered = replicate (unat total_size) 0,
                        v_expected = take (unat nblk * CI_SVU_HASH_LEN) expected\<rparr>)"

text \<open>\<open>for (i = offset; i < end; i++) if (covered[i] == 0) ...\<close>\<close>

function accept_cover :: "nat \<Rightarrow> nat \<Rightarrow> ci_svu \<Rightarrow> ci_svu" where
  "accept_cover i stop s =
     (if i < stop then
        accept_cover (i + 1) stop
          (if v_covered s ! i = 0
           then s\<lparr>v_covered := (v_covered s)[i := 1], v_covered_count := v_covered_count s + 1\<rparr>
           else s)
      else s)"
  by pat_completeness auto
termination by (relation "measure (\<lambda>(i, stop, s). stop - i)") auto

declare accept_cover.simps [simp del]

definition ci_svu_accept :: "ci_svu option \<Rightarrow> u32 \<Rightarrow> bytes option \<Rightarrow> int \<times> ci_svu option" where
  "ci_svu_accept sp offset bufp =
     (case (sp, bufp) of
        (Some s, Some buf) \<Rightarrow>
          (let stop = unat offset + length buf
           in if stop > unat (v_total s) then (-1, Some s)
              else let s = accept_cover (unat offset) stop s;
                       s = (if length buf > 0
                            then s\<lparr>v_data := memcpy_at (v_data s) (unat offset) buf\<rparr> else s)
                   in (0, Some s))
      | _ \<Rightarrow> (-1, sp))"

definition ci_svu_covered :: "ci_svu option \<Rightarrow> u32" where
  "ci_svu_covered = of_ptr 0 v_covered_count"

definition ci_svu_data :: "ci_svu option \<Rightarrow> bytes option" where
  "ci_svu_data = map_option v_data"

definition push_interval ::
  "ci_svu_interval list option \<Rightarrow> u32 \<Rightarrow> u32 \<Rightarrow> u32 \<Rightarrow> u32 \<Rightarrow> ci_svu_interval list option \<times> u32" where
  "push_interval out mx nout start stop =
     (case out of
        Some o' \<Rightarrow> (if nout < mx
                    then (Some (o'[unat nout := \<lparr>iv_start = start, iv_end = stop\<rparr>]), nout + 1)
                    else (Some o', nout + 1))
      | None \<Rightarrow> (None, nout + 1))"

text \<open>\<open>while (run < s->total && s->covered[run] == 0u) run++;\<close>\<close>

function run_end :: "ci_svu \<Rightarrow> nat \<Rightarrow> nat" where
  "run_end s run =
     (if run < unat (v_total s) \<and> v_covered s ! run = 0 then run_end s (run + 1) else run)"
  by pat_completeness auto
termination by (relation "measure (\<lambda>(s, run). unat (v_total s) - run)") auto

declare run_end.simps [simp del]

lemma run_end_ge: "i \<le> run_end s i"
proof (induction s i rule: run_end.induct)
  case (1 s i)
  then show ?case by (subst run_end.simps) (auto intro: order_trans [of i "i + 1"])
qed

lemma run_end_gt: "i < unat (v_total s) \<Longrightarrow> v_covered s ! i = 0 \<Longrightarrow> i < run_end s i"
  using run_end_ge [of "i + 1" s] by (simp add: run_end.simps [of s i])

function scan_holes ::
  "ci_svu \<Rightarrow> u32 \<Rightarrow> nat \<Rightarrow> ci_svu_interval list option \<times> u32 \<Rightarrow> ci_svu_interval list option \<times> u32" where
  "scan_holes s mx i oc =
     (if i < unat (v_total s) then
        if v_covered s ! i = 0 then
          (let run = run_end s i
           in scan_holes s mx run
                (push_interval (fst oc) mx (snd oc) (word_of_nat i) (word_of_nat run)))
        else scan_holes s mx (i + 1) oc
      else oc)"
  by pat_completeness auto
termination
  by (relation "measure (\<lambda>(s, mx, i, oc). unat (v_total s) - i)")
    (auto intro!: diff_less_mono2 run_end_gt)

declare scan_holes.simps [simp del]

definition check_block ::
  "ci_svu \<Rightarrow> u32 \<Rightarrow> ci_svu_status \<times> ci_svu_interval list option \<times> u32 \<Rightarrow> nat
     \<Rightarrow> ci_svu_status \<times> ci_svu_interval list option \<times> u32" where
  "check_block s mx st b =
     (let got = hash_block (v_data s) (v_total s) (v_block s) (word_of_nat b)
      in if got \<noteq> seg (b * CI_SVU_HASH_LEN) (b * CI_SVU_HASH_LEN + CI_SVU_HASH_LEN) (v_expected s)
         then (let start = word_of_nat b * ucast (v_block s) :: u64;
                   stop = start + ucast (v_block s);
                   stop = (if stop > ucast (v_total s) then ucast (v_total s) else stop)
               in (CI_SVU_CORRUPT,
                   push_interval (fst (snd st)) mx (snd (snd st)) (ucast start) (ucast stop)))
         else st)"

definition ci_svu_verify ::
  "ci_svu option \<Rightarrow> ci_svu_interval list option \<Rightarrow> u32
     \<Rightarrow> ci_svu_status \<times> ci_svu_interval list option \<times> u32" where
  "ci_svu_verify sp out mx =
     (case sp of
        None \<Rightarrow> (CI_SVU_INCOMPLETE, out, 0)
      | Some s \<Rightarrow>
          if v_covered_count s < v_total s
          then (CI_SVU_INCOMPLETE, scan_holes s mx 0 (out, 0))
          else foldl (check_block s mx) (CI_SVU_COMPLETE_VERIFIED, out, 0) [0..<unat (v_nblocks s)])"

section \<open>Block digests\<close>

text \<open>The contract of a digest of fixed length, and what a manifest of such digests determines.\<close>

locale block_digest =
  fixes digest :: "bytes \<Rightarrow> bytes" and len :: nat
  assumes length_digest: "length (digest xs) = len"
begin

lemma manifest_nth:
  assumes "b < length bs"
  shows "seg (b * len) (b * len + len) (concat (map digest bs)) = digest (bs ! b)"
  using assms
proof (induction bs arbitrary: b)
  case (Cons x bs)
  show ?case
  proof (cases b)
    case 0
    then show ?thesis by (simp add: seg_def length_digest)
  next
    case (Suc c)
    then show ?thesis using Cons.IH [of c] Cons.prems by (simp add: seg_def length_digest)
  qed
qed simp

lemma length_manifest: "length (concat (map digest bs)) = length bs * len"
  by (induction bs) (simp_all add: length_digest)

lemma equal_or_collision:
  assumes "length bs = length cs" and "map digest bs = map digest cs"
  shows "bs = cs \<or> (\<exists>b < length bs. bs ! b \<noteq> cs ! b \<and> digest (bs ! b) = digest (cs ! b))"
  using assms by (metis nth_equalityI nth_map)

end

interpretation sha: block_digest sha256 32
  by unfold_locales simp

section \<open>Blocks of a payload\<close>

definition ceil_div :: "nat \<Rightarrow> nat \<Rightarrow> nat" where
  "ceil_div n k = (n + k - 1) div k"

definition svu_block :: "nat \<Rightarrow> 'a list \<Rightarrow> nat \<Rightarrow> 'a list" where
  "svu_block k xs b = take k (drop (b * k) xs)"

definition svu_blocks :: "nat \<Rightarrow> 'a list \<Rightarrow> 'a list list" where
  "svu_blocks k xs = map (svu_block k xs) [0..<ceil_div (length xs) k]"

lemma ceil_div_covers:
  assumes "0 < k"
  shows "n \<le> ceil_div n k * k" and "b < ceil_div n k \<longleftrightarrow> b * k < n"
proof -
  have "(n + k - 1) div k * k + (n + k - 1) mod k = n + k - 1" by simp
  moreover have "(n + k - 1) mod k < k" using assms by simp
  ultimately show "n \<le> ceil_div n k * k" unfolding ceil_div_def by linarith
  have "b < ceil_div n k \<longleftrightarrow> (b + 1) * k \<le> n + k - 1"
    unfolding ceil_div_def using less_eq_div_iff_mult_less_eq [OF assms, of "b + 1" "n + k - 1"] by auto
  then show "b < ceil_div n k \<longleftrightarrow> b * k < n" using assms by auto
qed

lemma concat_svu_block: "concat (map (svu_block k xs) [0..<m]) = take (m * k) xs"
proof (induction m)
  case (Suc m)
  have "take (m * k + k) xs = take (m * k) xs @ svu_block k xs m"
    by (simp only: svu_block_def take_add)
  with Suc show ?case by (simp add: add.commute)
qed simp

lemma concat_svu_blocks: "0 < k \<Longrightarrow> concat (svu_blocks k xs) = xs"
  by (simp add: svu_blocks_def concat_svu_block ceil_div_covers)

lemma eq_blockwise:
  assumes "length xs = m * k" and "length ys = m * k"
  shows "(\<forall>b < m. seg (b * k) (b * k + k) xs = seg (b * k) (b * k + k) ys) \<longleftrightarrow> xs = ys"
proof
  assume "\<forall>b < m. seg (b * k) (b * k + k) xs = seg (b * k) (b * k + k) ys"
  then have "map (svu_block k xs) [0..<m] = map (svu_block k ys) [0..<m]"
    by (simp add: svu_block_def seg_def)
  from arg_cong [OF this, of concat] show "xs = ys"
    using assms by (simp add: concat_svu_block)
qed simp

lemma length_svu_blocks [simp]: "length (svu_blocks k xs) = ceil_div (length xs) k"
  by (simp add: svu_blocks_def)

lemma unat_mul_u32: "unat (ucast (a :: u32) * ucast (b :: u32) :: u64) = unat a * unat b"
proof -
  have "unat a \<le> 4294967295" "unat b \<le> 4294967295"
    using unat_less_pow(3) [of a] unat_less_pow(3) [of b] by linarith+
  then have "unat a * unat b \<le> 4294967295 * 4294967295" by (rule mult_le_mono)
  then show ?thesis by (simp add: unat_word_ariths)
qed

lemma unat_mul_add_u32:
  "unat (ucast (a :: u32) * ucast (b :: u32) + ucast b :: u64) = unat a * unat b + unat b"
proof -
  have le: "unat a \<le> 4294967295" "unat b \<le> 4294967295"
    using unat_less_pow(3) [of a] unat_less_pow(3) [of b] by linarith+
  then have "unat a * unat b \<le> 4294967295 * 4294967295" by (rule mult_le_mono)
  then show ?thesis
    using le by (subst unat_add_lt) (simp_all add: unat_mul_u32)
qed

lemma hash_block_eq:
  assumes "length src = unat total_size"
  shows "hash_block src total_size block b = sha256 (svu_block (unat block) src (unat b))"
proof -
  let ?a = "unat b * unat block"
  have stop: "unat (if ucast b * ucast block + ucast block > (ucast total_size :: u64)
      then ucast total_size else ucast b * ucast block + ucast block :: u64) = min (?a + unat block) (unat total_size)"
    by (auto simp: word_less_nat_alt unat_mul_add_u32 min_def)
  have "seg ?a (min (?a + unat block) (unat total_size)) src = svu_block (unat block) src (unat b)"
    using assms by (auto simp: seg_def svu_block_def min_def)
  moreover have "ci_sha256_final (ci_sha256_update (ci_sha256_init stack_ctx) xs) = sha256 xs" for xs
    using final_absorbed [OF absorbed_update [OF absorbed_init]] by (simp add: stack_ctx_def)
  ultimately show ?thesis
    unfolding hash_block_def Let_def stop unat_mul_u32 by simp
qed

lemma nblocks_ceil:
  "unat (ci_svu_nblocks n k) =
     (if unat n + unat k - 1 < 2 ^ 32 \<and> k \<noteq> 0 then ceil_div (unat n) (unat k) else 0)"
proof (cases "n = 0 \<or> k = 0")
  case True
  then show ?thesis by (auto simp: ci_svu_nblocks_def ceil_div_def unat_gt_0)
next
  case False
  then have pos: "0 < unat n" "0 < unat k" by (simp_all add: unat_gt_0)
  have w: "n + k - 1 = word_of_nat (unat n + unat k - 1)"
    using pos by (simp add: of_nat_diff)
  have lt: "unat n < 4294967296" "unat k < 4294967296" by simp_all
  show ?thesis
  proof (cases "unat n + unat k - 1 < 2 ^ 32")
    case True
    then have "unat (n + k - 1) = unat n + unat k - 1" unfolding w by (rule unat_pos32)
    then show ?thesis using False True by (simp add: ci_svu_nblocks_def ceil_div_def unat_div)
  next
    case wrap: False
    have "unat (n + k - 1) = (unat n + unat k - 1) mod 2 ^ 32"
      unfolding w by (simp add: unsigned_of_nat take_bit_eq_mod)
    also have "\<dots> = unat n + unat k - 1 - 2 ^ 32"
    proof -
      have "unat n + unat k - 1 - 4294967296 < 4294967296" using lt by linarith
      then show ?thesis using wrap by (subst le_mod_geq) simp_all
    qed
    finally have "unat (n + k - 1) = unat n + unat k - 1 - 4294967296" by simp
    then have "unat (n + k - 1) < unat k" using lt pos by linarith
    then show ?thesis using False wrap by (simp add: ci_svu_nblocks_def unat_div)
  qed
qed

section \<open>Reassembly\<close>

text \<open>
  The contract of a reassembly buffer: its state stands for a list of bytes with holes, a fragment
  inside the payload is written over it, and a fragment that runs past the end changes nothing.
\<close>

locale reassembly =
  fixes wf :: "'s \<Rightarrow> bool" and view :: "'s \<Rightarrow> u8 option list"
    and accept :: "'s \<Rightarrow> u32 \<Rightarrow> bytes \<Rightarrow> 's"
  assumes accept_in: "wf s \<Longrightarrow> unat off + length buf \<le> length (view s) \<Longrightarrow>
      wf (accept s off buf) \<and> view (accept s off buf) = memcpy_at (view s) (unat off) (map Some buf)"
    and accept_out: "wf s \<Longrightarrow> length (view s) < unat off + length buf \<Longrightarrow> accept s off buf = s"
begin

lemma accept_wf: "wf s \<Longrightarrow> wf (accept s off buf)"
  using accept_in accept_out by (metis not_le)

lemma length_view: "wf s \<Longrightarrow> length (view (accept s off buf)) = length (view s)"
  using accept_in [of s off buf] accept_out [of s off buf] by (cases "unat off + length buf \<le> length (view s)") auto

lemma run_wf:
  "wf s \<Longrightarrow> wf (foldl (\<lambda>s (off, buf). accept s off buf) s frs) \<and>
     length (view (foldl (\<lambda>s (off, buf). accept s off buf) s frs)) = length (view s)"
  by (induction frs arbitrary: s) (auto simp: accept_wf length_view)

text \<open>
  Fragments cut from a payload \<open>src\<close> write its bytes at exactly the positions that they span,
  whatever their order, overlap or repetition.
\<close>

lemma accept_from_src:
  assumes "wf s" and "length (view s) = length src"
    and "unat off + length buf \<le> length src" and "buf = seg (unat off) (unat off + length buf) src"
  shows "\<forall>i < length src. view (accept s off buf) ! i =
    (if unat off \<le> i \<and> i < unat off + length buf then Some (src ! i) else view s ! i)"
proof (intro allI impI)
  fix i assume i: "i < length src"
  have "buf ! (i - unat off) = src ! i" if "unat off \<le> i" "i < unat off + length buf"
  proof -
    have "i - unat off < length buf" using that by linarith
    then show ?thesis
      using assms(3) that nth_seg [of "unat off + length buf" src "i - unat off" "unat off"]
      by (subst assms(4)) simp
  qed
  then show "view (accept s off buf) ! i =
      (if unat off \<le> i \<and> i < unat off + length buf then Some (src ! i) else view s ! i)"
    using assms(1-3) i accept_in [of s off buf] by (auto simp: nth_memcpy_at)
qed

lemma run_from_src:
  assumes "wf s" and "length (view s) = length src"
    and "\<forall>(off, buf) \<in> set frs. unat off + length buf \<le> length src \<and>
      buf = seg (unat off) (unat off + length buf) src"
  shows "\<forall>i < length src. view (foldl (\<lambda>s (off, buf). accept s off buf) s frs) ! i =
    (if \<exists>(off, buf) \<in> set frs. unat off \<le> i \<and> i < unat off + length buf
     then Some (src ! i) else view s ! i)"
  using assms
proof (induction frs arbitrary: s)
  case (Cons fr frs)
  obtain off buf where fr: "fr = (off, buf)" by fastforce
  have pre: "unat off + length buf \<le> length src" "buf = seg (unat off) (unat off + length buf) src"
    using Cons.prems(3) fr by auto
  note step = accept_from_src [OF Cons.prems(1,2) pre]
  have IH: "\<forall>i < length src. view (foldl (\<lambda>s (off, buf). accept s off buf) (accept s off buf) frs) ! i =
      (if \<exists>(off, buf) \<in> set frs. unat off \<le> i \<and> i < unat off + length buf
       then Some (src ! i) else view (accept s off buf) ! i)"
  proof (rule Cons.IH)
    show "wf (accept s off buf)" "length (view (accept s off buf)) = length src"
      using Cons.prems(1,2) by (simp_all add: accept_wf length_view)
  qed (use Cons.prems(3) in auto)
  then show ?case using step by (simp add: fr)
qed simp

end

text \<open>The state of the uploader as such a buffer.\<close>

definition covered_at :: "ci_svu \<Rightarrow> nat \<Rightarrow> bool" where
  "covered_at s i \<longleftrightarrow> v_covered s ! i \<noteq> 0"

definition svu_view :: "ci_svu \<Rightarrow> u8 option list" where
  "svu_view s = map (\<lambda>i. if covered_at s i then Some (v_data s ! i) else None) [0..<unat (v_total s)]"

definition svu_wf :: "ci_svu \<Rightarrow> bool" where
  "svu_wf s \<longleftrightarrow>
     length (v_data s) = unat (v_total s) \<and> length (v_covered s) = unat (v_total s) \<and>
     unat (v_covered_count s) = card {i. i < unat (v_total s) \<and> covered_at s i} \<and>
     v_total s \<noteq> 0 \<and> v_block s \<noteq> 0 \<and>
     unat (v_nblocks s) = ceil_div (unat (v_total s)) (unat (v_block s)) \<and>
     length (v_expected s) = 32 * unat (v_nblocks s)"

definition svu_accept :: "ci_svu \<Rightarrow> u32 \<Rightarrow> bytes \<Rightarrow> ci_svu" where
  "svu_accept s off buf = the (snd (ci_svu_accept (Some s) off (Some buf)))"

lemma length_svu_view [simp]: "length (svu_view s) = unat (v_total s)"
  by (simp add: svu_view_def)

lemma card_covered_le: "card {i. i < n \<and> P i} \<le> n" for n :: nat
proof -
  have "card {i. i < n \<and> P i} \<le> card {..<n}" by (intro card_mono) auto
  then show ?thesis by simp
qed

lemma accept_cover_frame [simp]:
  "v_total (accept_cover i j s) = v_total s" "v_block (accept_cover i j s) = v_block s"
  "v_nblocks (accept_cover i j s) = v_nblocks s" "v_data (accept_cover i j s) = v_data s"
  "v_expected (accept_cover i j s) = v_expected s"
  "length (v_covered (accept_cover i j s)) = length (v_covered s)"
  by (induction i j s rule: accept_cover.induct, subst accept_cover.simps, simp)+

lemma accept_cover_step:
  assumes "svu_wf s" and "i < unat (v_total s)" and "v_covered s ! i = 0"
    and "s' = s\<lparr>v_covered := (v_covered s)[i := 1], v_covered_count := v_covered_count s + 1\<rparr>"
  shows "svu_wf s' \<and> (\<forall>k < unat (v_total s). covered_at s' k \<longleftrightarrow> k = i \<or> covered_at s k)"
proof -
  have c: "covered_at s' k \<longleftrightarrow> k = i \<or> covered_at s k" if "k < unat (v_total s)" for k
    using assms that by (auto simp: svu_wf_def covered_at_def nth_list_update)
  let ?A = "{k. k < unat (v_total s) \<and> covered_at s k}"
  have "{k. k < unat (v_total s) \<and> covered_at s' k} = insert i ?A" using c assms(2) by auto
  moreover have "i \<notin> ?A" using assms(3) by (simp add: covered_at_def)
  ultimately have card: "card {k. k < unat (v_total s) \<and> covered_at s' k} = card ?A + 1" by simp
  moreover have "card {k. k < unat (v_total s) \<and> covered_at s' k} < 2 ^ 32"
    using le_less_trans [OF card_covered_le unat_less_pow(3) [of "v_total s"]] by simp
  ultimately have "unat (v_covered_count s + 1) = card ?A + 1"
    using assms(1) by (subst unat_add_lt) (simp_all add: svu_wf_def)
  then have "svu_wf s'" using assms(1,4) card by (simp add: svu_wf_def)
  with c show ?thesis by blast
qed

lemma accept_cover_covers:
  "svu_wf s \<Longrightarrow> j \<le> unat (v_total s) \<Longrightarrow>
    svu_wf (accept_cover i j s) \<and>
    (\<forall>k < unat (v_total s). covered_at (accept_cover i j s) k \<longleftrightarrow> (i \<le> k \<and> k < j) \<or> covered_at s k)"
proof (induction i j s rule: accept_cover.induct)
  case (1 i j s)
  define s' where "s' = (if v_covered s ! i = 0
      then s\<lparr>v_covered := (v_covered s)[i := 1], v_covered_count := v_covered_count s + 1\<rparr> else s)"
  show ?case
  proof (cases "i < j")
    case True
    then have i: "i < unat (v_total s)" using "1.prems"(2) by linarith
    have t: "v_total s' = v_total s" by (simp add: s'_def)
    have s': "svu_wf s' \<and> (\<forall>k < unat (v_total s). covered_at s' k \<longleftrightarrow> k = i \<or> covered_at s k)"
    proof (cases "v_covered s ! i = 0")
      case True
      then show ?thesis using accept_cover_step [OF "1.prems"(1) i] by (simp add: s'_def)
    next
      case False
      then show ?thesis using "1.prems"(1) by (auto simp: s'_def covered_at_def)
    qed
    have "accept_cover i j s = accept_cover (i + 1) j s'"
      using True by (simp add: accept_cover.simps [of i j s] s'_def)
    then show ?thesis
      using "1.IH" [OF True, folded s'_def] s' t "1.prems"(2) True
      by (auto simp: Suc_le_eq le_less)
  qed (use "1.prems" in \<open>auto simp: accept_cover.simps [of i j s]\<close>)
qed

lemma svu_accept_in:
  assumes "svu_wf s" and "unat off + length buf \<le> unat (v_total s)"
  shows "ci_svu_accept (Some s) off (Some buf) = (0, Some (svu_accept s off buf))"
    and "svu_wf (svu_accept s off buf)"
    and "svu_view (svu_accept s off buf) = memcpy_at (svu_view s) (unat off) (map Some buf)"
proof -
  let ?j = "unat off + length buf" and ?s = "svu_accept s off buf"
  let ?c = "accept_cover (unat off) ?j s"
  have s': "?s = ?c\<lparr>v_data := memcpy_at (v_data s) (unat off) buf\<rparr>"
    using assms(2) by (auto simp: svu_accept_def ci_svu_accept_def Let_def memcpy_at_def)
  show "ci_svu_accept (Some s) off (Some buf) = (0, Some ?s)"
    using assms(2) by (simp add: svu_accept_def ci_svu_accept_def Let_def)
  note c = accept_cover_covers [OF assms, of "unat off"]
  have cov: "covered_at ?s = covered_at ?c" by (simp add: s' covered_at_def fun_eq_iff)
  have len: "length (v_data s) = unat (v_total s)" using assms(1) by (simp add: svu_wf_def)
  show "svu_wf ?s" using c cov len assms(2) by (auto simp: svu_wf_def s')
  show "svu_view ?s = memcpy_at (svu_view s) (unat off) (map Some buf)"
  proof (rule nth_equalityI)
    fix i assume "i < length (svu_view ?s)"
    then have i: "i < unat (v_total s)" by (simp add: s')
    then show "svu_view ?s ! i = memcpy_at (svu_view s) (unat off) (map Some buf) ! i"
      using c cov len assms(2) by (auto simp: svu_view_def nth_memcpy_at s' )
  qed (use assms(2) in \<open>simp add: s'\<close>)
qed

lemma svu_accept_out:
  "unat (v_total s) < unat off + length buf \<Longrightarrow>
    ci_svu_accept (Some s) off (Some buf) = (-1, Some s) \<and> svu_accept s off buf = s"
  by (simp add: svu_accept_def ci_svu_accept_def)

interpretation svu: reassembly svu_wf svu_view svu_accept
  by unfold_locales (simp_all add: svu_accept_in svu_accept_out)

section \<open>Reported ranges\<close>

definition interval_of :: "nat \<times> nat \<Rightarrow> ci_svu_interval" where
  "interval_of ab = \<lparr>iv_start = word_of_nat (fst ab), iv_end = word_of_nat (snd ab)\<rparr>"

definition push_iv ::
  "u32 \<Rightarrow> ci_svu_interval list option \<times> u32 \<Rightarrow> nat \<times> nat \<Rightarrow> ci_svu_interval list option \<times> u32" where
  "push_iv mx oc ab = push_interval (fst oc) mx (snd oc) (word_of_nat (fst ab)) (word_of_nat (snd ab))"

lemma memcpy_at_Cons:
  "n < length o' \<Longrightarrow> memcpy_at (o'[n := x]) (Suc n) xs = memcpy_at o' n (x # xs)"
  by (simp add: memcpy_at_def take_Suc_conv_app_nth)

lemma memcpy_at_Nil [simp]: "memcpy_at xs n [] = xs"
  by (simp add: memcpy_at_def)

lemma push_all:
  assumes "unat mx \<le> length o'" and "unat c + length ivs < 2 ^ 32"
  shows "foldl (push_iv mx) (Some o', c) ivs =
    (Some (memcpy_at o' (unat c) (take (unat mx - unat c) (map interval_of ivs))),
     c + word_of_nat (length ivs))"
  using assms
proof (induction ivs arbitrary: o' c)
  case (Cons ab ivs)
  have c: "unat (c + 1) = unat c + 1" using Cons.prems(2) by (subst unat_add_lt) simp_all
  show ?case
  proof (cases "c < mx")
    case True
    then have lt: "unat c < unat mx" by (simp add: word_less_nat_alt)
    then have "unat mx - unat c = Suc (unat mx - unat (c + 1))" using c by linarith
    then show ?thesis
      using Cons True lt c by (simp add: push_iv_def push_interval_def memcpy_at_Cons interval_of_def)
  next
    case False
    then have "unat mx - unat c = 0" "unat mx - unat (c + 1) = 0"
      using c by (simp_all add: word_less_nat_alt)
    then show ?thesis using Cons False c by (simp add: push_iv_def push_interval_def)
  qed
qed simp

text \<open>The uncovered runs from position \<open>i\<close> on.\<close>

function hole_list :: "ci_svu \<Rightarrow> nat \<Rightarrow> (nat \<times> nat) list" where
  "hole_list s i =
     (if i < unat (v_total s) then
        if v_covered s ! i = 0 then (i, run_end s i) # hole_list s (run_end s i)
        else hole_list s (i + 1)
      else [])"
  by pat_completeness auto
termination
  by (relation "measure (\<lambda>(s, i). unat (v_total s) - i)") (auto intro!: diff_less_mono2 run_end_gt)

declare hole_list.simps [simp del]

lemma scan_holes_eq: "scan_holes s mx i oc = foldl (push_iv mx) oc (hole_list s i)"
proof (induction s mx i oc rule: scan_holes.induct)
  case (1 s mx i oc)
  then show ?case
    by (auto simp: scan_holes.simps [of s mx i oc] hole_list.simps [of s i] push_iv_def Let_def)
qed

lemma run_end_run:
  "i \<le> unat (v_total s) \<Longrightarrow> run_end s i \<le> unat (v_total s) \<and>
    (\<forall>k. i \<le> k \<and> k < run_end s i \<longrightarrow> \<not> covered_at s k) \<and>
    (run_end s i < unat (v_total s) \<longrightarrow> covered_at s (run_end s i))"
proof (induction s i rule: run_end.induct)
  case (1 s i)
  show ?case
  proof (cases "i < unat (v_total s) \<and> v_covered s ! i = 0")
    case True
    then have e: "run_end s i = run_end s (i + 1)" by (simp add: run_end.simps [of s i])
    have "i + 1 \<le> unat (v_total s)" using True by simp
    note IH = "1.IH" [OF True this]
    have "k = i \<or> i + 1 \<le> k" if "i \<le> k" for k using that by linarith
    then show ?thesis using IH True unfolding e covered_at_def by metis
  next
    case False
    then have e: "run_end s i = i" by (auto simp: run_end.simps [of s i])
    show ?thesis using False "1.prems" unfolding e by (auto simp: covered_at_def)
  qed
qed

text \<open>
  A list of ranges that lists the maximal runs of positions below \<open>n\<close> with property \<open>P\<close>: in
  increasing order, never touching, none empty, and together exactly those positions.
\<close>

definition maximal_runs :: "nat \<Rightarrow> (nat \<Rightarrow> bool) \<Rightarrow> (nat \<times> nat) list \<Rightarrow> bool" where
  "maximal_runs n P ivs \<longleftrightarrow>
     sorted_wrt (\<lambda>x y. snd x < fst y) ivs \<and>
     (\<forall>x \<in> set ivs. fst x < snd x \<and> snd x \<le> n) \<and>
     (\<forall>i. (\<exists>x \<in> set ivs. fst x \<le> i \<and> i < snd x) \<longleftrightarrow> i < n \<and> P i)"

lemma hole_list_runs:
  "i \<le> unat (v_total s) \<Longrightarrow>
    sorted_wrt (\<lambda>x y. snd x < fst y) (hole_list s i) \<and>
    (\<forall>x \<in> set (hole_list s i). i \<le> fst x \<and> fst x < snd x \<and> snd x \<le> unat (v_total s)
       \<and> \<not> covered_at s (fst x)) \<and>
    (\<forall>k. (\<exists>x \<in> set (hole_list s i). fst x \<le> k \<and> k < snd x) \<longleftrightarrow>
       i \<le> k \<and> k < unat (v_total s) \<and> \<not> covered_at s k)"
proof (induction s i rule: hole_list.induct)
  case (1 s i)
  consider "\<not> i < unat (v_total s)"
    | (hole) "i < unat (v_total s)" "v_covered s ! i = 0"
    | (cov) "i < unat (v_total s)" "v_covered s ! i \<noteq> 0" by blast
  then show ?case
  proof cases
    case 1
    then show ?thesis by (auto simp: hole_list.simps [of s i])
  next
    case hole
    let ?r = "run_end s i"
    have e: "hole_list s i = (i, ?r) # hole_list s ?r" using hole by (simp add: hole_list.simps [of s i])
    have r: "?r \<le> unat (v_total s)" "\<forall>k. i \<le> k \<and> k < ?r \<longrightarrow> \<not> covered_at s k"
      "?r < unat (v_total s) \<longrightarrow> covered_at s ?r" "i < ?r"
      using run_end_run [of i s] run_end_gt hole "1.prems" by auto
    note IH = "1.IH"(1) [OF hole r(1)]
    have strict: "?r < fst x" if "x \<in> set (hole_list s ?r)" for x
      using IH r that by (metis le_less_trans less_le not_le)
    have "sorted_wrt (\<lambda>x y. snd x < fst y) (hole_list s i)" using IH strict by (simp add: e)
    moreover have "\<forall>x \<in> set (hole_list s i). i \<le> fst x \<and> fst x < snd x \<and>
        snd x \<le> unat (v_total s) \<and> \<not> covered_at s (fst x)"
      using IH r by (auto simp: e)
    moreover have "(\<exists>x \<in> set (hole_list s i). fst x \<le> k \<and> k < snd x) \<longleftrightarrow>
        i \<le> k \<and> k < unat (v_total s) \<and> \<not> covered_at s k" for k
      using IH r by (cases "k < ?r") (auto simp: e)
    ultimately show ?thesis by blast
  next
    case cov
    have e: "hole_list s i = hole_list s (i + 1)" using cov by (simp add: hole_list.simps [of s i])
    have "i + 1 \<le> unat (v_total s)" using cov by simp
    note IH = "1.IH"(2) [OF cov this]
    have "covered_at s i" using cov by (simp add: covered_at_def)
    then show ?thesis using IH unfolding e by (auto simp: Suc_le_eq le_less)
  qed
qed

lemma hole_list_maximal: "maximal_runs (unat (v_total s)) (\<lambda>i. \<not> covered_at s i) (hole_list s 0)"
  using hole_list_runs [of 0 s] by (auto simp: maximal_runs_def)

lemma length_maximal_runs:
  assumes "maximal_runs n P ivs"
  shows "length ivs \<le> n"
proof -
  have "sorted_wrt (<) (map fst ivs)"
    using assms unfolding maximal_runs_def sorted_wrt_map
    by (auto elim!: sorted_wrt_mono_rel [rotated] intro: less_trans)
  then have d: "distinct (map fst ivs)" by (simp add: strict_sorted_iff)
  have "set (map fst ivs) \<subseteq> {..<n}" using assms by (fastforce simp: maximal_runs_def)
  then have "card (set (map fst ivs)) \<le> card {..<n}" by (intro card_mono) auto
  then show ?thesis using distinct_card [OF d] by simp
qed

text \<open>Maximal runs are unique, and separated runs are at most half as many as the positions.\<close>

lemma maximal_runs_head:
  assumes "maximal_runs n P (x # xs)"
  shows "fst x = (LEAST i. i < n \<and> P i)" and "snd x = (LEAST i. fst x \<le> i \<and> \<not> (i < n \<and> P i))"
proof -
  have x: "fst x < snd x" "snd x \<le> n" and sep: "\<forall>y \<in> set xs. snd x < fst y"
    and pos: "\<And>i. (\<exists>y \<in> set (x # xs). fst y \<le> i \<and> i < snd y) \<longleftrightarrow> i < n \<and> P i"
    using assms by (auto simp: maximal_runs_def)
  have "fst x < n \<and> P (fst x)" using pos [of "fst x"] x by auto
  moreover have "fst x \<le> i" if "i < n \<and> P i" for i
    using that pos [of i] sep x by (auto intro: order_trans)
  ultimately show "fst x = (LEAST i. i < n \<and> P i)" by (intro Least_equality [symmetric]) auto
  have "\<not> (snd x < n \<and> P (snd x))" using pos [of "snd x"] sep by auto
  moreover have "snd x \<le> i" if "fst x \<le> i \<and> \<not> (i < n \<and> P i)" for i
    using that pos [of i] by (meson list.set_intros(1) not_le)
  ultimately show "snd x = (LEAST i. fst x \<le> i \<and> \<not> (i < n \<and> P i))"
    using x by (intro Least_equality [symmetric]) auto
qed

lemma maximal_runs_tail:
  assumes "maximal_runs n P (x # xs)"
  shows "maximal_runs n (\<lambda>i. P i \<and> \<not> (fst x \<le> i \<and> i < snd x)) xs"
proof -
  have sep: "\<forall>y \<in> set xs. snd x < fst y"
    and pos: "\<And>i. (\<exists>y \<in> set (x # xs). fst y \<le> i \<and> i < snd y) \<longleftrightarrow> i < n \<and> P i"
    using assms by (auto simp: maximal_runs_def)
  have "(\<exists>y \<in> set xs. fst y \<le> i \<and> i < snd y) \<longleftrightarrow> i < n \<and> P i \<and> \<not> (fst x \<le> i \<and> i < snd x)" for i
    using pos [of i] sep by fastforce
  then show ?thesis using assms unfolding maximal_runs_def by simp
qed

lemma maximal_runs_Nil_Cons: "maximal_runs n P [] \<Longrightarrow> \<not> maximal_runs n P (x # xs)"
proof
  assume "maximal_runs n P []" "maximal_runs n P (x # xs)"
  then have "\<not> (fst x < n \<and> P (fst x))" "fst x < snd x" "fst x < snd x \<longrightarrow> fst x < n \<and> P (fst x)"
    unfolding maximal_runs_def by (auto simp del: not_less)
  then show False by blast
qed

lemma maximal_runs_unique:
  assumes "maximal_runs n P xs" and "maximal_runs n P ys"
  shows "xs = ys"
  using assms
proof (induction xs arbitrary: ys P)
  case Nil
  then show ?case using maximal_runs_Nil_Cons by (cases ys) auto
next
  case (Cons x xs)
  then obtain y ys' where ys: "ys = y # ys'" using maximal_runs_Nil_Cons by (cases ys) auto
  note hx = maximal_runs_head [OF Cons.prems(1)] and hy = maximal_runs_head [OF Cons.prems(2) [unfolded ys]]
  have "fst x = fst y" using hx(1) hy(1) by simp
  then have "snd x = snd y" using hx(2) hy(2) by simp
  with \<open>fst x = fst y\<close> have xy: "x = y" by (simp add: prod_eq_iff)
  have "xs = ys'"
    using Cons.IH [OF maximal_runs_tail [OF Cons.prems(1)]
        maximal_runs_tail [OF Cons.prems(2) [unfolded ys, folded xy]]] .
  then show ?case using xy ys by simp
qed

lemma maximal_runs_drop:
  assumes "maximal_runs n P xs"
  shows "maximal_runs n (\<lambda>i. P i \<and> \<not> (\<exists>x \<in> set (take m xs). fst x \<le> i \<and> i < snd x)) (drop m xs)"
  using assms
proof (induction m arbitrary: xs P)
  case (Suc m)
  show ?case
  proof (cases xs)
    case Nil
    then show ?thesis using Suc.prems by simp
  next
    case (Cons x ys)
    have "(\<lambda>i. (P i \<and> \<not> (fst x \<le> i \<and> i < snd x)) \<and> \<not> (\<exists>x \<in> set (take m ys). fst x \<le> i \<and> i < snd x)) =
        (\<lambda>i. P i \<and> \<not> (\<exists>x \<in> set (take (Suc m) xs). fst x \<le> i \<and> i < snd x))"
      by (auto simp: Cons)
    with Suc.IH [OF maximal_runs_tail [OF Suc.prems [unfolded Cons]]] show ?thesis by (simp add: Cons)
  qed
qed simp

lemma maximal_runs_half:
  assumes "maximal_runs n P xs"
  shows "2 * length xs \<le> n + 1"
proof -
  have "2 * length ys \<le> n - m + 1"
    if "sorted_wrt (\<lambda>x y. snd x < fst y) ys" "\<forall>x \<in> set ys. fst x < snd x \<and> snd x \<le> n"
      "\<forall>x \<in> set ys. m \<le> fst x" "m \<le> n" for ys and m :: nat
    using that
  proof (induction ys arbitrary: m)
    case (Cons y ys)
    show ?case
    proof (cases ys)
      case (Cons z zs)
      then have "snd y + 1 \<le> n" using Cons.prems(1,2) by fastforce
      then have "2 * length ys \<le> n - (snd y + 1) + 1"
        using Cons.IH [of "snd y + 1"] Cons.prems by (auto simp: Suc_le_eq)
      moreover have "m < snd y" using Cons.prems(2,3) by fastforce
      ultimately show ?thesis using \<open>snd y + 1 \<le> n\<close> by simp
    qed (use Cons.prems in fastforce)
  qed simp
  from this [of xs 0] show ?thesis using assms by (simp add: maximal_runs_def)
qed

section \<open>The verdict\<close>

definition block_bad :: "ci_svu \<Rightarrow> nat \<Rightarrow> bool" where
  "block_bad s b \<longleftrightarrow>
     sha256 (svu_block (unat (v_block s)) (v_data s) b) \<noteq> seg (b * 32) (b * 32 + 32) (v_expected s)"

definition block_range :: "ci_svu \<Rightarrow> nat \<Rightarrow> nat \<times> nat" where
  "block_range s b =
     (b * unat (v_block s), min (b * unat (v_block s) + unat (v_block s)) (unat (v_total s)))"

definition bad_blocks :: "ci_svu \<Rightarrow> nat list" where
  "bad_blocks s = filter (block_bad s) [0..<unat (v_nblocks s)]"

lemma u32_of_u64_nat: "ucast (word_of_nat m :: u64) = (word_of_nat m :: u32)"
  by (rule bit_word_eqI) (auto simp: bit_simps)

lemma check_block_eq:
  assumes "length (v_data s) = unat (v_total s)" and "b < 2 ^ 32"
  shows "check_block s mx st b =
    (if block_bad s b then (CI_SVU_CORRUPT, push_iv mx (snd st) (block_range s b)) else st)"
proof -
  let ?k = "unat (v_block s)"
  have b: "unat (word_of_nat b :: u32) = b" using assms(2) by (rule unat_pos32)
  have start: "(word_of_nat b * ucast (v_block s) :: u64) = word_of_nat (b * ?k)"
    by simp
  have bu: "(word_of_nat b :: u64) = ucast (word_of_nat b :: u32)"
    using b by (simp only: ucast_via_nat)
  have "unat (word_of_nat b * ucast (v_block s) + ucast (v_block s) :: u64) = b * ?k + ?k"
    unfolding bu unat_mul_add_u32 b ..
  then have "(if word_of_nat b * ucast (v_block s) + ucast (v_block s) > (ucast (v_total s) :: u64)
      then ucast (v_total s) else word_of_nat b * ucast (v_block s) + ucast (v_block s) :: u64)
      = word_of_nat (snd (block_range s b))"
    by (auto simp: word_less_nat_alt block_range_def min_def)
  then show ?thesis
    unfolding check_block_def Let_def hash_block_eq [OF assms(1)] b start
    by (simp add: u32_of_u64_nat block_bad_def CI_SVU_HASH_LEN_def push_iv_def block_range_def
        del: of_nat_mult)
qed

lemma check_blocks_eq:
  assumes "length (v_data s) = unat (v_total s)" and "\<forall>b \<in> set bs. b < 2 ^ 32"
  shows "foldl (check_block s mx) (st, oc) bs =
    (if \<exists>b \<in> set bs. block_bad s b then CI_SVU_CORRUPT else st,
     foldl (push_iv mx) oc (map (block_range s) (filter (block_bad s) bs)))"
  using assms(2)
  by (induction bs arbitrary: st oc) (simp_all add: check_block_eq assms(1))

lemma all_covered_iff:
  assumes "svu_wf s"
  shows "\<not> v_covered_count s < v_total s \<longleftrightarrow> (\<forall>i < unat (v_total s). covered_at s i)"
proof -
  let ?n = "unat (v_total s)" and ?A = "{i. i < unat (v_total s) \<and> covered_at s i}"
  have "\<not> v_covered_count s < v_total s \<longleftrightarrow> ?n \<le> card ?A"
    using assms by (simp add: word_less_nat_alt svu_wf_def not_less)
  also have "\<dots> \<longleftrightarrow> ?A = {..<?n}"
  proof
    assume "?n \<le> card ?A"
    then have "card ?A = card {..<?n}" using card_covered_le [of ?n "covered_at s"] by simp
    then show "?A = {..<?n}" by (intro card_subset_eq) auto
  qed simp
  also have "\<dots> \<longleftrightarrow> (\<forall>i < ?n. covered_at s i)" by auto
  finally show ?thesis .
qed

lemma verify_eq:
  assumes "svu_wf s"
  shows "ci_svu_verify (Some s) out mx =
    (if \<forall>i < unat (v_total s). covered_at s i
     then (if bad_blocks s = [] then CI_SVU_COMPLETE_VERIFIED else CI_SVU_CORRUPT,
           foldl (push_iv mx) (out, 0) (map (block_range s) (bad_blocks s)))
     else (CI_SVU_INCOMPLETE, foldl (push_iv mx) (out, 0) (hole_list s 0)))"
proof -
  have lt: "\<forall>b \<in> set [0..<unat (v_nblocks s)]. b < 2 ^ 32"
    using unat_less_pow(3) [of "v_nblocks s"] by (auto intro: less_trans)
  have "length (v_data s) = unat (v_total s)" using assms by (simp add: svu_wf_def)
  from check_blocks_eq [OF this lt] all_covered_iff [OF assms] show ?thesis
    by (auto simp: ci_svu_verify_def scan_holes_eq bad_blocks_def filter_empty_conv)
qed

lemma verify_holes:
  assumes "svu_wf s" and "\<not> (\<forall>i < unat (v_total s). covered_at s i)" and "unat mx \<le> length out"
  shows "length (hole_list s 0) < 2 ^ 32"
    and "ci_svu_verify (Some s) (Some out) mx =
      (CI_SVU_INCOMPLETE, Some (memcpy_at out 0 (take (unat mx) (map interval_of (hole_list s 0)))),
       word_of_nat (length (hole_list s 0)))"
proof -
  show lt: "length (hole_list s 0) < 2 ^ 32"
    using le_less_trans [OF length_maximal_runs [OF hole_list_maximal] unat_less_pow(3) [of "v_total s"]]
    by simp
  then show "ci_svu_verify (Some s) (Some out) mx =
      (CI_SVU_INCOMPLETE, Some (memcpy_at out 0 (take (unat mx) (map interval_of (hole_list s 0)))),
       word_of_nat (length (hole_list s 0)))"
    using verify_eq [OF assms(1), of "Some out" mx] assms(2) push_all [OF assms(3), of 0 "hole_list s 0"]
    by simp
qed

lemma verify_blocks:
  assumes "svu_wf s" and "\<forall>i < unat (v_total s). covered_at s i" and "unat mx \<le> length out"
  shows "length (bad_blocks s) < 2 ^ 32"
    and "ci_svu_verify (Some s) (Some out) mx =
      (if bad_blocks s = [] then CI_SVU_COMPLETE_VERIFIED else CI_SVU_CORRUPT,
       Some (memcpy_at out 0 (take (unat mx) (map (interval_of \<circ> block_range s) (bad_blocks s)))),
       word_of_nat (length (bad_blocks s)))"
proof -
  have "length (bad_blocks s) \<le> unat (v_nblocks s)"
    unfolding bad_blocks_def using length_filter_le [of _ "[0..<unat (v_nblocks s)]"] by simp
  from le_less_trans [OF this unat_less_pow(3)] show lt: "length (bad_blocks s) < 2 ^ 32" by simp
  then show "ci_svu_verify (Some s) (Some out) mx =
      (if bad_blocks s = [] then CI_SVU_COMPLETE_VERIFIED else CI_SVU_CORRUPT,
       Some (memcpy_at out 0 (take (unat mx) (map (interval_of \<circ> block_range s) (bad_blocks s)))),
       word_of_nat (length (bad_blocks s)))"
    using verify_eq [OF assms(1), of "Some out" mx] assms(2)
      push_all [OF assms(3), of 0 "map (block_range s) (bad_blocks s)"]
    by simp
qed

lemma no_bad_blocks_iff:
  assumes "svu_wf s"
  shows "bad_blocks s = [] \<longleftrightarrow> v_expected s = concat (map sha256 (svu_blocks (unat (v_block s)) (v_data s)))"
    (is "_ \<longleftrightarrow> _ = concat (map sha256 ?bs)")
proof -
  have n: "length ?bs = unat (v_nblocks s)" "length (v_expected s) = unat (v_nblocks s) * 32"
    using assms by (simp_all add: svu_wf_def)
  have nth: "seg (b * 32) (b * 32 + 32) (concat (map sha256 ?bs)) =
      sha256 (svu_block (unat (v_block s)) (v_data s) b)" if "b < unat (v_nblocks s)" for b
    using sha.manifest_nth [of b ?bs] that n(1) by (simp add: svu_blocks_def)
  have "bad_blocks s = [] \<longleftrightarrow>
      (\<forall>b < unat (v_nblocks s). seg (b * 32) (b * 32 + 32) (concat (map sha256 ?bs)) =
        seg (b * 32) (b * 32 + 32) (v_expected s))"
    by (simp add: bad_blocks_def block_bad_def filter_empty_conv nth Ball_def atLeastLessThan_iff)
  also have "\<dots> \<longleftrightarrow> concat (map sha256 ?bs) = v_expected s"
    using n sha.length_manifest [of ?bs] by (intro eq_blockwise) simp_all
  finally show ?thesis by auto
qed

section \<open>Manifest, creation and delivery\<close>

lemma fold_memcpy_chunks:
  assumes "\<And>b. length (D b) = k" and "m * k \<le> length out"
  shows "foldl (\<lambda>out b. memcpy_at out (b * k) (D b)) out [0..<m] = concat (map D [0..<m]) @ drop (m * k) out"
  using assms(2)
proof (induction m)
  case (Suc m)
  have "length (concat (map D [0..<m])) = m * k"
    by (induction m) (simp_all add: assms(1) add.commute)
  with Suc show ?case by (simp add: memcpy_at_def assms(1) add.commute)
qed simp

lemma manifest_eq:
  assumes "length src = unat n" and "32 * unat (ci_svu_nblocks n k) \<le> length out"
    and "ci_svu_nblocks n k \<noteq> 0"
  shows "ci_svu_manifest (Some src) n k (Some out) =
    (ci_svu_nblocks n k,
     Some (concat (map sha256 (svu_blocks (unat k) src)) @ drop (32 * unat (ci_svu_nblocks n k)) out))"
proof -
  let ?m = "unat (ci_svu_nblocks n k)"
  have m: "?m = ceil_div (unat n) (unat k)"
    using nblocks_ceil [of n k] assms(3) unat_gt_0 [of "ci_svu_nblocks n k"] by (auto split: if_splits)
  have "unat (word_of_nat b :: u32) = b" if "b < ?m" for b
    using that less_trans [OF that unat_less_pow(3)] by (intro unat_pos32) simp
  then have "map (\<lambda>b. hash_block src n k (word_of_nat b)) [0..<?m] = map sha256 (svu_blocks (unat k) src)"
    using assms(1) m by (simp add: hash_block_eq svu_blocks_def)
  moreover have "length (hash_block src n k b) = 32" for b
    using assms(1) by (simp add: hash_block_eq)
  ultimately show ?thesis
    using assms(2,3) fold_memcpy_chunks [of "\<lambda>b. hash_block src n k (word_of_nat b)" 32 ?m out]
    by (simp add: ci_svu_manifest_def CI_SVU_HASH_LEN_def Let_def mult.commute)
qed

text \<open>A receiver created for the payload \<open>src\<close>, from the manifest of the sender.\<close>

definition svu_receiver :: "bytes \<Rightarrow> u32 \<Rightarrow> ci_svu option" where
  "svu_receiver src k =
     (let n = word_of_nat (length src);
          nblk = ci_svu_nblocks n k;
          digests = snd (ci_svu_manifest (Some src) n k (Some (replicate (32 * unat nblk) 0)))
      in ci_svu_new True n k digests nblk)"

definition payload_ok :: "bytes \<Rightarrow> u32 \<Rightarrow> bool" where
  "payload_ok src k \<longleftrightarrow> src \<noteq> [] \<and> k \<noteq> 0 \<and> length src + unat k \<le> 2 ^ 32"

lemma payload_size:
  assumes "payload_ok src k"
  shows "0 < unat k" and "length src < 2 ^ 32" and "unat (word_of_nat (length src) :: u32) = length src"
proof -
  show k: "0 < unat k" using assms by (simp add: payload_ok_def unat_gt_0)
  then show "length src < 2 ^ 32" using assms by (simp add: payload_ok_def)
  then show "unat (word_of_nat (length src) :: u32) = length src" by (rule unat_pos32)
qed

definition svu_for :: "bytes \<Rightarrow> u32 \<Rightarrow> ci_svu \<Rightarrow> bool" where
  "svu_for src k s \<longleftrightarrow> svu_wf s \<and> unat (v_total s) = length src \<and> v_block s = k \<and>
     v_expected s = concat (map sha256 (svu_blocks (unat k) src))"

lemma svu_new_wf:
  assumes "ci_svu_new ok n k (Some expd) m = Some s" and "32 * unat m \<le> length expd"
  shows "svu_wf s" and "svu_view s = replicate (unat n) None" and "v_expected s = take (32 * unat m) expd"
    and "v_total s = n" and "v_block s = k"
proof -
  have m: "ci_svu_nblocks n k = m" "m \<noteq> 0" and s: "s = \<lparr>v_total = n, v_block = k, v_nblocks = m,
      v_covered_count = 0, v_data = replicate (unat n) 0, v_covered = replicate (unat n) 0,
      v_expected = take (unat m * 32) expd\<rparr>"
    using assms(1) by (auto simp: ci_svu_new_def CI_SVU_HASH_LEN_def Let_def split: if_splits)
  have none: "\<not> covered_at s i" if "i < unat n" for i using that by (simp add: s covered_at_def)
  then have "{i. i < unat n \<and> covered_at s i} = {}" by blast
  moreover have "n \<noteq> 0" "k \<noteq> 0" using m by (auto simp: ci_svu_nblocks_def)
  moreover have "unat m = ceil_div (unat n) (unat k)"
    using nblocks_ceil [of n k] m unat_gt_0 [of m] by (auto split: if_splits)
  ultimately show "svu_wf s" using assms(2) by (simp add: svu_wf_def s)
  show "svu_view s = replicate (unat n) None"
    using none by (simp add: svu_view_def list_eq_iff_nth_eq s)
qed (use assms(1) in \<open>auto simp: ci_svu_new_def CI_SVU_HASH_LEN_def Let_def mult.commute split: if_splits\<close>)

lemma svu_receiver_some:
  assumes "payload_ok src k"
  obtains s where "svu_receiver src k = Some s" "svu_for src k s"
    "svu_view s = replicate (length src) None"
proof -
  let ?n = "word_of_nat (length src) :: u32" and ?m = "ci_svu_nblocks (word_of_nat (length src)) k"
  let ?mf = "concat (map sha256 (svu_blocks (unat k) src))"
  note k = payload_size(1) [OF assms] and n = payload_size(3) [OF assms]
  have m: "unat ?m = ceil_div (length src) (unat k)"
    using nblocks_ceil [of ?n k] n k assms by (auto simp: payload_ok_def)
  then have m0: "?m \<noteq> 0"
    using ceil_div_covers(2) [OF k, of 0 "length src"] assms by (auto simp: payload_ok_def)
  have mf: "ci_svu_manifest (Some src) ?n k (Some (replicate (32 * unat ?m) 0)) = (?m, Some ?mf)"
    using manifest_eq [of src ?n k "replicate (32 * unat ?m) 0"] n m0 by simp
  have len: "length ?mf = 32 * unat ?m"
    using m sha.length_manifest [of "svu_blocks (unat k) src"] by (simp add: mult.commute)
  obtain s where s: "ci_svu_new True ?n k (Some ?mf) ?m = Some s"
    using m0 by (auto simp: ci_svu_new_def Let_def)
  note wf = svu_new_wf [OF s, unfolded len, OF order_refl]
  show ?thesis
  proof
    show "svu_receiver src k = Some s" using s mf by (simp add: svu_receiver_def Let_def)
    show "svu_for src k s" using wf n len by (simp add: svu_for_def)
    show "svu_view s = replicate (length src) None" using wf n by simp
  qed
qed

text \<open>Delivery of a sequence of fragments.\<close>

definition deliver :: "ci_svu option \<Rightarrow> (u32 \<times> bytes) list \<Rightarrow> ci_svu option" where
  "deliver = foldl (\<lambda>sp (off, buf). snd (ci_svu_accept sp off (Some buf)))"

lemma deliver_Some: "deliver (Some s) frs = Some (foldl (\<lambda>s (off, buf). svu_accept s off buf) s frs)"
proof (induction frs arbitrary: s)
  case (Cons fr frs)
  have "snd (ci_svu_accept (Some s) off (Some buf)) = Some (svu_accept s off buf)" for off buf
    by (simp add: svu_accept_def ci_svu_accept_def Let_def)
  with Cons show ?case by (cases fr) (simp add: deliver_def)
qed (simp add: deliver_def)

lemma svu_accept_frame:
  "v_total (svu_accept s off buf) = v_total s" "v_block (svu_accept s off buf) = v_block s"
  "v_expected (svu_accept s off buf) = v_expected s"
  by (auto simp: svu_accept_def ci_svu_accept_def Let_def)

lemma svu_for_deliver:
  assumes "svu_for src k s"
  shows "\<exists>s'. deliver (Some s) frs = Some s' \<and> svu_for src k s'"
proof -
  have "svu_for src k (foldl (\<lambda>s (off, buf). svu_accept s off buf) s frs)"
    using assms
  proof (induction frs arbitrary: s)
    case (Cons fr frs)
    have "svu_for src k (svu_accept s (fst fr) (snd fr))"
      using Cons.prems svu.accept_wf unfolding svu_for_def svu_accept_frame by blast
    from Cons.IH [OF this] show ?case by (simp add: case_prod_beta)
  qed simp
  then show ?thesis by (simp add: deliver_Some)
qed

lemma svu_view_full:
  assumes "svu_for src k s" and "svu_view s = map Some src"
  shows "v_data s = src" and "\<forall>i < unat (v_total s). covered_at s i"
proof -
  have c: "covered_at s i \<and> v_data s ! i = src ! i" if "i < unat (v_total s)" for i
    using arg_cong [OF assms(2), of "\<lambda>xs. xs ! i"] that assms(1)
    by (auto simp: svu_view_def svu_for_def split: if_splits)
  then show "\<forall>i < unat (v_total s). covered_at s i" by blast
  show "v_data s = src"
    using c assms(1) by (intro nth_equalityI) (auto simp: svu_for_def svu_wf_def)
qed

lemma svu_for_full_verified:
  assumes "svu_for src k s" and "svu_view s = map Some src"
  shows "ci_svu_verify (Some s) out mx = (CI_SVU_COMPLETE_VERIFIED, out, 0)"
proof -
  have wf: "svu_wf s" using assms(1) by (simp add: svu_for_def)
  have "bad_blocks s = []"
    using no_bad_blocks_iff [OF wf] svu_view_full(1) [OF assms] assms(1) by (simp add: svu_for_def)
  then show ?thesis
    using verify_eq [OF wf, of out mx] svu_view_full(2) [OF assms] by simp
qed

definition cut_from :: "bytes \<Rightarrow> u32 \<times> bytes \<Rightarrow> bool" where
  "cut_from src fr \<longleftrightarrow> unat (fst fr) + length (snd fr) \<le> length src \<and>
     snd fr = seg (unat (fst fr)) (unat (fst fr) + length (snd fr)) src"

definition spans :: "(u32 \<times> bytes) list \<Rightarrow> nat \<Rightarrow> bool" where
  "spans frs i \<longleftrightarrow> (\<exists>fr \<in> set frs. unat (fst fr) \<le> i \<and> i < unat (fst fr) + length (snd fr))"

lemma deliver_from_src:
  assumes "svu_for src k s" and "\<forall>fr \<in> set frs. cut_from src fr" and "deliver (Some s) frs = Some s'"
  shows "\<forall>i < length src. svu_view s' ! i = (if spans frs i then Some (src ! i) else svu_view s ! i)"
  using svu.run_from_src [of s src frs] assms
  by (auto simp: deliver_Some svu_for_def cut_from_def spans_def case_prod_beta)

lemma delivered_for:
  assumes "payload_ok src k" and "deliver (svu_receiver src k) frs = Some s"
  shows "svu_for src k s"
proof -
  obtain s0 where "svu_receiver src k = Some s0" "svu_for src k s0"
    using svu_receiver_some [OF assms(1)] .
  then show ?thesis using svu_for_deliver [of src k s0 frs] assms(2) by auto
qed

lemma delivered_all:
  assumes "payload_ok src k" and "\<forall>fr \<in> set frs. cut_from src fr" and "\<forall>i < length src. spans frs i"
  obtains s where "deliver (svu_receiver src k) frs = Some s" "svu_for src k s" "svu_view s = map Some src"
proof -
  obtain s where s: "svu_receiver src k = Some s" "svu_for src k s" "svu_view s = replicate (length src) None"
    using svu_receiver_some [OF assms(1)] .
  obtain s' where s': "deliver (Some s) frs = Some s'" "svu_for src k s'"
    using svu_for_deliver [OF s(2)] by blast
  have "\<forall>i < length src. svu_view s' ! i = Some (src ! i)"
    using deliver_from_src [OF s(2) assms(2) s'(1)] assms(3) by simp
  then have "svu_view s' = map Some src"
    using s'(2) by (intro nth_equalityI) (auto simp: svu_for_def)
  with that s(1) s' show ?thesis by auto
qed

lemma verified_or_collision:
  assumes s: "svu_for src k s" and "fst (ci_svu_verify (Some s) out mx) = CI_SVU_COMPLETE_VERIFIED"
  shows "v_data s = src \<or>
    (\<exists>b < length (svu_blocks (unat k) src).
       svu_block (unat k) (v_data s) b \<noteq> svu_block (unat k) src b \<and>
       sha256 (svu_block (unat k) (v_data s) b) = sha256 (svu_block (unat k) src b))"
proof -
  let ?bs = "svu_blocks (unat k) (v_data s)" and ?cs = "svu_blocks (unat k) src"
  have wf: "svu_wf s" and k: "0 < unat k" and len: "length (v_data s) = length src"
    using s by (auto simp: svu_for_def svu_wf_def unat_gt_0)
  have "bad_blocks s = []" using assms(2) verify_eq [OF wf] by (auto split: if_splits)
  then have eq: "concat (map sha256 ?bs) = concat (map sha256 ?cs)"
    using no_bad_blocks_iff [OF wf] s unfolding svu_for_def by metis
  have nth: "?bs ! b = svu_block (unat k) (v_data s) b" "?cs ! b = svu_block (unat k) src b"
    if "b < length ?cs" for b using that len by (simp_all add: svu_blocks_def)
  have "sha256 (?bs ! b) = sha256 (?cs ! b)" if "b < length ?cs" for b
    using sha.manifest_nth [of b ?bs] sha.manifest_nth [of b ?cs] that len eq by simp
  then have "map sha256 ?bs = map sha256 ?cs" using len by (intro nth_equalityI) simp_all
  then have "?bs = ?cs \<or> (\<exists>b < length ?bs. ?bs ! b \<noteq> ?cs ! b \<and> sha256 (?bs ! b) = sha256 (?cs ! b))"
    using len by (intro sha.equal_or_collision) simp_all
  moreover have "v_data s = src" if "?bs = ?cs"
    using that concat_svu_blocks [OF k] by metis
  ultimately show ?thesis using nth len by auto
qed

section \<open>Properties\<close>

text \<open>
  An upload whose fragments all arrive is verified. For every non-empty payload and
  block size (with their sum at most \<open>2^32\<close>), build the manifest, create the receiver from it and
  deliver any sequence of fragments cut from the payload, in any order, with any overlap and
  repetition, that together span it: the verdict is COMPLETE_VERIFIED with no range to request and
  the reassembled bytes are the payload.
\<close>

theorem svu_delivery_verified:
  assumes "payload_ok src k" and "\<forall>fr \<in> set frs. cut_from src fr" and "\<forall>i < length src. spans frs i"
  shows "ci_svu_verify (deliver (svu_receiver src k) frs) out mx = (CI_SVU_COMPLETE_VERIFIED, out, 0) \<and>
    ci_svu_data (deliver (svu_receiver src k) frs) = Some src"
proof -
  obtain s where "deliver (svu_receiver src k) frs = Some s" "svu_for src k s" "svu_view s = map Some src"
    using delivered_all [OF assms] .
  then show ?thesis
    using svu_for_full_verified svu_view_full(1) by (simp add: ci_svu_data_def)
qed

theorem svu_delivery_verified_witness:
  "ci_svu_verify (deliver (svu_receiver [1, 2, 3] 2) [(1, [2, 3]), (0, [1, 2]), (1, [2])]) None 0 =
    (CI_SVU_COMPLETE_VERIFIED, None, 0)"
proof -
  have "payload_ok [1, 2, 3] 2" by (simp add: payload_ok_def)
  moreover have "\<forall>fr \<in> set [(1, [2, 3]), (0, [1, 2]), (1, [2])]. cut_from [1, 2, 3] fr"
    by (simp add: cut_from_def seg_def)
  moreover have "\<forall>i < length [1, 2, 3 :: u8]. spans [(1, [2, 3]), (0, [1, 2]), (1, [2])] i"
    by (auto simp: spans_def)
  ultimately show ?thesis using svu_delivery_verified by blast
qed

text \<open>
  Property C24. The verdict does not lie. Whatever fragments arrived (damaged, misplaced, out of
  range), if the receiver of a payload's manifest reports COMPLETE_VERIFIED then the bytes it hands
  over are the payload, or one of its blocks collides with the payload's block under SHA-256.
\<close>

theorem svu_verified_sound:
  assumes "payload_ok src k" and "deliver (svu_receiver src k) frs = Some s"
    and "fst (ci_svu_verify (Some s) out mx) = CI_SVU_COMPLETE_VERIFIED"
  shows "ci_svu_data (Some s) = Some src \<or>
    (\<exists>b < length (svu_blocks (unat k) src).
       svu_block (unat k) (v_data s) b \<noteq> svu_block (unat k) src b \<and>
       sha256 (svu_block (unat k) (v_data s) b) = sha256 (svu_block (unat k) src b))"
  using verified_or_collision [OF delivered_for [OF assms(1,2)] assms(3)] by (auto simp: ci_svu_data_def)

theorem svu_verified_sound_witness:
  "\<exists>s. deliver (svu_receiver [1, 2, 3] 2) [(0, [1, 2, 3])] = Some s \<and> ci_svu_data (Some s) = Some [1, 2, 3]"
proof -
  have ok: "payload_ok [1, 2, 3] 2" by (simp add: payload_ok_def)
  have fr: "\<forall>fr \<in> set [(0, [1, 2, 3])]. cut_from [1, 2, 3] fr" "\<forall>i < length [1, 2, 3 :: u8]. spans [(0, [1, 2, 3])] i"
    by (auto simp: cut_from_def spans_def seg_def)
  obtain s where s: "deliver (svu_receiver [1, 2, 3] 2) [(0, [1, 2, 3])] = Some s" "svu_for [1, 2, 3] 2 s"
    "svu_view s = map Some [1, 2, 3]"
    using delivered_all [OF ok fr] .
  from svu_for_full_verified [OF s(2,3), of None 0]
  have "fst (ci_svu_verify (Some s) None 0) = CI_SVU_COMPLETE_VERIFIED" by simp
  from svu_verified_sound [OF ok s(1) this] svu_view_full(1) [OF s(2,3)] s(1)
  show ?thesis by (auto simp: ci_svu_data_def)
qed

text \<open>
  Property C30. Missing bytes are reported exactly. On an incomplete receiver the verdict is
  INCOMPLETE and the ranges are the maximal runs of uncovered bytes, in increasing order. The
  count is the number of runs; the first \<open>max\<close> of them are stored, the rest of the caller's array
  is untouched.
\<close>

theorem svu_incomplete_ranges:
  assumes "svu_wf s" and "\<exists>i < unat (v_total s). \<not> covered_at s i" and "unat mx \<le> length out"
  shows "\<exists>ivs. maximal_runs (unat (v_total s)) (\<lambda>i. \<not> covered_at s i) ivs \<and> ivs \<noteq> [] \<and>
    length ivs < 2 ^ 32 \<and>
    ci_svu_verify (Some s) (Some out) mx =
      (CI_SVU_INCOMPLETE, Some (memcpy_at out 0 (take (unat mx) (map interval_of ivs))),
       word_of_nat (length ivs))"
proof -
  have "hole_list s 0 \<noteq> []" using hole_list_maximal [of s] assms(2) by (auto simp: maximal_runs_def)
  then show ?thesis using verify_holes [OF assms(1) _ assms(3)] assms(2) hole_list_maximal [of s] by blast
qed

text \<open>A receiver of four bytes in two blocks with the two outer bytes missing.\<close>

definition example_svu :: "bytes \<Rightarrow> ci_svu" where
  "example_svu cov = \<lparr>v_total = 4, v_block = 2, v_nblocks = 2,
     v_covered_count = word_of_nat (length (filter (\<lambda>c. c \<noteq> 0) cov)), v_data = [9, 8, 7, 6],
     v_covered = cov, v_expected = replicate 64 0\<rparr>"

lemma example_svu_wf:
  assumes "length cov = 4"
  shows "svu_wf (example_svu cov)"
proof -
  have "card {i. i < 4 \<and> covered_at (example_svu cov) i} = length (filter (\<lambda>c. c \<noteq> 0) cov)"
    using assms by (simp add: length_filter_conv_card covered_at_def example_svu_def)
  moreover have "length (filter (\<lambda>c. c \<noteq> 0) cov) < 2 ^ 32"
    using assms le_less_trans [OF length_filter_le [of "\<lambda>c. c \<noteq> 0" cov], of "2 ^ 32"] by simp
  ultimately show ?thesis
    using assms unat_pos32 by (auto simp: svu_wf_def example_svu_def ceil_div_def)
qed

theorem svu_incomplete_ranges_witness:
  "\<exists>ivs. maximal_runs 4 (\<lambda>i. \<not> covered_at (example_svu [0, 1, 1, 0]) i) ivs \<and> ivs \<noteq> [] \<and>
    ci_svu_verify (Some (example_svu [0, 1, 1, 0])) (Some []) 0 =
      (CI_SVU_INCOMPLETE, Some [], word_of_nat (length ivs))"
proof -
  have "\<exists>i < unat (v_total (example_svu [0, 1, 1, 0])). \<not> covered_at (example_svu [0, 1, 1, 0]) i"
    by (rule exI [of _ 0]) (simp add: example_svu_def covered_at_def)
  from svu_incomplete_ranges [OF example_svu_wf this, of 0 "[]"] show ?thesis
    by (simp add: example_svu_def) blast
qed

text \<open>
  Property C31. Corrupt blocks are reported exactly. On a receiver with full coverage the verdict is
  COMPLETE_VERIFIED if every block's SHA-256 equals its entry of the manifest and CORRUPT
  otherwise, and the reported ranges are those of the failing blocks, in order, the last one cut
  at the end of the payload.
\<close>

theorem svu_corrupt_ranges:
  assumes "svu_wf s" and "\<forall>i < unat (v_total s). covered_at s i" and "unat mx \<le> length out"
  shows "ci_svu_verify (Some s) (Some out) mx =
    (if bad_blocks s = [] then CI_SVU_COMPLETE_VERIFIED else CI_SVU_CORRUPT,
     Some (memcpy_at out 0 (take (unat mx) (map (interval_of \<circ> block_range s) (bad_blocks s)))),
     word_of_nat (length (bad_blocks s))) \<and>
    (bad_blocks s = [] \<longleftrightarrow> v_expected s = concat (map sha256 (svu_blocks (unat (v_block s)) (v_data s))))"
  using verify_blocks(2) [OF assms] no_bad_blocks_iff [OF assms(1)] by blast

theorem svu_corrupt_ranges_witness:
  "fst (ci_svu_verify (Some (example_svu [1, 1, 1, 1])) (Some []) 0) =
    (if bad_blocks (example_svu [1, 1, 1, 1]) = [] then CI_SVU_COMPLETE_VERIFIED else CI_SVU_CORRUPT)"
proof -
  have "\<forall>i < unat (v_total (example_svu [1, 1, 1, 1])). covered_at (example_svu [1, 1, 1, 1]) i"
  proof -
    have "[1, 1, 1, 1 :: u8] = replicate 4 1" by (simp add: numeral_eq_Suc)
    then show ?thesis by (simp add: example_svu_def covered_at_def)
  qed
  from svu_corrupt_ranges [OF example_svu_wf this, of 0 "[]"] show ?thesis by simp
qed

text \<open>Answering a verdict: the sender cuts the requested ranges from the payload.\<close>

definition answer :: "bytes \<Rightarrow> ci_svu_interval list \<Rightarrow> (u32 \<times> bytes) list" where
  "answer src ivs = map (\<lambda>iv. (iv_start iv, seg (unat (iv_start iv)) (unat (iv_end iv)) src)) ivs"

lemma answer_ranges:
  assumes "\<forall>x \<in> set rs. fst x \<le> snd x \<and> snd x \<le> length src" and "length src < 2 ^ 32"
  shows "\<forall>fr \<in> set (answer src (map interval_of rs)). cut_from src fr"
    and "spans (answer src (map interval_of rs)) i \<longleftrightarrow> (\<exists>x \<in> set rs. fst x \<le> i \<and> i < snd x)"
proof -
  have u: "unat (word_of_nat (fst x) :: u32) = fst x" "unat (word_of_nat (snd x) :: u32) = snd x"
    if "x \<in> set rs" for x
    using assms that by (auto intro!: unat_pos32 intro: le_less_trans)
  then show "\<forall>fr \<in> set (answer src (map interval_of rs)). cut_from src fr"
    using assms(1) by (auto simp: answer_def cut_from_def interval_of_def seg_def)
  have "length (seg (fst x) (snd x) src) = snd x - fst x" if "x \<in> set rs" for x
    using assms(1) that by simp
  then show "spans (answer src (map interval_of rs)) i \<longleftrightarrow> (\<exists>x \<in> set rs. fst x \<le> i \<and> i < snd x)"
    using assms(1) u by (auto simp: answer_def spans_def interval_of_def)
qed

lemma take_memcpy_at_0: "length xs \<le> length out \<Longrightarrow> take (length xs) (memcpy_at out 0 xs) = xs"
  by (simp add: memcpy_at_def)

lemma svu_block_seg: "svu_block k xs b = seg (b * k) (min (b * k + k) (length xs)) xs"
  by (auto simp: svu_block_def seg_def min_def)

lemma svu_block_cong:
  assumes "length xs = length ys"
    and "\<And>i. b * k \<le> i \<Longrightarrow> i < min (b * k + k) (length xs) \<Longrightarrow> xs ! i = ys ! i"
  shows "svu_block k xs b = svu_block k ys b"
proof -
  have "seg (b * k) (min (b * k + k) (length xs)) xs = seg (b * k) (min (b * k + k) (length xs)) ys"
    using assms by (subst seg_eq_iff) simp_all
  then show ?thesis using assms(1) by (simp only: svu_block_seg)
qed

lemma block_ranges_disjoint:
  assumes "fst (block_range s b) \<le> i" "i < snd (block_range s b)"
    and "fst (block_range s c) \<le> i" "i < snd (block_range s c)"
  shows "b = c"
proof -
  let ?k = "unat (v_block s)"
  have div: "i div ?k = d" if "d * ?k \<le> i" "i < d * ?k + ?k" for d
    using that by (intro div_nat_eqI) (auto simp: mult.commute)
  show ?thesis using assms div [of b] div [of c] by (auto simp: block_range_def)
qed

lemma resend_corrupt:
  assumes s: "svu_for src k s" and full: "\<forall>i < unat (v_total s). covered_at s i"
    and run: "deliver (Some s) (answer src (map (interval_of \<circ> block_range s) (bad_blocks s))) = Some s'"
  shows "svu_for src k s'" and "\<forall>i < unat (v_total s'). covered_at s' i" and "bad_blocks s' = []"
proof -
  let ?rs = "map (block_range s) (bad_blocks s)" and ?n = "length src" and ?k = "unat k"
  have n: "unat (v_total s) = ?n" "v_block s = k" and kpos: "0 < ?k" and wf: "svu_wf s"
    and lend: "length (v_data s) = ?n"
    using s by (auto simp: svu_for_def svu_wf_def unat_gt_0)
  have nlt: "?n < 2 ^ 32" using n(1) unat_less_pow(3) [of "v_total s"] by simp
  have lt: "b * ?k < ?n" if "b \<in> set (bad_blocks s)" for b
    using that wf n ceil_div_covers(2) [OF kpos, of b ?n] by (auto simp: bad_blocks_def svu_wf_def)
  have rs: "\<forall>x \<in> set ?rs. fst x \<le> snd x \<and> snd x \<le> ?n"
    using lt n by (auto simp: block_range_def less_imp_le)
  have run': "deliver (Some s) (answer src (map interval_of ?rs)) = Some s'" using run by simp
  show s': "svu_for src k s'" using svu_for_deliver [OF s] run' by (metis option.inject)
  have view: "svu_view s' ! i = (if \<exists>x \<in> set ?rs. fst x \<le> i \<and> i < snd x then Some (src ! i) else svu_view s ! i)"
    if "i < ?n" for i
    using deliver_from_src [OF s answer_ranges(1) [OF rs nlt] run'] answer_ranges(2) [OF rs nlt] that by auto
  have n': "unat (v_total s') = ?n" "v_block s' = k" "svu_wf s'" "length (v_data s') = ?n"
    using s' by (auto simp: svu_for_def svu_wf_def)
  have byte: "covered_at s' i \<and> v_data s' ! i =
      (if \<exists>b \<in> set (bad_blocks s). fst (block_range s b) \<le> i \<and> i < snd (block_range s b)
       then src ! i else v_data s ! i)"
    if "i < ?n" for i
    using view [OF that] that full n n' by (auto simp: svu_view_def split: if_splits)
  then show "\<forall>i < unat (v_total s'). covered_at s' i" using n' by simp
  have "\<not> block_bad s' b" if b: "b < unat (v_nblocks s')" for b
  proof -
    have same: "v_expected s' = v_expected s" "v_nblocks s' = v_nblocks s"
      using s s' n n' by (auto simp: svu_for_def svu_wf_def intro: unsigned_word_eqI [where ?'a = nat])
    have exp: "seg (b * 32) (b * 32 + 32) (v_expected s) = sha256 (svu_block ?k src b)"
      using s b same n' sha.manifest_nth [of b "svu_blocks ?k src"]
      by (auto simp: svu_for_def svu_wf_def svu_blocks_def)
    have rng: "block_range s b = (b * ?k, min (b * ?k + ?k) ?n)" using n by (simp add: block_range_def)
    show ?thesis
    proof (cases "block_bad s b")
      case True
      then have "b \<in> set (bad_blocks s)" using b same by (simp add: bad_blocks_def)
      then have "svu_block ?k (v_data s') b = svu_block ?k src b"
        using byte n' rng by (intro svu_block_cong) (auto intro!: bexI [of _ b])
      then show ?thesis using exp same n' by (simp add: block_bad_def)
    next
      case False
      then have "b \<notin> set (bad_blocks s)" by (simp add: bad_blocks_def)
      have "svu_block ?k (v_data s') b = svu_block ?k (v_data s) b"
      proof (rule svu_block_cong)
        fix i assume i: "b * ?k \<le> i" "i < min (b * ?k + ?k) (length (v_data s'))"
        then have "fst (block_range s b) \<le> i" "i < snd (block_range s b)" using n' rng by simp_all
        then have "\<not> (\<exists>c \<in> set (bad_blocks s). fst (block_range s c) \<le> i \<and> i < snd (block_range s c))"
          using block_ranges_disjoint \<open>b \<notin> set (bad_blocks s)\<close> by blast
        then show "v_data s' ! i = v_data s ! i" using byte [of i] i n' by auto
      qed (use n' lend in simp)
      then show ?thesis using False same n n' by (simp add: block_bad_def)
    qed
  qed
  then show "bad_blocks s' = []" by (simp add: bad_blocks_def filter_empty_conv)
qed

lemma answer_completes:
  assumes "svu_for src k s" and "unat mx \<le> length out"
    and "ci_svu_verify (Some s) (Some out) mx = (st, Some out', cnt)" and "unat cnt \<le> unat mx"
    and "st = CI_SVU_INCOMPLETE \<longrightarrow> (\<forall>i < length src. svu_view s ! i \<in> {None, Some (src ! i)})"
  shows "fst (ci_svu_verify (deliver (Some s) (answer src (take (unat cnt) out'))) None 0)
      = CI_SVU_COMPLETE_VERIFIED \<and>
    (st = CI_SVU_INCOMPLETE \<longrightarrow>
      ci_svu_data (deliver (Some s) (answer src (take (unat cnt) out'))) = Some src)"
proof -
  have wf: "svu_wf s" and n: "unat (v_total s) = length src" using assms(1) by (simp_all add: svu_for_def)
  have nlt: "length src < 2 ^ 32" using n unat_less_pow(3) [of "v_total s"] by simp
  show ?thesis
  proof (cases "\<forall>i < unat (v_total s). covered_at s i")
    case True
    let ?ivs = "map (interval_of \<circ> block_range s) (bad_blocks s)"
    have c: "out' = memcpy_at out 0 (take (unat mx) ?ivs)" "unat cnt = length ?ivs"
      and st: "st \<noteq> CI_SVU_INCOMPLETE"
      using verify_blocks [OF wf True assms(2)] assms(3) unat_pos32 by (auto split: if_splits)
    then have "take (unat cnt) out' = ?ivs"
      using assms(2,4) take_memcpy_at_0 [of ?ivs out] by simp
    moreover obtain s' where s': "deliver (Some s) (answer src ?ivs) = Some s'" by (simp add: deliver_Some)
    ultimately show ?thesis
      using resend_corrupt [OF assms(1) True s'] st verify_eq [of s' None 0] by (simp add: svu_for_def)
  next
    case False
    let ?ivs = "map interval_of (hole_list s 0)"
    note runs = hole_list_maximal [of s, unfolded n]
    have c: "out' = memcpy_at out 0 (take (unat mx) ?ivs)" "unat cnt = length ?ivs"
      and st: "st = CI_SVU_INCOMPLETE"
      using verify_holes [OF wf False assms(2)] assms(3) unat_pos32 by auto
    then have t: "take (unat cnt) out' = ?ivs"
      using assms(2,4) take_memcpy_at_0 [of ?ivs out] by simp
    have rs: "\<forall>x \<in> set (hole_list s 0). fst x \<le> snd x \<and> snd x \<le> length src"
      using runs by (auto simp: maximal_runs_def)
    obtain s' where s': "deliver (Some s) (answer src ?ivs) = Some s'" "svu_for src k s'"
      using svu_for_deliver [OF assms(1)] by blast
    have "svu_view s' ! i = Some (src ! i)" if "i < length src" for i
    proof -
      have "spans (answer src ?ivs) i \<longleftrightarrow> \<not> covered_at s i"
        using answer_ranges(2) [OF rs nlt, of i] runs that by (auto simp: maximal_runs_def)
      moreover have "svu_view s ! i \<noteq> None" if "covered_at s i"
        using that \<open>i < length src\<close> n by (simp add: svu_view_def)
      ultimately show ?thesis
        using deliver_from_src [OF assms(1) answer_ranges(1) [OF rs nlt] s'(1)] assms(5) st that by auto
    qed
    then have "svu_view s' = map Some src"
      using s'(2) by (intro nth_equalityI) (auto simp: svu_for_def)
    then show ?thesis
      using svu_for_full_verified [OF s'(2)] svu_view_full(1) [OF s'(2)] s'(1) t by (simp add: ci_svu_data_def)
  qed
qed

text \<open>
  Property C25. One answered request is enough. Take a receiver of the payload's manifest whose
  verdict lists all its ranges (the count is at most \<open>max\<close>, and the array has \<open>max\<close> entries). If the
  sender's bytes for exactly these ranges arrive, then after CORRUPT the verdict is
  COMPLETE_VERIFIED; after INCOMPLETE it is COMPLETE_VERIFIED as well, with the payload as the data,
  provided the bytes that had arrived were right (with a wrong one among them the next verdict is
  CORRUPT and a second request is needed).
\<close>

theorem svu_answer_completes:
  assumes "svu_for src k s" and "unat mx \<le> length out"
    and "ci_svu_verify (Some s) (Some out) mx = (st, Some out', cnt)" and "unat cnt \<le> unat mx"
    and "st = CI_SVU_INCOMPLETE \<longrightarrow> (\<forall>i < length src. svu_view s ! i \<in> {None, Some (src ! i)})"
  shows "fst (ci_svu_verify (deliver (Some s) (answer src (take (unat cnt) out'))) None 0)
      = CI_SVU_COMPLETE_VERIFIED \<and>
    (st = CI_SVU_INCOMPLETE \<longrightarrow>
      ci_svu_data (deliver (Some s) (answer src (take (unat cnt) out'))) = Some src)"
  using assms by (rule answer_completes)

theorem svu_answer_completes_witness:
  "\<exists>s out' cnt. svu_receiver [1, 2, 3] 2 = Some s \<and>
    ci_svu_verify (Some s) (Some (replicate 3 \<lparr>iv_start = 0, iv_end = 0\<rparr>)) 3 =
      (CI_SVU_INCOMPLETE, Some out', cnt) \<and>
    fst (ci_svu_verify (deliver (Some s) (answer [1, 2, 3] (take (unat cnt) out'))) None 0)
      = CI_SVU_COMPLETE_VERIFIED \<and>
    ci_svu_data (deliver (Some s) (answer [1, 2, 3] (take (unat cnt) out'))) = Some [1, 2, 3]"
proof -
  obtain s where s: "svu_receiver [1, 2, 3] 2 = Some s" "svu_for [1, 2, 3] 2 s"
    "svu_view s = replicate (length [1, 2, 3 :: u8]) None"
    using svu_receiver_some [of "[1, 2, 3]" 2] by (auto simp: payload_ok_def)
  let ?out = "replicate 3 \<lparr>iv_start = 0, iv_end = 0\<rparr>" and ?ivs = "hole_list s 0"
  have n: "unat (v_total s) = 3" and wf: "svu_wf s" using s(2) by (simp_all add: svu_for_def)
  have "svu_view s ! 0 = None" using s(3) by simp
  then have hole: "\<not> (\<forall>i < unat (v_total s). covered_at s i)"
    using n by (auto simp: svu_view_def intro!: exI [of _ 0] split: if_splits)
  have le: "unat (3 :: u32) \<le> length ?out" by simp
  note v = verify_holes [OF wf hole le]
  have "length ?ivs \<le> 3" using length_maximal_runs [OF hole_list_maximal [of s]] n by simp
  then have "unat (word_of_nat (length ?ivs) :: u32) \<le> unat (3 :: u32)"
    using unat_pos32 [OF v(1)] by simp
  from svu_answer_completes [OF s(2) le v(2) this] s v(2) show ?thesis
    by (auto simp: less_Suc_eq numeral_3_eq_3)
qed

text \<open>
  Property C32. Accepting a fragment keeps the receiver well-formed and has exactly its effect: a
  fragment inside the payload is acknowledged, becomes the content of its positions (last writer
  wins) and marks them covered, and the covered count stays the number of covered bytes; a
  fragment that runs past the payload is refused and changes nothing.
\<close>

theorem svu_accept_effect:
  assumes "svu_wf s"
  shows "\<exists>r s'. ci_svu_accept (Some s) off (Some buf) = (r, Some s') \<and> svu_wf s' \<and>
    (if unat off + length buf \<le> unat (v_total s)
     then r = 0 \<and> svu_view s' = memcpy_at (svu_view s) (unat off) (map Some buf)
     else r = -1 \<and> s' = s) \<and>
    unat (ci_svu_covered (Some s')) = card {i. i < unat (v_total s) \<and> svu_view s' ! i \<noteq> None}"
proof -
  have c: "unat (ci_svu_covered (Some t)) = card {i. i < unat (v_total t) \<and> svu_view t ! i \<noteq> None}"
    if "svu_wf t" for t
  proof -
    have "{i. i < unat (v_total t) \<and> svu_view t ! i \<noteq> None} = {i. i < unat (v_total t) \<and> covered_at t i}"
      by (auto simp: svu_view_def split: if_splits)
    then show ?thesis using that by (simp add: ci_svu_covered_def svu_wf_def)
  qed
  show ?thesis
  proof (cases "unat off + length buf \<le> unat (v_total s)")
    case True
    then show ?thesis
      using svu_accept_in [OF assms True] c [of "svu_accept s off buf"] svu_accept_frame(1) [of s off buf]
      by auto
  next
    case False
    then show ?thesis using svu_accept_out [of s off buf] assms c [of s] by auto
  qed
qed

theorem svu_accept_effect_witness:
  "\<exists>s'. ci_svu_accept (Some (example_svu [0, 1, 1, 0])) 3 (Some [5]) = (0, Some s') \<and> svu_wf s'"
proof -
  have "unat (3 :: u32) + length [5 :: u8] \<le> unat (v_total (example_svu [0, 1, 1, 0]))"
    by (simp add: example_svu_def)
  with svu_accept_effect [OF example_svu_wf, of "[0, 1, 1, 0]" 3 "[5]"] show ?thesis by auto
qed

text \<open>
  The block count is the ceiling of the quotient whenever the 32-bit sum in its
  computation does not wrap. When it wraps the count is 0, so a payload within a block of 4 GiB is
  refused: the manifest is empty and no receiver is created.
\<close>

theorem svu_nblocks_ceiling_or_zero:
  "unat (ci_svu_nblocks n k) =
     (if n \<noteq> 0 \<and> k \<noteq> 0 \<and> unat n + unat k \<le> 2 ^ 32 then ceil_div (unat n) (unat k) else 0) \<and>
   (2 ^ 32 < unat n + unat k \<longrightarrow> ci_svu_new ok n k expected nblocks = None)"
proof -
  have c: "unat (ci_svu_nblocks n k) =
     (if n \<noteq> 0 \<and> k \<noteq> 0 \<and> unat n + unat k \<le> 2 ^ 32 then ceil_div (unat n) (unat k) else 0)"
    using nblocks_ceil [of n k] unat_gt_0 [of k] unat_less_pow(3) [of k]
    by (cases "n = 0") (auto simp: ceil_div_def)
  have "ci_svu_new ok n k expected nblocks = None" if "2 ^ 32 < unat n + unat k"
  proof -
    have "ci_svu_nblocks n k = 0" using c that by (auto simp: unat_eq_0)
    then show ?thesis by (simp add: ci_svu_new_def split: option.split)
  qed
  with c show ?thesis by blast
qed

theorem svu_nblocks_ceiling_or_zero_witness:
  "ci_svu_new True 0xFFFFFFFF 4096 (Some []) 0x100000 = None"
  using svu_nblocks_ceiling_or_zero [of "0xFFFFFFFF" 4096 True "Some []" "0x100000"] by simp

end
