(* ===== verification/SVU_Proto.thy ===== *)
theory SVU_Proto
  imports CI_Prelude
begin

text \<open>
  The wire format of the uploader, \<open>src/svu/svu_proto.h\<close>: little-endian accessors, the meta request
  with its list of byte ranges, and the announcement that hands a destination path to the daemon.
  The lemmas are the round trips of each encoder with its decoder.
\<close>

section \<open>Constants and data\<close>

definition SVU_DATA_HDR :: nat where [const_defs]: "SVU_DATA_HDR = 8"
definition SVU_MAGIC_REQ :: u32 where [const_defs]: "SVU_MAGIC_REQ = 0x51555653"
definition SVU_MAGIC_RESP :: u32 where [const_defs]: "SVU_MAGIC_RESP = 0x52555653"
definition SVU_MAX_INTERVALS :: nat where [const_defs]: "SVU_MAX_INTERVALS = 32"
definition SVU_REQ_HDR :: nat where [const_defs]: "SVU_REQ_HDR = 24"
definition SVU_RESP_HDR :: nat where [const_defs]: "SVU_RESP_HDR = 20"
definition SVU_PUSH_MAGIC :: u32 where [const_defs]: "SVU_PUSH_MAGIC = 0x53565550"

record svu_wire_interval =
  wi_start :: u32
  wi_end :: u32

record svu_req =
  q_magic :: u32
  q_session_id :: u32
  q_mtu :: u32
  q_block_size :: u32
  q_nof_intervals :: u32
  q_client_addr :: u32
  q_intervals :: "svu_wire_interval list"

section \<open>Accessors\<close>

definition svu_put32 :: "bytes \<Rightarrow> nat \<Rightarrow> u32 \<Rightarrow> bytes" where
  "svu_put32 buf p v =
     buf[p := ucast (v AND 0xFF), p + 1 := ucast (drop_bit 8 v AND 0xFF),
         p + 2 := ucast (drop_bit 16 v AND 0xFF), p + 3 := ucast (drop_bit 24 v AND 0xFF)]"

definition svu_get32 :: "bytes \<Rightarrow> nat \<Rightarrow> u32" where
  "svu_get32 buf p =
     ucast (buf ! p) OR push_bit 8 (ucast (buf ! (p + 1))) OR
     push_bit 16 (ucast (buf ! (p + 2))) OR push_bit 24 (ucast (buf ! (p + 3)))"

section \<open>The meta request\<close>

definition put_interval :: "svu_req \<Rightarrow> bytes \<Rightarrow> nat \<Rightarrow> bytes" where
  "put_interval r buf i =
     svu_put32 (svu_put32 buf (SVU_REQ_HDR + i * 8) (wi_start (q_intervals r ! i)))
       (SVU_REQ_HDR + i * 8 + 4) (wi_end (q_intervals r ! i))"

definition svu_req_encode :: "svu_req \<Rightarrow> bytes \<Rightarrow> nat \<times> bytes" where
  "svu_req_encode r buf =
     (let n = q_nof_intervals r;
          n = (if n > word_of_nat SVU_MAX_INTERVALS then word_of_nat SVU_MAX_INTERVALS else n);
          buf = svu_put32 buf 0 (q_magic r);
          buf = svu_put32 buf 4 (q_session_id r);
          buf = svu_put32 buf 8 (q_mtu r);
          buf = svu_put32 buf 12 (q_block_size r);
          buf = svu_put32 buf 16 n;
          buf = svu_put32 buf 20 (q_client_addr r);
          buf = foldl (put_interval r) buf [0..<unat n]
      in (SVU_REQ_HDR + unat n * 8, buf))"

definition get_interval :: "bytes \<Rightarrow> nat \<Rightarrow> svu_wire_interval" where
  "get_interval buf i =
     \<lparr>wi_start = svu_get32 buf (SVU_REQ_HDR + i * 8), wi_end = svu_get32 buf (SVU_REQ_HDR + i * 8 + 4)\<rparr>"

definition svu_req_decode :: "bytes option \<Rightarrow> svu_req option" where
  "svu_req_decode bufp =
     (case bufp of
        None \<Rightarrow> None
      | Some buf \<Rightarrow>
          if length buf < SVU_REQ_HDR then None
          else let r = \<lparr>q_magic = svu_get32 buf 0, q_session_id = svu_get32 buf 4,
                        q_mtu = svu_get32 buf 8, q_block_size = svu_get32 buf 12,
                        q_nof_intervals = svu_get32 buf 16, q_client_addr = svu_get32 buf 20,
                        q_intervals = replicate SVU_MAX_INTERVALS \<lparr>wi_start = 0, wi_end = 0\<rparr>\<rparr>
               in if q_magic r \<noteq> SVU_MAGIC_REQ \<or> q_nof_intervals r > word_of_nat SVU_MAX_INTERVALS then None
                  else if length buf < SVU_REQ_HDR + unat (q_nof_intervals r) * 8 then None
                  else Some (foldl (\<lambda>r i. r\<lparr>q_intervals := (q_intervals r)[i := get_interval buf i]\<rparr>)
                               r [0..<unat (q_nof_intervals r)]))"

section \<open>The push announcement\<close>

text \<open>
  A path is the list of its characters' codes, without the terminating zero; \<open>bufcap\<close> and
  \<open>pathcap\<close> are the sizes of the destination arrays.
\<close>

definition svu_announce_encode :: "u32 \<Rightarrow> bytes \<Rightarrow> bytes \<Rightarrow> nat \<times> bytes" where
  "svu_announce_encode mode path buf =
     (let plen = length path; bufcap = length buf
      in if mode = 0
         then (let plen = (if plen > bufcap then bufcap else plen)
               in (plen, memcpy_at buf 0 (take plen path)))
         else (let plen = (if plen + 8 > bufcap then (if bufcap > 8 then bufcap - 8 else 0) else plen);
                   buf = svu_put32 buf 0 SVU_PUSH_MAGIC;
                   buf = svu_put32 buf 4 mode;
                   buf = memcpy_at buf 8 (take plen path)
               in (8 + plen, buf)))"

definition svu_announce_decode :: "bytes \<Rightarrow> nat \<Rightarrow> u32 \<times> bytes" where
  "svu_announce_decode buf pathcap =
     (let (mode, psrc) =
            (if length buf \<ge> 8 \<and> svu_get32 buf 0 = SVU_PUSH_MAGIC
             then (svu_get32 buf 4, drop 8 buf) else (0, buf));
          plen = length psrc
      in if pathcap = 0 then (mode, [])
         else let plen = (if plen \<ge> pathcap then pathcap - 1 else plen)
              in (mode, takeWhile (\<lambda>c. c \<noteq> 0) (take plen psrc)))"

section \<open>Accessor lemmas\<close>

lemma svu_get32_le32: "svu_get32 buf p = le32 (buf ! p) (buf ! (p + 1)) (buf ! (p + 2)) (buf ! (p + 3))"
  by (simp add: svu_get32_def le32_def)

lemma low_byte: "ucast (v AND 0xFF) = (ucast v :: u8)" for v :: u32
  by (rule bit_word_eqI) (auto simp: bit_simps bit_numeral_rec less_Suc_eq numeral_eq_Suc)

lemma length_svu_put32 [simp]: "length (svu_put32 buf p v) = length buf"
  by (simp add: svu_put32_def)

lemma svu_put32_nth_other:
  "i < p \<or> p + 4 \<le> i \<Longrightarrow> svu_put32 buf p v ! i = buf ! i"
  by (auto simp: svu_put32_def)

lemma svu_get32_put32 [simp]:
  "p + 4 \<le> length buf \<Longrightarrow> svu_get32 (svu_put32 buf p v) p = v"
  by (simp add: svu_get32_le32 svu_put32_def low_byte le32_split)

lemma svu_get32_put32_other [simp]:
  "q + 4 \<le> p \<or> p + 4 \<le> q \<Longrightarrow> svu_get32 (svu_put32 buf p v) q = svu_get32 buf q"
  by (auto simp: svu_get32_le32 svu_put32_nth_other)

lemma svu_get32_take: "p + 4 \<le> n \<Longrightarrow> svu_get32 (take n buf) p = svu_get32 buf p"
  by (simp add: svu_get32_le32)

lemma length_put_interval [simp]: "length (put_interval r buf i) = length buf"
  by (simp add: put_interval_def)

lemma get_put_interval:
  assumes "24 + i * 8 + 8 \<le> length buf"
  shows "get_interval (put_interval r buf i) i = q_intervals r ! i"
  using assms by (simp add: get_interval_def put_interval_def SVU_REQ_HDR_def)

lemma get_put_interval_other:
  assumes "i \<noteq> j"
  shows "get_interval (put_interval r buf i) j = get_interval buf j"
proof -
  have "j + 1 \<le> i \<or> i + 1 \<le> j" using assms by linarith
  then show ?thesis by (auto simp: get_interval_def put_interval_def SVU_REQ_HDR_def)
qed

lemma put_intervals:
  assumes "24 + m * 8 \<le> length buf"
  shows "length (foldl (put_interval r) buf [0..<m]) = length buf"
    and "q + 4 \<le> 24 \<Longrightarrow> svu_get32 (foldl (put_interval r) buf [0..<m]) q = svu_get32 buf q"
    and "i < m \<Longrightarrow> get_interval (foldl (put_interval r) buf [0..<m]) i = q_intervals r ! i"
proof -
  have "length (foldl (put_interval r) buf [0..<m]) = length buf \<and>
    (q + 4 \<le> 24 \<longrightarrow> svu_get32 (foldl (put_interval r) buf [0..<m]) q = svu_get32 buf q) \<and>
    (\<forall>i < m. get_interval (foldl (put_interval r) buf [0..<m]) i = q_intervals r ! i)"
    using assms
  proof (induction m)
    case (Suc m)
    let ?b = "foldl (put_interval r) buf [0..<m]"
    have IH: "length ?b = length buf" "q + 4 \<le> 24 \<longrightarrow> svu_get32 ?b q = svu_get32 buf q"
      "\<forall>i < m. get_interval ?b i = q_intervals r ! i" using Suc by auto
    have "svu_get32 (put_interval r ?b m) q = svu_get32 ?b q" if "q + 4 \<le> 24"
      using that by (simp add: put_interval_def SVU_REQ_HDR_def)
    moreover have "get_interval (put_interval r ?b m) m = q_intervals r ! m"
      using Suc.prems IH(1) by (intro get_put_interval) simp
    ultimately show ?case using IH by (auto simp: less_Suc_eq get_put_interval_other)
  qed simp
  then show "length (foldl (put_interval r) buf [0..<m]) = length buf"
    "q + 4 \<le> 24 \<Longrightarrow> svu_get32 (foldl (put_interval r) buf [0..<m]) q = svu_get32 buf q"
    "i < m \<Longrightarrow> get_interval (foldl (put_interval r) buf [0..<m]) i = q_intervals r ! i"
    by blast+
qed

lemma get_intervals:
  "m \<le> length (q_intervals r) \<Longrightarrow>
    foldl (\<lambda>r i. r\<lparr>q_intervals := (q_intervals r)[i := get_interval buf i]\<rparr>) r [0..<m] =
    r\<lparr>q_intervals := map (get_interval buf) [0..<m] @ drop m (q_intervals r)\<rparr>"
proof (induction m)
  case (Suc m)
  have "drop m (q_intervals r) = q_intervals r ! m # drop (Suc m) (q_intervals r)"
    using Suc.prems by (simp add: Cons_nth_drop_Suc)
  with Suc show ?case by (simp add: list_update_append)
qed simp

text \<open>The header words and the ranges determine the bytes.\<close>

lemma le32_inject: "le32 a b c d = le32 a' b' c' d' \<Longrightarrow> a = a' \<and> b = b' \<and> c = c' \<and> d = d'"
  by (metis le32_bytes)

lemma bytes_eq_by_words:
  assumes "length xs = 4 * m" and "length ys = 4 * m"
    and "\<And>j. j < m \<Longrightarrow> svu_get32 xs (4 * j) = svu_get32 ys (4 * j)"
  shows "xs = ys"
proof (rule nth_equalityI)
  fix i assume "i < length xs"
  then have j: "i div 4 < m" using assms(1) by linarith
  have i: "i = 4 * (i div 4) + i mod 4" by simp
  have "i mod 4 < 4" by simp
  then consider "i mod 4 = 0" | "i mod 4 = 1" | "i mod 4 = 2" | "i mod 4 = 3" by linarith
  then show "xs ! i = ys ! i"
    using le32_inject [OF assms(3) [OF j, unfolded svu_get32_le32]] i by cases (metis add_0_right)+
qed (use assms in simp)

definition wire_words :: "bytes \<Rightarrow> nat \<Rightarrow> u32 list" where
  "wire_words buf m = map (\<lambda>j. svu_get32 buf (4 * j)) [0..<m]"

lemma encode_words:
  fixes buf :: bytes
  assumes "unat (q_nof_intervals r) \<le> 32" and "24 + unat (q_nof_intervals r) * 8 \<le> length buf"
    and "svu_req_encode r buf = (n, buf')"
  shows "n = 24 + unat (q_nof_intervals r) * 8" and "length buf' = length buf"
    and "svu_get32 buf' 0 = q_magic r" "svu_get32 buf' 4 = q_session_id r" "svu_get32 buf' 8 = q_mtu r"
    and "svu_get32 buf' 12 = q_block_size r" "svu_get32 buf' 16 = q_nof_intervals r"
    and "svu_get32 buf' 20 = q_client_addr r"
    and "i < unat (q_nof_intervals r) \<Longrightarrow> get_interval buf' i = q_intervals r ! i"
proof -
  let ?b = "svu_put32 (svu_put32 (svu_put32 (svu_put32 (svu_put32 (svu_put32 buf 0 (q_magic r)) 4
      (q_session_id r)) 8 (q_mtu r)) 12 (q_block_size r)) 16 (q_nof_intervals r)) 20 (q_client_addr r)"
  have "\<not> q_nof_intervals r > word_of_nat SVU_MAX_INTERVALS"
    using assms(1) by (simp add: word_less_nat_alt SVU_MAX_INTERVALS_def)
  then have e: "n = 24 + unat (q_nof_intervals r) * 8"
    "buf' = foldl (put_interval r) ?b [0..<unat (q_nof_intervals r)]"
    using assms(3) by (simp_all add: svu_req_encode_def Let_def SVU_REQ_HDR_def)
  have "24 + unat (q_nof_intervals r) * 8 \<le> length ?b" using assms(2) by simp
  note p = put_intervals [OF this, where r = r]
  show "n = 24 + unat (q_nof_intervals r) * 8" by (rule e)
  show "length buf' = length buf"
    "svu_get32 buf' 0 = q_magic r" "svu_get32 buf' 4 = q_session_id r" "svu_get32 buf' 8 = q_mtu r"
    "svu_get32 buf' 12 = q_block_size r" "svu_get32 buf' 16 = q_nof_intervals r"
    "svu_get32 buf' 20 = q_client_addr r"
    "i < unat (q_nof_intervals r) \<Longrightarrow> get_interval buf' i = q_intervals r ! i"
    using assms(2) by (simp_all add: e p)
qed

lemma decode_eq:
  "svu_req_decode (Some buf) =
    (if length buf < 24 \<or> svu_get32 buf 0 \<noteq> SVU_MAGIC_REQ \<or> unat (svu_get32 buf 16) > 32 \<or>
        length buf < 24 + unat (svu_get32 buf 16) * 8 then None
     else Some \<lparr>q_magic = SVU_MAGIC_REQ, q_session_id = svu_get32 buf 4, q_mtu = svu_get32 buf 8,
       q_block_size = svu_get32 buf 12, q_nof_intervals = svu_get32 buf 16,
       q_client_addr = svu_get32 buf 20,
       q_intervals = map (get_interval buf) [0..<unat (svu_get32 buf 16)] @
         replicate (32 - unat (svu_get32 buf 16)) \<lparr>wi_start = 0, wi_end = 0\<rparr>\<rparr>)"
  by (simp add: svu_req_decode_def Let_def word_less_nat_alt SVU_MAX_INTERVALS_def SVU_REQ_HDR_def
      get_intervals del: upt_Suc)

lemma req_roundtrip:
  assumes "q_magic r = SVU_MAGIC_REQ" and "unat (q_nof_intervals r) \<le> 32"
    and "unat (q_nof_intervals r) \<le> length (q_intervals r)"
    and "24 + unat (q_nof_intervals r) * 8 \<le> length buf" and "svu_req_encode r buf = (n, buf')"
  shows "svu_req_decode (Some (take n buf')) =
    Some (r\<lparr>q_intervals := take (unat (q_nof_intervals r)) (q_intervals r) @
      replicate (32 - unat (q_nof_intervals r)) \<lparr>wi_start = 0, wi_end = 0\<rparr>\<rparr>)"
proof -
  note w = encode_words [OF assms(2,4,5)]
  let ?k = "unat (q_nof_intervals r)"
  have g: "svu_get32 (take n buf') j = svu_get32 buf' j" if "j + 4 \<le> 24" for j
    using that by (intro svu_get32_take) (simp add: w(1))
  have iv: "get_interval (take n buf') i = q_intervals r ! i" if "i < ?k" for i
    using that w(9) [OF that] by (simp add: get_interval_def svu_get32_take w(1) SVU_REQ_HDR_def)
  have "map (get_interval (take n buf')) [0..<?k] = take ?k (q_intervals r)"
    using assms(3) iv by (intro nth_equalityI) simp_all
  moreover have "length (take n buf') = 24 + ?k * 8" using assms(4) w(1,2) by simp
  ultimately have "svu_req_decode (Some (take n buf')) =
      Some \<lparr>q_magic = q_magic r, q_session_id = q_session_id r, q_mtu = q_mtu r,
        q_block_size = q_block_size r, q_nof_intervals = q_nof_intervals r,
        q_client_addr = q_client_addr r, q_intervals = take ?k (q_intervals r) @
          replicate (32 - ?k) \<lparr>wi_start = 0, wi_end = 0\<rparr>\<rparr>"
    using assms(1,2) by (simp add: decode_eq g w(3-8))
  then show ?thesis by simp
qed

section \<open>Properties\<close>

text \<open>
  Property C39. A meta request survives the wire: with the right magic, at most 32 ranges and a buffer that has room,
  decoding the bytes that the encoder produced gives the request back, with the unused entries of
  its range array zero.
\<close>

theorem svu_req_roundtrip:
  assumes "q_magic r = SVU_MAGIC_REQ" and "unat (q_nof_intervals r) \<le> 32"
    and "unat (q_nof_intervals r) \<le> length (q_intervals r)"
    and "24 + unat (q_nof_intervals r) * 8 \<le> length buf" and "svu_req_encode r buf = (n, buf')"
  shows "svu_req_decode (Some (take n buf')) =
    Some (r\<lparr>q_intervals := take (unat (q_nof_intervals r)) (q_intervals r) @
      replicate (32 - unat (q_nof_intervals r)) \<lparr>wi_start = 0, wi_end = 0\<rparr>\<rparr>)"
  using assms by (rule req_roundtrip)

definition example_req :: svu_req where
  "example_req = \<lparr>q_magic = SVU_MAGIC_REQ, q_session_id = 1, q_mtu = 200, q_block_size = 1024,
     q_nof_intervals = 1, q_client_addr = 0, q_intervals = [\<lparr>wi_start = 5, wi_end = 9\<rparr>]\<rparr>"

theorem svu_req_roundtrip_witness:
  "svu_req_decode (Some (take (fst (svu_req_encode example_req (replicate 280 0)))
       (snd (svu_req_encode example_req (replicate 280 0))))) =
    Some (example_req\<lparr>q_intervals := \<lparr>wi_start = 5, wi_end = 9\<rparr> #
      replicate 31 \<lparr>wi_start = 0, wi_end = 0\<rparr>\<rparr>)"
  by (subst svu_req_roundtrip [OF _ _ _ _ prod.collapse [symmetric]]) (simp_all add: example_req_def)

text \<open>
  The decoder accepts only well-formed requests and loses nothing: an accepted packet
  holds its header and all the ranges it announces (so no read is out of bounds), carries the
  magic and at most 32 ranges, and encoding the result again gives the packet's bytes.
\<close>

theorem svu_req_decode_faithful:
  assumes "svu_req_decode (Some buf) = Some r" and "280 \<le> length scratch"
  shows "q_magic r = SVU_MAGIC_REQ \<and> unat (q_nof_intervals r) \<le> 32 \<and> length (q_intervals r) = 32 \<and>
    24 + unat (q_nof_intervals r) * 8 \<le> length buf \<and>
    take (fst (svu_req_encode r scratch)) (snd (svu_req_encode r scratch)) =
      take (fst (svu_req_encode r scratch)) buf"
proof -
  let ?k = "unat (svu_get32 buf 16)"
  have c: "svu_get32 buf 0 = SVU_MAGIC_REQ" "?k \<le> 32" "24 + ?k * 8 \<le> length buf"
    and r: "q_magic r = SVU_MAGIC_REQ" "q_session_id r = svu_get32 buf 4" "q_mtu r = svu_get32 buf 8"
      "q_block_size r = svu_get32 buf 12" "q_nof_intervals r = svu_get32 buf 16"
      "q_client_addr r = svu_get32 buf 20"
      "q_intervals r = map (get_interval buf) [0..<?k] @ replicate (32 - ?k) \<lparr>wi_start = 0, wi_end = 0\<rparr>"
    using assms(1) by (auto simp: decode_eq split: if_splits)
  obtain n b where e: "svu_req_encode r scratch = (n, b)" by fastforce
  have "unat (q_nof_intervals r) \<le> 32" "24 + unat (q_nof_intervals r) * 8 \<le> length scratch"
    using c assms(2) r(5) by simp_all
  note w = encode_words [OF this e]
  have n: "n = 4 * (6 + 2 * ?k)" using w(1) r(5) by simp
  have "take n b = take n buf"
  proof (rule bytes_eq_by_words)
    show "length (take n b) = 4 * (6 + 2 * ?k)" "length (take n buf) = 4 * (6 + 2 * ?k)"
      using n w(2) c assms(2) by simp_all
  next
    fix j assume j: "j < 6 + 2 * ?k"
    have "svu_get32 b (4 * j) = svu_get32 buf (4 * j)"
    proof (cases "j < 6")
      case True
      then consider "j = 0" | "j = 1" | "j = 2" | "j = 3" | "j = 4" | "j = 5" by linarith
      then show ?thesis using w(3-8) r c(1) by cases simp_all
    next
      case False
      define i where "i = (j - 6) div 2"
      have i: "i < ?k" and jj: "j = 6 + 2 * i \<or> j = 7 + 2 * i" using j False by (auto simp: i_def)
      have "get_interval b i = get_interval buf i" using w(9) [of i] i r(5,7) by (simp add: nth_append)
      moreover have "4 * j = 24 + i * 8 \<or> 4 * j = 24 + i * 8 + 4" using jj by auto
      ultimately show ?thesis by (auto simp: get_interval_def SVU_REQ_HDR_def)
    qed
    then show "svu_get32 (take n b) (4 * j) = svu_get32 (take n buf) (4 * j)"
      using n j by (simp add: svu_get32_take)
  qed
  then show ?thesis using c r e by simp
qed

definition example_req_bytes :: bytes where
  "example_req_bytes = [0x53, 0x56, 0x55, 0x51, 1, 0, 0, 0, 200, 0, 0, 0, 0, 4, 0, 0, 0, 0, 0, 0, 7, 0, 0, 0]"

theorem svu_req_decode_faithful_witness:
  "\<exists>r. svu_req_decode (Some example_req_bytes) = Some r \<and>
    take 24 (snd (svu_req_encode r (replicate 280 0))) = example_req_bytes"
proof -
  have d: "\<exists>r. svu_req_decode (Some example_req_bytes) = Some r \<and> q_nof_intervals r = 0"
    by (simp add: decode_eq example_req_bytes_def svu_get32_def const_defs)
  then obtain r where r: "svu_req_decode (Some example_req_bytes) = Some r" "q_nof_intervals r = 0" by blast
  then have "fst (svu_req_encode r (replicate 280 0)) = 24"
    by (simp add: svu_req_encode_def Let_def SVU_REQ_HDR_def)
  with svu_req_decode_faithful [OF r(1), of "replicate 280 0"] r(1) show ?thesis
    by (simp add: example_req_bytes_def)
qed

lemma announce_mode:
  assumes "mode \<noteq> 0" and "0 \<notin> set path" and "length path + 8 \<le> length buf" and "length path < pathcap"
    and "svu_announce_encode mode path buf = (n, buf')"
  shows "svu_announce_decode (take n buf') pathcap = (mode, path)"
proof -
  let ?b = "svu_put32 (svu_put32 buf 0 SVU_PUSH_MAGIC) 4 mode"
  have n: "n = 8 + length path" and b: "buf' = memcpy_at ?b 8 path"
    using assms(1,3,5) by (auto simp: svu_announce_encode_def Let_def)
  have t: "take n buf' = take 8 ?b @ path" using assms(3) by (simp add: n b memcpy_at_def)
  have "svu_get32 (take n buf') j = svu_get32 ?b j" if "j + 4 \<le> 8" for j
    using that assms(3) by (simp add: t svu_get32_le32 nth_append)
  from this [of 0] this [of 4] have "svu_get32 (take n buf') 0 = SVU_PUSH_MAGIC" "svu_get32 (take n buf') 4 = mode"
    using assms(3) by simp_all
  moreover have "length (take n buf') = 8 + length path" "drop 8 (take n buf') = path"
    using assms(3) by (simp_all add: t)
  moreover have "takeWhile (\<lambda>c. c \<noteq> 0) path = path" using assms(2) by (auto simp: takeWhile_eq_all_conv)
  ultimately show ?thesis
    using assms(4) by (simp add: svu_announce_decode_def)
qed

text \<open>
  An announcement with a mode survives the wire: for a non-zero mode, a path without
  zero bytes that fits the packet and the daemon's path array, the daemon reads the same mode and
  the same path.
\<close>

theorem svu_announce_roundtrip:
  assumes "mode \<noteq> 0" and "0 \<notin> set path" and "length path + 8 \<le> length buf" and "length path < pathcap"
    and "svu_announce_encode mode path buf = (n, buf')"
  shows "svu_announce_decode (take n buf') pathcap = (mode, path)"
  using assms by (rule announce_mode)

theorem svu_announce_roundtrip_witness:
  "svu_announce_decode (take (fst (svu_announce_encode 493 [0x2F, 0x61] (replicate 200 0)))
     (snd (svu_announce_encode 493 [0x2F, 0x61] (replicate 200 0)))) 256 = (493, [0x2F, 0x61])"
  by (rule svu_announce_roundtrip [OF _ _ _ _ prod.collapse [symmetric]]) simp_all

lemma announce_bare:
  assumes "0 \<notin> set path" and "length path \<le> length buf" and "length path < pathcap"
    and "svu_announce_encode 0 path buf = (n, buf')"
  shows "svu_announce_decode (take n buf') pathcap = (0, path) \<longleftrightarrow>
    \<not> (8 \<le> length path \<and> take 4 path = [0x50, 0x55, 0x56, 0x53])"
proof -
  have t: "take n buf' = path"
    using assms(2,4) by (auto simp: svu_announce_encode_def Let_def memcpy_at_def)
  have tw: "takeWhile (\<lambda>c. c \<noteq> 0) path = path" using assms(1) by (auto simp: takeWhile_eq_all_conv)
  show ?thesis
  proof (cases "8 \<le> length path")
    case True
    have magic: "SVU_PUSH_MAGIC = le32 0x50 0x55 0x56 0x53" by (simp add: SVU_PUSH_MAGIC_def le32_def)
    have "take 4 path = [path ! 0, path ! 1, path ! 2, path ! 3]"
      using True by (intro nth_equalityI) (auto simp: less_Suc_eq numeral_eq_Suc nth_Cons split: nat.splits)
    then have iff: "svu_get32 path 0 = SVU_PUSH_MAGIC \<longleftrightarrow> take 4 path = [0x50, 0x55, 0x56, 0x53]"
      unfolding magic svu_get32_le32 add_0
      using le32_inject [of "path ! 0" "path ! 1" "path ! 2" "path ! 3"] by auto
    have "svu_announce_decode path pathcap \<noteq> (0, path)" if "svu_get32 path 0 = SVU_PUSH_MAGIC"
    proof
      assume "svu_announce_decode path pathcap = (0, path)"
      then have "path = takeWhile (\<lambda>c. c \<noteq> 0) (drop 8 path)"
        using that True assms(3) by (simp add: svu_announce_decode_def split: if_splits)
      then have "length path \<le> length (drop 8 path)" by (metis length_takeWhile_le)
      then show False using True by simp
    qed
    then show ?thesis
      using True iff t tw assms(3) by (auto simp: svu_announce_decode_def)
  next
    case False
    then show ?thesis using t tw assms(3) by (simp add: svu_announce_decode_def)
  qed
qed

text \<open>A path that does not fit is cut by the encoder.\<close>

lemma announce_encode_take:
  "mode \<noteq> 0 \<Longrightarrow> 8 \<le> length buf \<Longrightarrow>
     svu_announce_encode mode path buf = svu_announce_encode mode (take (length buf - 8) path) buf"
  "svu_announce_encode 0 path buf = svu_announce_encode 0 (take (length buf) path) buf"
  by (auto simp: svu_announce_encode_def Let_def min_def)

lemma announce_carries:
  assumes "0 \<notin> set path" and "8 \<le> length buf" and "length buf < pathcap"
    and "svu_announce_encode mode path buf = (n, buf')"
    and "mode = 0 \<longrightarrow> \<not> (8 \<le> length path \<and> take 4 path = [0x50, 0x55, 0x56, 0x53])"
  shows "svu_announce_decode (take n buf') pathcap = (mode, take (if mode = 0 then length buf else length buf - 8) path)"
proof (cases "mode = 0")
  case True
  let ?p = "take (length buf) path"
  have z: "0 \<notin> set ?p" using assms(1) by (auto dest: in_set_takeD)
  have "\<not> (8 \<le> length ?p \<and> take 4 ?p = [0x50, 0x55, 0x56, 0x53])" using assms(2,5) True by auto
  moreover have "svu_announce_encode 0 ?p buf = (n, buf')" using assms(4) True announce_encode_take(2) by metis
  ultimately show ?thesis using announce_bare [OF z, of buf pathcap n buf'] assms(2,3) True by simp
next
  case False
  let ?p = "take (length buf - 8) path"
  have z: "0 \<notin> set ?p" using assms(1) by (auto dest: in_set_takeD)
  have "svu_announce_encode mode ?p buf = (n, buf')"
    using assms(4) announce_encode_take(1) [OF False assms(2), of path] by simp
  then show ?thesis using announce_mode [OF False z, of buf pathcap n buf'] assms(2,3) False by simp
qed

text \<open>
  An announcement without a mode is the bare path, so that older daemons read it. The
  current daemon reads it back as mode 0 with the same path, except exactly when the path is at
  least eight characters long and begins with the four characters PUVS: it is then taken for the
  newer format, and both the mode and the path are wrong.
\<close>

theorem svu_announce_legacy:
  assumes "0 \<notin> set path" and "length path \<le> length buf" and "length path < pathcap"
    and "svu_announce_encode 0 path buf = (n, buf')"
  shows "svu_announce_decode (take n buf') pathcap = (0, path) \<longleftrightarrow>
    \<not> (8 \<le> length path \<and> take 4 path = [0x50, 0x55, 0x56, 0x53])"
  using assms by (rule announce_bare)

theorem svu_announce_legacy_witness:
  "svu_announce_decode (take (fst (svu_announce_encode 0 [0x50, 0x55, 0x56, 0x53, 1, 2, 3, 4, 5] (replicate 200 0)))
     (snd (svu_announce_encode 0 [0x50, 0x55, 0x56, 0x53, 1, 2, 3, 4, 5] (replicate 200 0)))) 256
   \<noteq> (0, [0x50, 0x55, 0x56, 0x53, 1, 2, 3, 4, 5])"
  by (subst svu_announce_legacy [OF _ _ _ prod.collapse [symmetric]]) simp_all

end
