(* ===== verification/SVU_Serve.thy ===== *)
theory SVU_Serve
  imports CI_Svu SVU_Proto
begin

text \<open>
  The sending side of the uploader, \<open>src/svu/svu_serve.c\<close>: loading the file, sending the manifest,
  blasting byte ranges as fire-and-forget packets, and the request handler around them.

  libcsp is outside the sources. What the code uses of it is a parameter: \<open>got c\<close> says whether the
  \<open>c\<close>-th call of \<open>csp_buffer_get\<close> of a request returns a buffer, and \<open>cap\<close> is the number of data
  bytes a buffer holds. A write past a buffer or a read past the file is the value \<open>Inl fault\<close>, and
  a loop that runs forever is \<open>None\<close>.
\<close>

datatype fault = Buffer_Overflow | Source_Overread

type_synonym 'a run = "(fault + 'a) option"

definition run_bind :: "'a run \<Rightarrow> ('a \<Rightarrow> 'b run) \<Rightarrow> 'b run" where
  "run_bind m f = (case m of None \<Rightarrow> None | Some (Inl e) \<Rightarrow> Some (Inl e) | Some (Inr x) \<Rightarrow> f x)"

lemma run_bind_simps [simp]:
  "run_bind None f = None" "run_bind (Some (Inl e)) f = Some (Inl e)" "run_bind (Some (Inr x)) f = f x"
  by (simp_all add: run_bind_def)

section \<open>Loading the file\<close>

text \<open>The results of the library calls on the file, in the order in which they are made.\<close>

record file_io =
  io_open :: bool
  io_seek :: bool
  io_tell :: int
  io_alloc :: bool
  io_read :: bytes

definition svu_load_file :: "file_io \<Rightarrow> (bytes \<times> u32) option" where
  "svu_load_file f =
     (if \<not> io_open f then None
      else if \<not> io_seek f then None
      else let n = io_tell f
           in if n < 0 then None
              else if \<not> io_alloc f then None
              else if int (length (io_read f)) \<noteq> n then None
              else Some (io_read f, word_of_int n))"

section \<open>The loops\<close>

definition manifest_chunk :: u32 where "manifest_chunk = 200"

partial_function (option) manifest_loop ::
  "(nat \<Rightarrow> bool) \<Rightarrow> nat \<Rightarrow> bytes \<Rightarrow> u32 \<Rightarrow> u32 \<Rightarrow> nat \<Rightarrow> bytes list \<Rightarrow> (fault + (bytes list \<times> nat)) option" where
  "manifest_loop got cap manifest nbytes off c sent =
     (if off < nbytes then
        (let len = (if off + manifest_chunk \<le> nbytes then manifest_chunk else nbytes - off)
         in if \<not> got c then Some (Inr (sent, c + 1))
            else if unat len > cap then Some (Inl Buffer_Overflow)
            else if unat off + unat len > length manifest then Some (Inl Source_Overread)
            else manifest_loop got cap manifest nbytes (off + manifest_chunk) (c + 1)
                   (sent @ [seg (unat off) (unat off + unat len) manifest]))
      else Some (Inr (sent, c)))"

definition send_manifest ::
  "(nat \<Rightarrow> bool) \<Rightarrow> nat \<Rightarrow> bytes \<Rightarrow> u32 \<Rightarrow> nat \<Rightarrow> (bytes list \<times> nat) run" where
  "send_manifest got cap manifest nbytes c = manifest_loop got cap manifest nbytes 0 c []"

text \<open>
  A data packet: offset, session, payload, cut at \<open>pkt->length\<close>, a 16-bit field. All of its first
  eight bytes are written, so what the buffer held before does not matter.
\<close>

definition data_packet :: "u32 \<Rightarrow> u32 \<Rightarrow> bytes \<Rightarrow> bytes" where
  "data_packet off session payload =
     take (unat (word_of_nat (SVU_DATA_HDR + length payload) :: u16))
       (svu_put32 (svu_put32 (replicate SVU_DATA_HDR 0) 0 off) 4 session @ payload)"

partial_function (option) blast_loop ::
  "(nat \<Rightarrow> bool) \<Rightarrow> nat \<Rightarrow> u32 \<Rightarrow> u32 \<Rightarrow> bytes \<Rightarrow> u32 \<Rightarrow> u32 \<Rightarrow> nat \<Rightarrow> bytes list
     \<Rightarrow> (fault + (bytes list \<times> nat)) option" where
  "blast_loop got cap session pay src stop off c sent =
     (if off < stop then
        (let len = (if off + pay \<le> stop then pay else stop - off)
         in if \<not> got c then Some (Inr (sent, c + 1))
            else if SVU_DATA_HDR + unat len > cap then Some (Inl Buffer_Overflow)
            else if unat off + unat len > length src then Some (Inl Source_Overread)
            else blast_loop got cap session pay src stop (off + pay) (c + 1)
                   (sent @ [data_packet off session (seg (unat off) (unat off + unat len) src)]))
      else Some (Inr (sent, c)))"

definition blast_interval ::
  "(nat \<Rightarrow> bool) \<Rightarrow> nat \<Rightarrow> u32 \<Rightarrow> u32 \<Rightarrow> bytes \<Rightarrow> u32 \<Rightarrow> u32 \<Rightarrow> nat \<Rightarrow> (bytes list \<times> nat) run" where
  "blast_interval got cap session mtu src start stop c =
     (let pay = (if mtu > word_of_nat SVU_DATA_HDR then mtu - word_of_nat SVU_DATA_HDR else 1)
      in blast_loop got cap session pay src stop start c [])"

section \<open>The request handler\<close>

record svu_server =
  sv_src :: bytes
  sv_total :: u32
  sv_block :: u32
  sv_nblocks :: u32
  sv_manifest :: bytes

text \<open>The set-up of \<open>svu_serve_loop\<close>; the flags are those of \<open>malloc\<close> and \<open>csp_bind\<close>.\<close>

definition svu_serve_setup :: "bool \<Rightarrow> bool \<Rightarrow> bytes \<Rightarrow> u32 \<Rightarrow> u32 \<Rightarrow> svu_server option" where
  "svu_serve_setup alloc_ok bind_ok src total_size block_size =
     (let nblocks = ci_svu_nblocks total_size block_size
      in if \<not> alloc_ok then None
         else let manifest = snd (ci_svu_manifest (Some src) total_size block_size
                                (Some (replicate (unat nblocks * CI_SVU_HASH_LEN) 0)))
              in if \<not> bind_ok then None
                 else Some \<lparr>sv_src = src, sv_total = total_size, sv_block = block_size,
                            sv_nblocks = nblocks, sv_manifest = the manifest\<rparr>)"

definition resp_header :: "svu_server \<Rightarrow> u32 \<Rightarrow> bytes" where
  "resp_header sv session =
     (let p = svu_put32 (replicate SVU_RESP_HDR 0) 0 SVU_MAGIC_RESP;
          p = svu_put32 p 4 session;
          p = svu_put32 p 8 (sv_total sv);
          p = svu_put32 p 12 (sv_block sv)
      in svu_put32 p 16 (sv_nblocks sv))"

definition send_response :: "(nat \<Rightarrow> bool) \<Rightarrow> nat \<Rightarrow> svu_server \<Rightarrow> u32 \<Rightarrow> nat \<Rightarrow> (bytes list \<times> nat) run" where
  "send_response got cap sv session c =
     (if \<not> got c then Some (Inr ([], c + 1))
      else if SVU_RESP_HDR > cap then Some (Inl Buffer_Overflow)
      else run_bind (send_manifest got cap (sv_manifest sv) (sv_nblocks sv * word_of_nat CI_SVU_HASH_LEN) (c + 1))
             (\<lambda>(pkts, c). Some (Inr (resp_header sv session # pkts, c))))"

fun blast_ranges ::
  "(nat \<Rightarrow> bool) \<Rightarrow> nat \<Rightarrow> u32 \<Rightarrow> u32 \<Rightarrow> bytes \<Rightarrow> u32 \<Rightarrow> svu_wire_interval list \<Rightarrow> nat \<Rightarrow> (bytes list \<times> nat) run" where
  "blast_ranges got cap session mtu src total_size [] c = Some (Inr ([], c))"
| "blast_ranges got cap session mtu src total_size (iv # ivs) c =
     (let s = wi_start iv; e = wi_end iv; e = (if e > total_size then total_size else e)
      in run_bind (if s < e then blast_interval got cap session mtu src s e c else Some (Inr ([], c)))
           (\<lambda>(pkts, c). run_bind (blast_ranges got cap session mtu src total_size ivs c)
             (\<lambda>(pkts', c). Some (Inr (pkts @ pkts', c)))))"

record svu_reply =
  rp_ctrl :: "bytes list"
  rp_client :: u16
  rp_data :: "bytes list"

text \<open>
  One accepted connection with its first packet (\<open>None\<close>: the read timed out). \<open>None\<close> inside the
  result means that the connection was closed without an answer.
\<close>

definition svu_serve_request ::
  "(nat \<Rightarrow> bool) \<Rightarrow> nat \<Rightarrow> svu_server \<Rightarrow> u16 \<Rightarrow> bytes option \<Rightarrow> svu_reply option run" where
  "svu_serve_request got cap sv conn_src pkt =
     (case pkt of
        None \<Rightarrow> Some (Inr None)
      | Some data \<Rightarrow>
          (case svu_req_decode (Some data) of
             None \<Rightarrow> Some (Inr None)
           | Some req \<Rightarrow>
               (let mtu = (if q_mtu req > word_of_nat SVU_DATA_HDR then q_mtu req else 256)
                in run_bind (send_response got cap sv (q_session_id req) 0)
                     (\<lambda>(ctrl, c).
                        run_bind
                          (if q_nof_intervals req = 0
                           then blast_interval got cap (q_session_id req) mtu (sv_src sv) 0 (sv_total sv) c
                           else blast_ranges got cap (q_session_id req) mtu (sv_src sv) (sv_total sv)
                                  (take (unat (q_nof_intervals req)) (q_intervals req)) c)
                          (\<lambda>(data, c).
                             Some (Inr (Some \<lparr>rp_ctrl = ctrl, rp_client = conn_src, rp_data = data\<rparr>)))))))"

text \<open>
  The accept loop: each event is a time-out of \<open>csp_accept\<close> with the value of the stop flag, or a
  connection. The result is the list of answers up to the stop.
\<close>

datatype serve_event = Accept_Timeout bool | Connection u16 "bytes option" "nat \<Rightarrow> bool"

fun svu_serve_events :: "nat \<Rightarrow> svu_server \<Rightarrow> serve_event list \<Rightarrow> svu_reply option list run" where
  "svu_serve_events cap sv [] = Some (Inr [])"
| "svu_serve_events cap sv (Accept_Timeout stop # es) =
     (if stop then Some (Inr []) else svu_serve_events cap sv es)"
| "svu_serve_events cap sv (Connection conn_src pkt got # es) =
     run_bind (svu_serve_request got cap sv conn_src pkt)
       (\<lambda>r. run_bind (svu_serve_events cap sv es) (\<lambda>rs. Some (Inr (r # rs))))"

section \<open>Packets and fragments\<close>

definition fragment_of :: "bytes \<Rightarrow> u32 \<times> bytes" where
  "fragment_of p = (svu_get32 p 0, drop 8 p)"

lemma data_packet_eq:
  assumes "8 + length payload < 65536"
  shows "data_packet off session payload =
      svu_put32 (svu_put32 (replicate 8 0) 0 off) 4 session @ payload"
    and "length (data_packet off session payload) = 8 + length payload"
    and "fragment_of (data_packet off session payload) = (off, payload)"
proof -
  let ?h = "svu_put32 (svu_put32 (replicate 8 0) 0 off) 4 session"
  have "unat (word_of_nat (8 + length payload) :: u16) = 8 + length payload"
    using assms by (simp add: unsigned_of_nat take_bit_nat_eq_self del: of_nat_add)
  then show e: "data_packet off session payload = ?h @ payload"
    by (simp add: data_packet_def SVU_DATA_HDR_def)
  show "length (data_packet off session payload) = 8 + length payload" by (simp add: e)
  have "svu_get32 (?h @ payload) 0 = svu_get32 ?h 0" by (simp add: svu_get32_le32 nth_append)
  then show "fragment_of (data_packet off session payload) = (off, payload)"
    by (simp add: fragment_of_def e)
qed

text \<open>A list of data packets that carries exactly the bytes of \<open>src\<close> at the positions \<open>P\<close>.\<close>

definition carries :: "bytes \<Rightarrow> bytes list \<Rightarrow> (nat \<Rightarrow> bool) \<Rightarrow> bool" where
  "carries src ps P \<longleftrightarrow>
     (\<forall>p \<in> set ps. 8 < length p \<and> cut_from src (fragment_of p)) \<and>
     (\<forall>i. spans (map fragment_of ps) i \<longleftrightarrow> P i)"

lemma carries_Nil: "carries src [] (\<lambda>i. False)"
  by (simp add: carries_def spans_def)

lemma carries_append:
  "carries src ps P \<Longrightarrow> carries src qs Q \<Longrightarrow> carries src (ps @ qs) (\<lambda>i. P i \<or> Q i)"
proof -
  assume "carries src ps P" "carries src qs Q"
  moreover have "spans (map fragment_of (ps @ qs)) i \<longleftrightarrow>
      spans (map fragment_of ps) i \<or> spans (map fragment_of qs) i" for i
    unfolding spans_def map_append set_append by blast
  ultimately show ?thesis unfolding carries_def by (simp add: ball_Un)
qed

lemma carries_cong: "carries src ps P \<Longrightarrow> (\<And>i. P i \<longleftrightarrow> Q i) \<Longrightarrow> carries src ps Q"
  by (simp add: carries_def)

lemma carries_one:
  assumes "a < b" and "b \<le> length src" and "8 + (b - a) < 65536" and "b < 2 ^ 32"
  shows "carries src [data_packet (word_of_nat a) session (seg a b src)] (\<lambda>i. a \<le> i \<and> i < b)"
proof -
  have u: "unat (word_of_nat a :: u32) = a" using assms by (intro unat_pos32) simp
  have "length (seg a b src) = b - a" using assms by simp
  then show ?thesis
    using assms u data_packet_eq [of "seg a b src" "word_of_nat a" session]
    by (auto simp: carries_def spans_def cut_from_def)
qed

section \<open>A range without faults\<close>

lemma blast_loop_done: "\<not> off < stop \<Longrightarrow>
    blast_loop got cap session pay src stop off c sent = Some (Inr (sent, c))"
  by (simp add: blast_loop.simps)

lemma blast_loop_step:
  assumes "off < stop" and "got c" and "unat stop + unat pay \<le> 2 ^ 32" and "8 + unat pay \<le> cap"
    and "unat stop \<le> length src"
  shows "blast_loop got cap session pay src stop off c sent =
      blast_loop got cap session pay src stop (off + pay) (c + 1)
        (sent @ [data_packet off session (seg (unat off) (min (unat off + unat pay) (unat stop)) src)])"
    and "unat (off + pay) = unat off + unat pay"
proof -
  have lt: "unat off < unat stop" using assms(1) by (simp add: word_less_nat_alt)
  then show u: "unat (off + pay) = unat off + unat pay" using assms(3) by (intro unat_add_lt) simp
  let ?len = "if off + pay \<le> stop then pay else stop - off"
  have len: "unat ?len = min (unat pay) (unat stop - unat off)"
    using lt u by (auto simp: word_le_nat_alt unat_sub min_def)
  have "unat off + unat ?len = min (unat off + unat pay) (unat stop)" using len lt by auto
  moreover have "unat off + unat ?len \<le> length src" using len lt assms(5) by auto
  moreover have "8 + unat ?len \<le> cap" using len assms(4) by auto
  ultimately show "blast_loop got cap session pay src stop off c sent =
      blast_loop got cap session pay src stop (off + pay) (c + 1)
        (sent @ [data_packet off session (seg (unat off) (min (unat off + unat pay) (unat stop)) src)])"
    unfolding blast_loop.simps [of got cap session pay src stop off c sent] Let_def
    using assms(1,2) by (simp add: SVU_DATA_HDR_def not_less del: min_less_iff_conj min_le_iff_disj)
qed

lemma blast_loop_ok:
  assumes "\<forall>c. got c" and "0 < unat pay" and "unat stop + unat pay \<le> 2 ^ 32" and "8 + unat pay \<le> cap"
    and "unat stop \<le> length src" and "cap < 65536"
  shows "\<exists>ps c'. blast_loop got cap session pay src stop off c sent = Some (Inr (sent @ ps, c')) \<and>
    carries src ps (\<lambda>i. unat off \<le> i \<and> i < unat stop)"
proof (induction "unat stop - unat off" arbitrary: off c sent rule: less_induct)
  case less
  show ?case
  proof (cases "off < stop")
    case True
    then have lt: "unat off < unat stop" by (simp add: word_less_nat_alt)
    let ?b = "min (unat off + unat pay) (unat stop)"
    let ?p = "data_packet off session (seg (unat off) ?b src)"
    have "got c" using assms(1) by blast
    note st = blast_loop_step(1) [of off stop got c pay cap src session sent, OF True this assms(3-5)]
      blast_loop_step(2) [of off stop got c pay cap src, OF True this assms(3-5)]
    have "unat stop - unat (off + pay) < unat stop - unat off" using lt st(2) assms(2) by linarith
    from less [OF this, of "c + 1" "sent @ [?p]"] obtain ps c' where
      ps: "blast_loop got cap session pay src stop off c sent = Some (Inr (sent @ ?p # ps, c'))"
        "carries src ps (\<lambda>i. unat (off + pay) \<le> i \<and> i < unat stop)"
      using st(1) by auto
    have "?b < 2 ^ 32" using le_less_trans [OF min.cobounded2 unat_less_pow(3) [of stop]] by simp
    then have "carries src [?p] (\<lambda>i. unat off \<le> i \<and> i < ?b)"
      using carries_one [of "unat off" ?b src session] lt assms by simp
    then have "carries src ([?p] @ ps) (\<lambda>i. unat off \<le> i \<and> i < unat stop)"
      by (rule carries_cong [OF carries_append [OF _ ps(2)]]) (use st(2) lt in auto)
    with ps(1) show ?thesis by auto
  next
    case False
    then have "carries src [] (\<lambda>i. unat off \<le> i \<and> i < unat stop)"
      by (intro carries_cong [OF carries_Nil]) (auto simp: word_less_nat_alt)
    with False show ?thesis by (auto simp: blast_loop_done)
  qed
qed

lemma blast_interval_ok:
  assumes "\<forall>c. got c" and "8 < unat mtu" and "unat mtu \<le> cap" and "cap < 65536"
    and "unat stop + unat mtu \<le> 2 ^ 32" and "unat stop \<le> length src"
  shows "\<exists>ps c'. blast_interval got cap session mtu src start stop c = Some (Inr (ps, c')) \<and>
    carries src ps (\<lambda>i. unat start \<le> i \<and> i < unat stop)"
proof -
  have gt: "mtu > word_of_nat SVU_DATA_HDR" using assms(2) by (simp add: word_less_nat_alt SVU_DATA_HDR_def)
  have pay: "unat (mtu - word_of_nat SVU_DATA_HDR) = unat mtu - 8"
    using assms(2) by (simp add: SVU_DATA_HDR_def unat_sub word_le_nat_alt)
  have "0 < unat (mtu - word_of_nat SVU_DATA_HDR)"
    "unat stop + unat (mtu - word_of_nat SVU_DATA_HDR) \<le> 2 ^ 32"
    "8 + unat (mtu - word_of_nat SVU_DATA_HDR) \<le> cap"
    unfolding pay using assms(2,3,5) by simp_all
  from blast_loop_ok [OF assms(1) this assms(6,4), of session start c "[]"] show ?thesis
    using gt by (simp add: blast_interval_def)
qed

lemma blast_ranges_ok:
  assumes "\<forall>c. got c" and "8 < unat mtu" and "unat mtu \<le> cap" and "cap < 65536"
    and "unat n + unat mtu \<le> 2 ^ 32" and "unat n \<le> length src"
  shows "\<exists>ps c'. blast_ranges got cap session mtu src n ivs c = Some (Inr (ps, c')) \<and>
    carries src ps (\<lambda>i. \<exists>iv \<in> set ivs. unat (wi_start iv) \<le> i \<and> i < min (unat (wi_end iv)) (unat n))"
proof (induction ivs arbitrary: c)
  case Nil
  then show ?case by (simp add: carries_Nil)
next
  case (Cons iv ivs)
  define e where "e = (if wi_end iv > n then n else wi_end iv)"
  have ue: "unat e = min (unat (wi_end iv)) (unat n)"
    by (auto simp: e_def word_less_nat_alt min_def)
  have stop: "unat e + unat mtu \<le> 2 ^ 32" "unat e \<le> length src"
    using assms(5,6) ue by simp_all
  define m where "m = (if wi_start iv < e then blast_interval got cap session mtu src (wi_start iv) e c
      else Some (Inr ([], c)))"
  have "\<exists>ps c'. m = Some (Inr (ps, c')) \<and> carries src ps (\<lambda>i. unat (wi_start iv) \<le> i \<and> i < unat e)"
  proof (cases "wi_start iv < e")
    case True
    then show ?thesis
      using blast_interval_ok [OF assms(1-4) stop, of session "wi_start iv" c] by (simp add: m_def)
  next
    case False
    then have "carries src [] (\<lambda>i. unat (wi_start iv) \<le> i \<and> i < unat e)"
      by (intro carries_cong [OF carries_Nil]) (auto simp: word_less_nat_alt)
    with False show ?thesis by (simp add: m_def)
  qed
  then obtain ps c' where ps: "m = Some (Inr (ps, c'))"
    "carries src ps (\<lambda>i. unat (wi_start iv) \<le> i \<and> i < unat e)" by blast
  obtain qs c'' where qs: "blast_ranges got cap session mtu src n ivs c' = Some (Inr (qs, c''))"
    "carries src qs (\<lambda>i. \<exists>iv \<in> set ivs. unat (wi_start iv) \<le> i \<and> i < min (unat (wi_end iv)) (unat n))"
    using Cons.IH [of c'] by blast
  have "blast_ranges got cap session mtu src n (iv # ivs) c =
      run_bind m (\<lambda>(pkts, c). run_bind (blast_ranges got cap session mtu src n ivs c)
        (\<lambda>(pkts', c). Some (Inr (pkts @ pkts', c))))"
    by (simp only: blast_ranges.simps Let_def m_def e_def)
  then have "blast_ranges got cap session mtu src n (iv # ivs) c = Some (Inr (ps @ qs, c''))"
    using ps(1) qs(1) by simp
  moreover have "carries src (ps @ qs) (\<lambda>i. \<exists>iv \<in> set (iv # ivs).
      unat (wi_start iv) \<le> i \<and> i < min (unat (wi_end iv)) (unat n))"
    by (rule carries_cong [OF carries_append [OF ps(2) qs(2)]]) (simp add: ue)
  ultimately show ?case by blast
qed

section \<open>The manifest\<close>

lemma manifest_loop_ok:
  assumes "\<forall>c. got c" and "200 \<le> cap" and "unat nbytes \<le> length mf" and "unat nbytes + 200 \<le> 2 ^ 32"
  shows "\<exists>ps c'. manifest_loop got cap mf nbytes off c sent = Some (Inr (sent @ ps, c')) \<and>
    concat ps = seg (unat off) (unat nbytes) mf \<and> (\<forall>p \<in> set ps. p \<noteq> [] \<and> length p \<le> 200)"
proof (induction "unat nbytes - unat off" arbitrary: off c sent rule: less_induct)
  case less
  show ?case
  proof (cases "off < nbytes")
    case True
    then have lt: "unat off < unat nbytes" by (simp add: word_less_nat_alt)
    let ?len = "if off + manifest_chunk \<le> nbytes then manifest_chunk else nbytes - off"
    have u: "unat (off + manifest_chunk) = unat off + 200"
      using lt assms(4) by (subst unat_add_lt) (simp_all add: manifest_chunk_def)
    have len: "unat ?len = min 200 (unat nbytes - unat off)"
      using lt u by (auto simp: word_le_nat_alt unat_sub min_def manifest_chunk_def)
    let ?b = "unat off + min 200 (unat nbytes - unat off)"
    let ?p = "seg (unat off) ?b mf"
    have step: "manifest_loop got cap mf nbytes off c sent =
        manifest_loop got cap mf nbytes (off + manifest_chunk) (c + 1) (sent @ [?p])"
    proof -
      have "\<not> unat ?len > cap" "\<not> unat off + unat ?len > length mf" using len assms(2,3) lt by auto
      then show ?thesis
        unfolding manifest_loop.simps [of got cap mf nbytes off c sent] Let_def using True assms(1) len
        by (simp del: min_less_iff_conj)
    qed
    have "unat nbytes - unat (off + manifest_chunk) < unat nbytes - unat off" using lt u by linarith
    from less [OF this, of "c + 1" "sent @ [?p]"] obtain ps c' where
      ps: "manifest_loop got cap mf nbytes off c sent = Some (Inr (sent @ ?p # ps, c'))"
        "concat ps = seg (unat off + 200) (unat nbytes) mf" "\<forall>p \<in> set ps. p \<noteq> [] \<and> length p \<le> 200"
      using step u by auto
    have split: "seg a (a + min 200 (d - a)) xs @ seg (a + 200) d xs = seg a d xs" for a d and xs :: bytes
    proof (cases "a + 200 \<le> d")
      case True
      then have "d - a = 200 + (d - (a + 200))" by simp
      then have "take (d - a) (drop a xs) = take 200 (drop a xs) @ take (d - (a + 200)) (drop 200 (drop a xs))"
        by (metis take_add)
      with True show ?thesis by (simp add: seg_def min_def add.commute)
    qed (simp add: seg_def min_def)
    have "length ?p = min 200 (unat nbytes - unat off)" using lt assms(3) by auto
    then have "?p \<noteq> []" "length ?p \<le> 200" using lt by auto
    then show ?thesis using ps split by (auto intro!: exI [of _ "?p # ps"])
  next
    case False
    then have "unat nbytes \<le> unat off" by (simp add: word_less_nat_alt)
    with False show ?thesis by (auto simp: manifest_loop.simps seg_def)
  qed
qed

section \<open>Termination\<close>

lemma blast_loop_total:
  assumes "0 < unat pay" and "unat stop + cap \<le> 2 ^ 32"
  shows "blast_loop got cap session pay src stop off c sent \<noteq> None"
proof (induction "unat stop - unat off" arbitrary: off c sent rule: less_induct)
  case less
  show ?case
  proof (cases "off < stop")
    case True
    then have lt: "unat off < unat stop" by (simp add: word_less_nat_alt)
    define len where "len = (if off + pay \<le> stop then pay else stop - off)"
    have "blast_loop got cap session pay src stop (off + pay) (c + 1)
        (sent @ [data_packet off session (seg (unat off) (unat off + unat len) src)]) \<noteq> None"
      if small: "8 + unat len \<le> cap"
    proof (cases "off + pay \<le> stop")
      case True
      then have "unat off + unat pay < 2 ^ 32" using small lt assms(2) by (simp add: len_def)
      then have "unat (off + pay) = unat off + unat pay" by (intro unat_add_lt) simp
      then have "unat stop - unat (off + pay) < unat stop - unat off" using lt assms(1) by linarith
      then show ?thesis by (rule less)
    next
      case False
      then show ?thesis by (simp add: blast_loop_done)
    qed
    then show ?thesis
      unfolding blast_loop.simps [of got cap session pay src stop off c sent] Let_def len_def [symmetric]
      using True by (simp add: SVU_DATA_HDR_def not_less)
  qed (simp add: blast_loop_done)
qed

lemma blast_interval_total:
  assumes "unat stop + cap \<le> 2 ^ 32"
  shows "blast_interval got cap session mtu src start stop c \<noteq> None"
proof -
  have "0 < unat (if mtu > word_of_nat SVU_DATA_HDR then mtu - word_of_nat SVU_DATA_HDR else 1)"
    by (auto simp: word_less_nat_alt SVU_DATA_HDR_def unat_sub word_le_nat_alt)
  from blast_loop_total [OF this assms] show ?thesis unfolding blast_interval_def Let_def .
qed

lemma run_bind_total: "m \<noteq> None \<Longrightarrow> (\<And>x. f x \<noteq> None) \<Longrightarrow> run_bind m f \<noteq> None"
  by (auto simp: run_bind_def split: sum.split)

lemma blast_ranges_total:
  assumes "unat n + cap \<le> 2 ^ 32"
  shows "blast_ranges got cap session mtu src n ivs c \<noteq> None"
proof (induction ivs arbitrary: c)
  case (Cons iv ivs)
  define e where "e = (if wi_end iv > n then n else wi_end iv)"
  have "unat e + cap \<le> 2 ^ 32" using assms by (auto simp: e_def word_less_nat_alt)
  then have "(if wi_start iv < e then blast_interval got cap session mtu src (wi_start iv) e c
      else Some (Inr ([], c))) \<noteq> None"
    using blast_interval_total by simp
  then show ?case
    unfolding blast_ranges.simps Let_def e_def [symmetric]
  proof (rule run_bind_total)
    fix x :: "bytes list \<times> nat"
    have "run_bind (blast_ranges got cap session mtu src n ivs (snd x))
        (\<lambda>(pkts', c). Some (Inr (fst x @ pkts', c))) \<noteq> None"
      by (rule run_bind_total [OF Cons.IH]) (simp split: prod.split)
    then show "(case x of (pkts, c) \<Rightarrow> run_bind (blast_ranges got cap session mtu src n ivs c)
        (\<lambda>(pkts', c). Some (Inr (pkts @ pkts', c)))) \<noteq> None"
      by (simp only: case_prod_beta not_False_eq_True)
  qed
qed simp

lemma manifest_loop_total:
  assumes "unat nbytes + 200 \<le> 2 ^ 32"
  shows "manifest_loop got cap mf nbytes off c sent \<noteq> None"
proof (induction "unat nbytes - unat off" arbitrary: off c sent rule: less_induct)
  case less
  show ?case
  proof (cases "off < nbytes")
    case True
    then have lt: "unat off < unat nbytes" by (simp add: word_less_nat_alt)
    have "unat (off + manifest_chunk) = unat off + 200"
      using lt assms by (subst unat_add_lt) (simp_all add: manifest_chunk_def)
    then have "unat nbytes - unat (off + manifest_chunk) < unat nbytes - unat off" using lt by linarith
    note less [OF this]
    then show ?thesis by (subst manifest_loop.simps) (simp add: Let_def)
  qed (simp add: manifest_loop.simps)
qed

section \<open>The server of a payload\<close>

definition server_of :: "bytes \<Rightarrow> u32 \<Rightarrow> svu_server" where
  "server_of src k = the (svu_serve_setup True True src (word_of_nat (length src)) k)"

text \<open>The manifest of the payload is shorter than 4 GiB, with room for a last chunk.\<close>

definition manifest_fits :: "bytes \<Rightarrow> u32 \<Rightarrow> bool" where
  "manifest_fits src k \<longleftrightarrow> 32 * ceil_div (length src) (unat k) + 200 \<le> 2 ^ 32"

lemma server_of_fields:
  assumes "payload_ok src k"
  shows "svu_serve_setup True True src (word_of_nat (length src)) k = Some (server_of src k)"
    and "sv_src (server_of src k) = src" and "unat (sv_total (server_of src k)) = length src"
    and "sv_block (server_of src k) = k"
    and "unat (sv_nblocks (server_of src k)) = ceil_div (length src) (unat k)"
    and "sv_manifest (server_of src k) = concat (map sha256 (svu_blocks (unat k) src))"
    and "sv_nblocks (server_of src k) = ci_svu_nblocks (word_of_nat (length src)) k"
proof -
  let ?n = "word_of_nat (length src) :: u32" and ?m = "ci_svu_nblocks (word_of_nat (length src)) k"
  note k = payload_size(1) [OF assms] and n = payload_size(3) [OF assms]
  show "svu_serve_setup True True src ?n k = Some (server_of src k)"
    "sv_src (server_of src k) = src" "sv_block (server_of src k) = k"
    "unat (sv_total (server_of src k)) = length src" "sv_nblocks (server_of src k) = ?m"
    using n by (simp_all add: server_of_def svu_serve_setup_def Let_def)
  have m: "unat ?m = ceil_div (length src) (unat k)"
    using nblocks_ceil [of ?n k] n k assms by (auto simp: payload_ok_def)
  then show "unat (sv_nblocks (server_of src k)) = ceil_div (length src) (unat k)"
    by (simp add: server_of_def svu_serve_setup_def Let_def)
  have m0: "?m \<noteq> 0"
    using m ceil_div_covers(2) [OF k, of 0 "length src"] assms by (auto simp: payload_ok_def)
  show "sv_manifest (server_of src k) = concat (map sha256 (svu_blocks (unat k) src))"
    using manifest_eq [of src ?n k "replicate (unat ?m * 32) 0"] n m0
    by (simp add: server_of_def svu_serve_setup_def Let_def CI_SVU_HASH_LEN_def mult.commute)
qed

lemma server_manifest_bytes:
  assumes "payload_ok src k" and "manifest_fits src k"
  shows "unat (sv_nblocks (server_of src k) * word_of_nat CI_SVU_HASH_LEN) = 32 * ceil_div (length src) (unat k)"
    and "length (sv_manifest (server_of src k)) = 32 * ceil_div (length src) (unat k)"
  using assms server_of_fields [OF assms(1)] sha.length_manifest [of "svu_blocks (unat k) src"]
  by (simp_all add: unat_word_ariths CI_SVU_HASH_LEN_def manifest_fits_def mult.commute)

definition effective_mtu :: "svu_req \<Rightarrow> u32" where
  "effective_mtu req = (if q_mtu req > 8 then q_mtu req else 256)"

definition wanted :: "svu_req \<Rightarrow> nat \<Rightarrow> bool" where
  "wanted req i \<longleftrightarrow> q_nof_intervals req = 0 \<or>
     (\<exists>iv \<in> set (take (unat (q_nof_intervals req)) (q_intervals req)).
        unat (wi_start iv) \<le> i \<and> i < unat (wi_end iv))"

lemma send_response_ok:
  assumes "\<forall>c. got c" and "200 \<le> cap" and "payload_ok src k" and "manifest_fits src k"
  shows "\<exists>ps c'. send_response got cap (server_of src k) session c =
      Some (Inr (resp_header (server_of src k) session # ps, c')) \<and>
    concat ps = sv_manifest (server_of src k) \<and> (\<forall>p \<in> set ps. p \<noteq> [] \<and> length p \<le> 200)"
proof -
  let ?sv = "server_of src k" and ?nb = "sv_nblocks (server_of src k) * word_of_nat CI_SVU_HASH_LEN"
  note b = server_manifest_bytes [OF assms(3,4)]
  have "unat ?nb \<le> length (sv_manifest ?sv)" "unat ?nb + 200 \<le> 2 ^ 32"
    using b assms(4) by (simp_all add: manifest_fits_def)
  from manifest_loop_ok [OF assms(1,2) this, of 0 "c + 1" "[]"] obtain ps c' where
    "manifest_loop got cap (sv_manifest ?sv) ?nb 0 (c + 1) [] = Some (Inr (ps, c'))"
    "concat ps = seg 0 (unat ?nb) (sv_manifest ?sv)" "\<forall>p \<in> set ps. p \<noteq> [] \<and> length p \<le> 200" by auto
  moreover have "seg 0 (unat ?nb) (sv_manifest ?sv) = sv_manifest ?sv" using b by (simp add: seg_def)
  ultimately show ?thesis
    using assms(1,2) by (simp add: send_response_def send_manifest_def SVU_RESP_HDR_def)
qed

section \<open>Properties\<close>

lemma serve_request_ok:
  assumes "payload_ok src k" and "manifest_fits src k" and "svu_req_decode (Some pkt) = Some req"
    and "\<forall>c. got c" and "200 \<le> cap" and "cap < 65536" and "unat (effective_mtu req) \<le> cap"
    and "length src + cap \<le> 2 ^ 32"
  shows "\<exists>ctrl data. svu_serve_request got cap (server_of src k) client (Some pkt) =
      Some (Inr (Some \<lparr>rp_ctrl = resp_header (server_of src k) (q_session_id req) # ctrl,
        rp_client = client, rp_data = data\<rparr>)) \<and>
    concat ctrl = concat (map sha256 (svu_blocks (unat k) src)) \<and>
    (\<forall>p \<in> set ctrl. p \<noteq> [] \<and> length p \<le> 200) \<and>
    carries src data (\<lambda>i. i < length src \<and> wanted req i)"
proof -
  let ?sv = "server_of src k" and ?mtu = "effective_mtu req" and ?s = "q_session_id req"
  note f = server_of_fields [OF assms(1)]
  have mtu: "(if q_mtu req > word_of_nat SVU_DATA_HDR then q_mtu req else 256) = ?mtu" "8 < unat ?mtu"
    by (auto simp: effective_mtu_def SVU_DATA_HDR_def word_less_nat_alt)
  obtain ctrl c where ctrl: "send_response got cap ?sv ?s 0 = Some (Inr (resp_header ?sv ?s # ctrl, c))"
    "concat ctrl = sv_manifest ?sv" "\<forall>p \<in> set ctrl. p \<noteq> [] \<and> length p \<le> 200"
    using send_response_ok [OF assms(4,5,1,2)] by blast
  have lim: "unat (sv_total ?sv) + unat ?mtu \<le> 2 ^ 32" "unat (sv_total ?sv) \<le> length src"
    using assms(7,8) f(3) by simp_all
  let ?ivs = "take (unat (q_nof_intervals req)) (q_intervals req)"
  have "\<exists>data c'. (if q_nof_intervals req = 0 then blast_interval got cap ?s ?mtu src 0 (sv_total ?sv) c
      else blast_ranges got cap ?s ?mtu src (sv_total ?sv) ?ivs c) = Some (Inr (data, c')) \<and>
    carries src data (\<lambda>i. i < length src \<and> wanted req i)"
  proof (cases "q_nof_intervals req = 0")
    case True
    then show ?thesis
      using blast_interval_ok [OF assms(4) mtu(2) assms(7,6) lim, of ?s 0 c] f(3) by (simp add: wanted_def)
  next
    case False
    obtain data c' where d: "blast_ranges got cap ?s ?mtu src (sv_total ?sv) ?ivs c = Some (Inr (data, c'))"
      "carries src data (\<lambda>i. \<exists>iv \<in> set ?ivs. unat (wi_start iv) \<le> i \<and> i < min (unat (wi_end iv)) (unat (sv_total ?sv)))"
      using blast_ranges_ok [OF assms(4) mtu(2) assms(7,6) lim] by blast
    have "carries src data (\<lambda>i. i < length src \<and> wanted req i)"
      by (rule carries_cong [OF d(2)]) (use False f(3) in \<open>auto simp: wanted_def\<close>)
    with False d(1) show ?thesis by auto
  qed
  then show ?thesis
    using ctrl assms(3) by (auto simp: svu_serve_request_def Let_def mtu(1) f(2,6))
qed

text \<open>
  Property C29. The server answers a request exactly. With buffers available, a request whose MTU
  fits a packet buffer and a payload and manifest below 4 GiB, it sends the response header, the
  whole manifest in chunks of at most 200 bytes, and data packets that carry exactly the requested
  bytes: the whole payload for a request without ranges, and otherwise the requested ranges cut at
  the end of the payload.
\<close>

theorem svu_server_answers:
  assumes "payload_ok src k" and "manifest_fits src k" and "svu_req_decode (Some pkt) = Some req"
    and "\<forall>c. got c" and "200 \<le> cap" and "cap < 65536" and "unat (effective_mtu req) \<le> cap"
    and "length src + cap \<le> 2 ^ 32"
  shows "\<exists>ctrl data. svu_serve_request got cap (server_of src k) client (Some pkt) =
      Some (Inr (Some \<lparr>rp_ctrl = resp_header (server_of src k) (q_session_id req) # ctrl,
        rp_client = client, rp_data = data\<rparr>)) \<and>
    concat ctrl = concat (map sha256 (svu_blocks (unat k) src)) \<and>
    (\<forall>p \<in> set ctrl. p \<noteq> [] \<and> length p \<le> 200) \<and>
    carries src data (\<lambda>i. i < length src \<and> wanted req i)"
  using assms by (rule serve_request_ok)

lemma example_payload: "payload_ok [1, 2, 3] 2" "manifest_fits [1, 2, 3] 2"
  by (simp_all add: payload_ok_def manifest_fits_def ceil_div_def)

lemma example_req_decode:
  "\<exists>r. svu_req_decode (Some example_req_bytes) = Some r \<and> q_nof_intervals r = 0 \<and> q_mtu r = 200"
  by (simp add: decode_eq example_req_bytes_def svu_get32_def const_defs)

theorem svu_server_answers_witness:
  "\<exists>ctrl data. svu_serve_request (\<lambda>c. True) 256 (server_of [1, 2, 3] 2) 7 (Some example_req_bytes) =
      Some (Inr (Some \<lparr>rp_ctrl = ctrl, rp_client = 7, rp_data = data\<rparr>)) \<and>
    carries [1, 2, 3] data (\<lambda>i. i < length [1, 2, 3 :: u8])"
proof -
  obtain r where r: "svu_req_decode (Some example_req_bytes) = Some r" "q_nof_intervals r = 0" "q_mtu r = 200"
    using example_req_decode by blast
  have "unat (effective_mtu r) \<le> 256" using r(3) by (simp add: effective_mtu_def)
  from svu_server_answers [OF example_payload r(1), of "\<lambda>c. True" 256 7] this r(2) show ?thesis
    by (auto simp: wanted_def)
qed

text \<open>
  Property C33. Every request is answered in finite time: whatever bytes arrive, whatever ranges and
  MTU they name and whichever buffers are missing, the handler of a server whose payload and
  manifest stay a packet below 4 GiB terminates.
\<close>

theorem svu_server_terminates:
  assumes "unat (sv_total sv) + cap \<le> 2 ^ 32"
    and "unat (sv_nblocks sv * word_of_nat CI_SVU_HASH_LEN) + 200 \<le> 2 ^ 32"
  shows "svu_serve_request got cap sv client pkt \<noteq> None"
proof (cases "pkt = None \<or> svu_req_decode pkt = None")
  case True
  then show ?thesis by (auto simp: svu_serve_request_def split: option.split)
next
  case False
  then obtain p req where p: "pkt = Some p" "svu_req_decode (Some p) = Some req" by auto
  define mtu where "mtu = (if q_mtu req > word_of_nat SVU_DATA_HDR then q_mtu req else 256)"
  have resp: "send_response got cap sv s c \<noteq> None" for s c
  proof -
    have "run_bind (send_manifest got cap (sv_manifest sv) (sv_nblocks sv * word_of_nat CI_SVU_HASH_LEN) (c + 1))
        (\<lambda>(pkts, c). Some (Inr (resp_header sv s # pkts, c))) \<noteq> None"
      unfolding send_manifest_def
      by (rule run_bind_total [OF manifest_loop_total [OF assms(2)]]) (simp split: prod.split)
    then show ?thesis by (simp add: send_response_def)
  qed
  have blast: "(if q_nof_intervals req = 0
      then blast_interval got cap (q_session_id req) mtu (sv_src sv) 0 (sv_total sv) c
      else blast_ranges got cap (q_session_id req) mtu (sv_src sv) (sv_total sv)
        (take (unat (q_nof_intervals req)) (q_intervals req)) c) \<noteq> None" for c
    using blast_interval_total [OF assms(1)] blast_ranges_total [OF assms(1)] by simp
  show ?thesis
    unfolding svu_serve_request_def p option.case Let_def mtu_def [symmetric]
  proof (rule run_bind_total [OF resp])
    fix x :: "bytes list \<times> nat"
    show "(case x of (ctrl, c) \<Rightarrow> run_bind
        (if q_nof_intervals req = 0
         then blast_interval got cap (q_session_id req) mtu (sv_src sv) 0 (sv_total sv) c
         else blast_ranges got cap (q_session_id req) mtu (sv_src sv) (sv_total sv)
           (take (unat (q_nof_intervals req)) (q_intervals req)) c)
        (\<lambda>(data, c). Some (Inr (Some \<lparr>rp_ctrl = ctrl, rp_client = client, rp_data = data\<rparr>)))) \<noteq> None"
      by (cases x) (simp only: prod.case, rule run_bind_total [OF blast], simp split: prod.split)
  qed
qed

theorem svu_server_terminates_witness:
  "svu_serve_request (\<lambda>c. True) 256
     \<lparr>sv_src = [1, 2, 3], sv_total = 3, sv_block = 2, sv_nblocks = 2, sv_manifest = replicate 64 0\<rparr>
     7 (Some example_req_bytes) \<noteq> None"
  by (rule svu_server_terminates) (simp_all add: CI_SVU_HASH_LEN_def)

text \<open>
  Property C40. The MTU of a request is not checked against the packet buffer. A request for the
  whole payload with an MTU above the buffer size makes the server copy more bytes into a packet
  than the packet holds, if the payload is long enough to fill one fragment of that size.
\<close>

theorem svu_server_mtu_overflow:
  assumes "payload_ok src k" and "manifest_fits src k" and "svu_req_decode (Some pkt) = Some req"
    and "\<forall>c. got c" and "200 \<le> cap" and "cap < unat (q_mtu req)" and "unat (q_mtu req) \<le> length src + 8"
    and "q_nof_intervals req = 0"
  shows "svu_serve_request got cap (server_of src k) client (Some pkt) = Some (Inl Buffer_Overflow)"
proof -
  let ?sv = "server_of src k" and ?s = "q_session_id req" and ?pay = "q_mtu req - 8"
  note f = server_of_fields [OF assms(1)]
  have gt: "q_mtu req > word_of_nat SVU_DATA_HDR"
    using assms(5,6) by (simp add: word_less_nat_alt SVU_DATA_HDR_def)
  have pay: "unat ?pay = unat (q_mtu req) - 8"
    using assms(5,6) by (simp add: unat_sub word_le_nat_alt)
  obtain ctrl c where ctrl: "send_response got cap ?sv ?s 0 = Some (Inr (ctrl, c))"
    using send_response_ok [OF assms(4,5,1,2)] by blast
  have "0 < sv_total ?sv" using assms(1) f(3) by (auto simp: payload_ok_def word_gt_0)
  moreover have "?pay \<le> sv_total ?sv" using pay f(3) assms(7) by (simp add: word_le_nat_alt)
  moreover have "cap < SVU_DATA_HDR + unat ?pay" using pay assms(5,6) by (simp add: SVU_DATA_HDR_def)
  ultimately have "blast_loop got cap ?s ?pay src (sv_total ?sv) 0 c [] = Some (Inl Buffer_Overflow)"
    using assms(4) by (subst blast_loop.simps) simp
  then show ?thesis
    using gt ctrl assms(3,8) f(2)
    by (simp add: svu_serve_request_def blast_interval_def SVU_DATA_HDR_def)
qed

definition wide_req_bytes :: bytes where
  "wide_req_bytes = [0x53, 0x56, 0x55, 0x51, 1, 0, 0, 0, 255, 0, 0, 0, 0, 4, 0, 0, 0, 0, 0, 0, 7, 0, 0, 0]"

theorem svu_server_mtu_overflow_witness:
  "svu_serve_request (\<lambda>c. True) 250 (server_of (replicate 300 0) 100) 7 (Some wide_req_bytes) =
    Some (Inl Buffer_Overflow)"
proof -
  have "\<exists>r. svu_req_decode (Some wide_req_bytes) = Some r \<and> q_nof_intervals r = 0 \<and> q_mtu r = 255"
    by (simp add: decode_eq wide_req_bytes_def svu_get32_def const_defs)
  then obtain r where r: "svu_req_decode (Some wide_req_bytes) = Some r" "q_nof_intervals r = 0" "q_mtu r = 255"
    by blast
  have "payload_ok (replicate 300 0) 100" "manifest_fits (replicate 300 0) 100"
    by (simp_all add: payload_ok_def manifest_fits_def ceil_div_def)
  from svu_server_mtu_overflow [OF this r(1), of "\<lambda>c. True" 250 7] r(2,3) show ?thesis by simp
qed

text \<open>
  The size of a loaded file is taken modulo \<open>2^32\<close>: a file is loaded exactly when every
  library call succeeds and the read returns as many bytes as \<open>ftell\<close> reported, and the size that
  the transfer uses is the length of the file only below 4 GiB; above, the upload silently covers
  a prefix of the file.
\<close>

theorem svu_load_file_size:
  "svu_load_file f = Some (xs, n) \<longleftrightarrow>
     io_open f \<and> io_seek f \<and> io_alloc f \<and> io_tell f = int (length (io_read f)) \<and> xs = io_read f \<and>
     unat n = length xs mod 2 ^ 32"
proof -
  have w: "(word_of_nat m :: u32) = n \<longleftrightarrow> unat n = m mod 2 ^ 32" for m
  proof -
    have "unat (word_of_nat m :: u32) = m mod 2 ^ 32" by (simp add: unsigned_of_nat take_bit_eq_mod)
    then show ?thesis unfolding word_unat_eq_iff by argo
  qed
  show ?thesis
  proof (cases "io_open f \<and> io_seek f \<and> io_alloc f \<and> io_tell f = int (length (io_read f))")
    case True
    then have "svu_load_file f = Some (io_read f, word_of_nat (length (io_read f)))"
      by (simp add: svu_load_file_def)
    then show ?thesis using True w [of "length xs"] by auto
  next
    case False
    then show ?thesis by (auto simp: svu_load_file_def Let_def)
  qed
qed

end
