(* ===== verification/SVU_Session.thy ===== *)
theory SVU_Session
  imports SVU_Serve
begin

text \<open>
  The receiving side of the uploader, \<open>src/svu/svu_session.c\<close>: draining data packets into the
  receiver, one control exchange, and the round loop of \<open>svu_client_run\<close>.

  The network and the disk are parameters: what a control connection returns for the request bytes
  of an attempt, which data packets a round drains after its request, and what is on the disk after the file is
  written. \<open>csp_print\<close> and the sleeps between attempts have no effect on the result.
\<close>

section \<open>Draining data packets\<close>

definition drain_packet :: "ci_svu option \<Rightarrow> bytes \<Rightarrow> ci_svu option" where
  "drain_packet recv pkt =
     (if length pkt > SVU_DATA_HDR
      then snd (ci_svu_accept recv (svu_get32 pkt 0) (Some (drop SVU_DATA_HDR pkt)))
      else recv)"

definition drain_data :: "bytes list \<Rightarrow> ci_svu option \<Rightarrow> ci_svu option" where
  "drain_data pkts recv = foldl drain_packet recv pkts"

section \<open>One control exchange\<close>

text \<open>
  The results of the calls on one connection: \<open>csp_connect\<close>, \<open>csp_buffer_get\<close>, \<open>malloc\<close>, and the
  packets that successive calls of \<open>csp_read\<close> return before the first time-out.
\<close>

record ctrl_io =
  ce_conn :: bool
  ce_buf :: bool
  ce_alloc :: bool
  ce_reads :: "bytes list"

fun read_manifest :: "u32 \<Rightarrow> u32 \<Rightarrow> bytes \<Rightarrow> bytes list \<Rightarrow> bytes option" where
  "read_manifest man_bytes got manifest [] = (if got < man_bytes then None else Some manifest)"
| "read_manifest man_bytes got manifest (mp # reads) =
     (if got < man_bytes then
        (let tk = word_of_nat (length mp);
             tk = (if got + tk > man_bytes then man_bytes - got else tk)
         in read_manifest man_bytes (got + tk) (memcpy_at manifest (unat got) (take (unat tk) mp)) reads)
      else Some manifest)"

record svu_meta =
  m_total :: u32
  m_block :: u32
  m_nblocks :: u32
  m_manifest :: bytes

definition request_bytes :: "svu_req \<Rightarrow> bytes" where
  "request_bytes req =
     (let (nbytes, buf) = svu_req_encode req (replicate (SVU_REQ_HDR + SVU_MAX_INTERVALS * 8) 0)
      in take nbytes buf)"

definition ctrl_exchange :: "svu_req \<Rightarrow> (bytes \<Rightarrow> ctrl_io) \<Rightarrow> svu_meta option" where
  "ctrl_exchange req net =
     (let io = net (request_bytes req)
      in if \<not> ce_conn io then None
         else if \<not> ce_buf io then None
         else case ce_reads io of
                [] \<Rightarrow> None
              | hp # reads \<Rightarrow>
                  if length hp < SVU_RESP_HDR \<or> svu_get32 hp 0 \<noteq> SVU_MAGIC_RESP then None
                  else let nblocks = svu_get32 hp 16;
                           man_bytes = nblocks * word_of_nat CI_SVU_HASH_LEN
                       in if \<not> ce_alloc io then None
                          else case read_manifest man_bytes 0 (replicate (unat man_bytes) 0) reads of
                                 None \<Rightarrow> None
                               | Some manifest \<Rightarrow>
                                   Some \<lparr>m_total = svu_get32 hp 8, m_block = svu_get32 hp 12,
                                         m_nblocks = nblocks, m_manifest = manifest\<rparr>)"

section \<open>The transfer loop\<close>

record svu_client =
  k_recv :: "ci_svu option"
  k_total :: u32
  k_ivs :: "ci_svu_interval list"
  k_nreq :: u32
  k_st :: ci_svu_status

definition svu_client_init :: svu_client where
  "svu_client_init = \<lparr>k_recv = None, k_total = 0,
     k_ivs = replicate SVU_MAX_INTERVALS \<lparr>iv_start = 0, iv_end = 0\<rparr>, k_nreq = 0, k_st = CI_SVU_INCOMPLETE\<rparr>"

definition client_request :: "u32 \<Rightarrow> u32 \<Rightarrow> svu_client \<Rightarrow> svu_req" where
  "client_request block_size mtu cl =
     \<lparr>q_magic = SVU_MAGIC_REQ, q_session_id = 1, q_mtu = mtu, q_block_size = block_size,
      q_nof_intervals = k_nreq cl, q_client_addr = 0,
      q_intervals = map (\<lambda>iv. \<lparr>wi_start = iv_start iv, wi_end = iv_end iv\<rparr>) (take (unat (k_nreq cl)) (k_ivs cl)) @
        replicate (SVU_MAX_INTERVALS - unat (k_nreq cl)) \<lparr>wi_start = 0, wi_end = 0\<rparr>\<rparr>"

record svu_env =
  e_ctrl :: "nat \<Rightarrow> nat \<Rightarrow> bytes \<Rightarrow> ctrl_io"
  e_data :: "nat \<Rightarrow> bytes \<Rightarrow> bytes list"
  e_new_ok :: bool
  e_disk :: "bytes \<Rightarrow> bytes option"

text \<open>\<open>for (attempt = 0; attempt < 8; attempt++)\<close>, from the attempt \<open>i\<close> on.\<close>

fun ctrl_attempts :: "nat \<Rightarrow> nat \<Rightarrow> svu_req \<Rightarrow> (nat \<Rightarrow> bytes \<Rightarrow> ctrl_io) \<Rightarrow> svu_meta option" where
  "ctrl_attempts 0 i req net = None"
| "ctrl_attempts (Suc n) i req net =
     (case ctrl_exchange req (net i) of Some m \<Rightarrow> Some m | None \<Rightarrow> ctrl_attempts n (i + 1) req net)"

text \<open>The first answer creates the receiver; later ones are ignored.\<close>

definition client_open :: "bool \<Rightarrow> svu_meta \<Rightarrow> svu_client \<Rightarrow> svu_client" where
  "client_open new_ok m cl =
     (if k_recv cl = None
      then cl\<lparr>k_total := m_total m,
              k_recv := ci_svu_new new_ok (m_total m) (m_block m) (Some (m_manifest m)) (m_nblocks m)\<rparr>
      else cl)"

text \<open>Drain, verify, and list the ranges to request next.\<close>

definition client_verify :: "bytes list \<Rightarrow> svu_client \<Rightarrow> svu_client" where
  "client_verify pkts cl =
     (let recv = drain_data pkts (k_recv cl);
          (st, ivs, nout) = ci_svu_verify recv (Some (k_ivs cl)) (word_of_nat SVU_MAX_INTERVALS);
          cl = cl\<lparr>k_recv := recv, k_ivs := the ivs, k_st := st\<rparr>
      in if st = CI_SVU_COMPLETE_VERIFIED then cl
         else cl\<lparr>k_nreq := (if nout < word_of_nat SVU_MAX_INTERVALS then nout
                            else word_of_nat SVU_MAX_INTERVALS)\<rparr>)"

text \<open>One round. \<open>None\<close> is \<open>goto done\<close>.\<close>

definition client_round :: "svu_env \<Rightarrow> u32 \<Rightarrow> u32 \<Rightarrow> nat \<Rightarrow> svu_client \<Rightarrow> svu_client option" where
  "client_round env block_size mtu rnd cl =
     (let req = client_request block_size mtu cl
      in case ctrl_attempts 8 0 req (e_ctrl env rnd) of
           None \<Rightarrow> None
         | Some m \<Rightarrow>
             (let cl = client_open (e_new_ok env) m cl
              in if k_recv cl = None then None
                 else Some (client_verify (e_data env rnd (request_bytes req)) cl)))"

fun client_rounds :: "svu_env \<Rightarrow> u32 \<Rightarrow> u32 \<Rightarrow> nat \<Rightarrow> nat \<Rightarrow> svu_client \<Rightarrow> svu_client option" where
  "client_rounds env block_size mtu 0 rnd cl = Some cl"
| "client_rounds env block_size mtu (Suc n) rnd cl =
     (case client_round env block_size mtu (rnd + 1) cl of
        None \<Rightarrow> None
      | Some cl' \<Rightarrow> if k_st cl' = CI_SVU_COMPLETE_VERIFIED then Some cl'
                   else client_rounds env block_size mtu n (rnd + 1) cl')"

text \<open>The return value together with the file that is on the disk afterwards.\<close>

definition svu_client_run :: "svu_env \<Rightarrow> u32 \<Rightarrow> u32 \<Rightarrow> u32 \<Rightarrow> int \<times> bytes option" where
  "svu_client_run env block_size mtu max_rounds =
     (case client_rounds env block_size mtu (unat max_rounds) 0 svu_client_init of
        None \<Rightarrow> (-1, None)
      | Some cl \<Rightarrow>
          if k_st cl \<noteq> CI_SVU_COMPLETE_VERIFIED then (-1, None)
          else case e_disk env (take (unat (k_total cl)) (the (ci_svu_data (k_recv cl)))) of
                 None \<Rightarrow> (-1, None)
               | Some contents \<Rightarrow> (0, Some contents))"

section \<open>Lemmas\<close>

lemma drain_data_deliver:
  "drain_data pkts r = deliver r (map fragment_of (filter (\<lambda>p. 8 < length p) pkts))"
  by (induction pkts arbitrary: r)
    (simp_all add: drain_data_def drain_packet_def deliver_def fragment_of_def SVU_DATA_HDR_def)

lemma read_manifest_ok:
  assumes "unat mb = length mf" and "length mf + 65536 \<le> 2 ^ 32" and "unat got + length (concat reads) = length mf"
    and "length buf = length mf" and "take (unat got) buf @ concat reads = mf"
    and "\<forall>p \<in> set reads. length p < 65536"
  shows "read_manifest mb got buf reads = Some mf"
  using assms(3-6)
proof (induction reads arbitrary: got buf)
  case Nil
  then have "\<not> got < mb" using assms(1) by (simp add: word_less_nat_alt)
  moreover have "buf = mf" using Nil by simp
  ultimately show ?case by simp
next
  case (Cons p reads)
  show ?case
  proof (cases "got < mb")
    case True
    have le: "unat got + length p \<le> length mf" and lt: "length p < 65536" using Cons.prems by simp_all
    have u: "unat (word_of_nat (length p) :: u32) = length p" using lt by (intro unat_pos32) simp
    have ug: "unat (got + word_of_nat (length p)) = unat got + length p"
      using le assms(2) u by (subst unat_add_lt) simp_all
    have "\<not> got + word_of_nat (length p) > mb" using ug le assms(1) by (simp add: word_less_nat_alt)
    moreover have "read_manifest mb (got + word_of_nat (length p)) (memcpy_at buf (unat got) p) reads = Some mf"
    proof (rule Cons.IH)
      show "take (unat (got + word_of_nat (length p))) (memcpy_at buf (unat got) p) @ concat reads = mf"
        using Cons.prems(2,3) le ug by (simp add: memcpy_at_def)
    qed (use Cons.prems ug le in simp_all)
    ultimately show ?thesis using True u by simp
  next
    case False
    then have "unat got \<ge> length mf" using assms(1) by (simp add: word_less_nat_alt)
    then have "length (concat (p # reads)) = 0" "unat got = length mf" using Cons.prems(1) by linarith+
    then have "concat (p # reads) = []" "unat got = length mf" by (simp_all only: length_0_conv)
    moreover have "take (unat got) buf = buf" using Cons.prems(2) \<open>unat got = length mf\<close> by simp
    ultimately have "buf = mf" using Cons.prems(3) by (metis append_Nil2)
    then show ?thesis using False by simp
  qed
qed

text \<open>What an honest server of the payload \<open>src\<close> answers on the control channel.\<close>

definition meta_of :: "bytes \<Rightarrow> u32 \<Rightarrow> svu_meta" where
  "meta_of src k = \<lparr>m_total = word_of_nat (length src), m_block = k,
     m_nblocks = ci_svu_nblocks (word_of_nat (length src)) k,
     m_manifest = concat (map sha256 (svu_blocks (unat k) src))\<rparr>"

definition honest_ctrl :: "bytes \<Rightarrow> u32 \<Rightarrow> svu_env \<Rightarrow> bool" where
  "honest_ctrl src k env \<longleftrightarrow>
     (\<forall>rnd i req m. ctrl_exchange req (e_ctrl env rnd i) = Some m \<longrightarrow> m = meta_of src k)"

lemma ctrl_attempts_honest:
  "honest_ctrl src k env \<Longrightarrow> ctrl_attempts n i req (e_ctrl env rnd) = Some m \<Longrightarrow> m = meta_of src k"
  by (induction n arbitrary: i) (auto simp: honest_ctrl_def split: option.splits)

lemma new_from_meta:
  assumes "payload_ok src k"
  shows "\<exists>s. ci_svu_new ok (m_total (meta_of src k)) (m_block (meta_of src k))
      (Some (m_manifest (meta_of src k))) (m_nblocks (meta_of src k)) = (if ok then Some s else None) \<and>
    svu_for src k s \<and> svu_view s = replicate (length src) None"
proof -
  let ?n = "word_of_nat (length src) :: u32"
  obtain s where s: "svu_receiver src k = Some s" "svu_for src k s" "svu_view s = replicate (length src) None"
    using svu_receiver_some [OF assms] .
  note n = payload_size(3) [OF assms]
  have m0: "ci_svu_nblocks ?n k \<noteq> 0"
    using s(1) by (auto simp: svu_receiver_def ci_svu_new_def Let_def split: option.splits if_splits)
  have "ci_svu_new True ?n k (Some (concat (map sha256 (svu_blocks (unat k) src)))) (ci_svu_nblocks ?n k) = Some s"
    using s(1) manifest_eq [of src ?n k "replicate (32 * unat (ci_svu_nblocks ?n k)) 0"] n m0
    by (simp add: svu_receiver_def Let_def)
  moreover have "ci_svu_new False ?n k e m = None" for e m
    by (simp add: ci_svu_new_def Let_def split: option.split)
  ultimately show ?thesis using s by (cases ok) (auto simp: meta_of_def)
qed

lemma length_read_manifest:
  assumes "read_manifest mb got buf reads = Some mf" and "\<forall>p \<in> set reads. length p < 65536"
    and "unat mb + 65536 \<le> 2 ^ 32" and "unat got \<le> unat mb" and "length buf = unat mb"
  shows "length mf = unat mb"
  using assms(1,2,4,5)
proof (induction reads arbitrary: got buf)
  case Nil
  then show ?case by (auto split: if_splits)
next
  case (Cons p reads)
  show ?case
  proof (cases "got < mb")
    case True
    then have lt: "unat got < unat mb" by (simp add: word_less_nat_alt)
    let ?l = "word_of_nat (length p) :: u32"
    define tk where "tk = (if got + ?l > mb then mb - got else ?l)"
    have u: "unat ?l = length p" "length p < 65536" using Cons.prems(2) by (auto intro!: unat_pos32)
    have ug: "unat (got + ?l) = unat got + length p"
      using lt assms(3) u by (subst unat_add_lt) simp_all
    have tk: "unat tk = min (length p) (unat mb - unat got)"
      using lt ug u by (auto simp: tk_def word_less_nat_alt unat_sub word_le_nat_alt min_def)
    have got': "unat (got + tk) = unat got + unat tk" using tk lt assms(3) by (intro unat_add_lt) simp
    show ?thesis
    proof (rule Cons.IH)
      show "read_manifest mb (got + tk) (memcpy_at buf (unat got) (take (unat tk) p)) reads = Some mf"
        using Cons.prems(1) True by (simp add: Let_def tk_def)
      show "unat (got + tk) \<le> unat mb" using got' tk lt by simp
      show "length (memcpy_at buf (unat got) (take (unat tk) p)) = unat mb"
        using Cons.prems(4) tk lt by simp
    qed (use Cons.prems(2) in simp)
  next
    case False
    then show ?thesis using Cons.prems by simp
  qed
qed

section \<open>The client's invariant\<close>

text \<open>
  Before the first answer there is no receiver and nothing to request; afterwards the receiver is
  one for the payload, its last verdict is the recorded one, and the request lists ranges of it.
\<close>

definition client_ok :: "bytes \<Rightarrow> u32 \<Rightarrow> svu_client \<Rightarrow> bool" where
  "client_ok src k cl \<longleftrightarrow> length (k_ivs cl) = 32 \<and> unat (k_nreq cl) \<le> 32 \<and>
     (case k_recv cl of
        None \<Rightarrow> k_nreq cl = 0 \<and> k_st cl = CI_SVU_INCOMPLETE
      | Some s \<Rightarrow> svu_for src k s \<and> unat (k_total cl) = length src \<and>
          (\<exists>out mx. k_st cl = fst (ci_svu_verify (Some s) out mx)))"

lemma client_ok_init: "client_ok src k svu_client_init"
  by (simp add: client_ok_def svu_client_init_def SVU_MAX_INTERVALS_def)

lemma length_verify_out:
  assumes "svu_wf s" and "length out = 32"
  shows "\<exists>st ivs nout. ci_svu_verify (Some s) (Some out) (word_of_nat SVU_MAX_INTERVALS) = (st, Some ivs, nout)
    \<and> length ivs = 32"
proof -
  have u: "unat (word_of_nat SVU_MAX_INTERVALS :: u32) \<le> length out"
    using assms(2) by (simp add: SVU_MAX_INTERVALS_def)
  show ?thesis
    using verify_holes(2) [OF assms(1) _ u] verify_blocks(2) [OF assms(1) _ u] assms(2)
    by (cases "\<forall>i < unat (v_total s). covered_at s i") (auto simp: SVU_MAX_INTERVALS_def)
qed

definition round_fragments :: "svu_env \<Rightarrow> nat \<Rightarrow> svu_req \<Rightarrow> (u32 \<times> bytes) list" where
  "round_fragments env rnd req =
     map fragment_of (filter (\<lambda>p. 8 < length p) (e_data env rnd (request_bytes req)))"

definition receiver_at :: "bytes \<Rightarrow> u32 \<Rightarrow> svu_client \<Rightarrow> ci_svu \<Rightarrow> bool" where
  "receiver_at src k cl s \<longleftrightarrow> svu_for src k s \<and>
     (k_recv cl = Some s \<or> k_recv cl = None \<and> svu_view s = replicate (length src) None)"

lemma client_open_receiver:
  assumes "payload_ok src k" and "client_ok src k cl" and "k_recv (client_open ok (meta_of src k) cl) \<noteq> None"
  obtains s where "k_recv (client_open ok (meta_of src k) cl) = Some s" "receiver_at src k cl s"
    "unat (k_total (client_open ok (meta_of src k) cl)) = length src"
    "k_ivs (client_open ok (meta_of src k) cl) = k_ivs cl" "k_nreq (client_open ok (meta_of src k) cl) = k_nreq cl"
proof (cases "k_recv cl")
  case None
  obtain s where s: "ci_svu_new ok (m_total (meta_of src k)) (m_block (meta_of src k))
      (Some (m_manifest (meta_of src k))) (m_nblocks (meta_of src k)) = (if ok then Some s else None)"
    "svu_for src k s" "svu_view s = replicate (length src) None"
    using new_from_meta [OF assms(1)] by blast
  moreover have "unat (m_total (meta_of src k)) = length src"
    using payload_size(3) [OF assms(1)] by (simp add: meta_of_def)
  ultimately show ?thesis
    using that [of s] None assms(3) by (simp add: client_open_def receiver_at_def split: if_splits)
next
  case (Some s)
  then show ?thesis using that [of s] assms(2) by (simp add: client_open_def receiver_at_def client_ok_def)
qed

lemma client_verify_receiver:
  assumes "k_recv cl = Some s0" and "svu_for src k s0" and "length (k_ivs cl) = 32"
  obtains s1 nout where "deliver (Some s0) (map fragment_of (filter (\<lambda>p. 8 < length p) pkts)) = Some s1"
    "svu_for src k s1" "k_recv (client_verify pkts cl) = Some s1" "length (k_ivs (client_verify pkts cl)) = 32"
    "k_total (client_verify pkts cl) = k_total cl"
    "ci_svu_verify (Some s1) (Some (k_ivs cl)) 32 =
       (k_st (client_verify pkts cl), Some (k_ivs (client_verify pkts cl)), nout)"
    "unat (k_nreq (client_verify pkts cl)) = (if k_st (client_verify pkts cl) = CI_SVU_COMPLETE_VERIFIED
       then unat (k_nreq cl) else min (unat nout) 32)"
proof -
  obtain s1 where s1: "drain_data pkts (k_recv cl) = Some s1" "svu_for src k s1"
    using svu_for_deliver [OF assms(2)] assms(1) by (auto simp: drain_data_deliver)
  obtain st ivs nout where v: "ci_svu_verify (Some s1) (Some (k_ivs cl)) 32 = (st, Some ivs, nout)" "length ivs = 32"
    using length_verify_out [of s1 "k_ivs cl"] s1(2) assms(3) by (auto simp: svu_for_def SVU_MAX_INTERVALS_def)
  show ?thesis
    by (rule that [of s1 nout])
      (use s1 v assms(1) in \<open>auto simp: client_verify_def SVU_MAX_INTERVALS_def drain_data_deliver
        Let_def word_less_nat_alt min_def\<close>)
qed

lemma client_round_eq:
  assumes "payload_ok src k" and "honest_ctrl src k env" and "client_ok src k cl"
    and "client_round env bs mtu rnd cl = Some cl'"
  obtains s0 s1 nout where "receiver_at src k cl s0" "deliver (Some s0) (round_fragments env rnd (client_request bs mtu cl)) = Some s1"
    "svu_for src k s1" "k_recv cl' = Some s1" "client_ok src k cl'"
    "ci_svu_verify (Some s1) (Some (k_ivs cl)) 32 = (k_st cl', Some (k_ivs cl'), nout)"
    "k_st cl' \<noteq> CI_SVU_COMPLETE_VERIFIED \<Longrightarrow> unat (k_nreq cl') = min (unat nout) 32"
proof -
  obtain m where m: "ctrl_attempts 8 0 (client_request bs mtu cl) (e_ctrl env rnd) = Some m"
    using assms(4) by (auto simp: client_round_def Let_def split: option.splits)
  then have mo: "m = meta_of src k" by (rule ctrl_attempts_honest [OF assms(2)])
  let ?o = "client_open (e_new_ok env) (meta_of src k) cl"
  have r: "k_recv ?o \<noteq> None" "cl' = client_verify (e_data env rnd (request_bytes (client_request bs mtu cl))) ?o"
    using assms(4) m mo by (auto simp: client_round_def Let_def split: if_splits)
  obtain s0 where s0: "k_recv ?o = Some s0" "receiver_at src k cl s0" "unat (k_total ?o) = length src"
    "k_ivs ?o = k_ivs cl" "k_nreq ?o = k_nreq cl"
    using client_open_receiver [OF assms(1,3) r(1)] .
  have pre: "svu_for src k s0" "length (k_ivs ?o) = 32" "unat (k_nreq ?o) \<le> 32"
    using s0 assms(3) by (simp_all add: receiver_at_def client_ok_def)
  obtain s1 nout where s1: "deliver (Some s0) (round_fragments env rnd (client_request bs mtu cl)) = Some s1" "svu_for src k s1"
    "k_recv cl' = Some s1" "length (k_ivs cl') = 32" "k_total cl' = k_total ?o"
    "ci_svu_verify (Some s1) (Some (k_ivs cl)) 32 = (k_st cl', Some (k_ivs cl'), nout)"
    "unat (k_nreq cl') = (if k_st cl' = CI_SVU_COMPLETE_VERIFIED then unat (k_nreq ?o) else min (unat nout) 32)"
    using client_verify_receiver [OF s0(1) pre(1,2), of "e_data env rnd (request_bytes (client_request bs mtu cl))"] s0(4)
    unfolding r(2) round_fragments_def by metis
  have "\<exists>out mx. k_st cl' = fst (ci_svu_verify (Some s1) out mx)" using s1(6) by (metis fst_conv)
  then have "client_ok src k cl'" using s1 s0(3) pre(3) by (simp add: client_ok_def)
  with that s0(2) s1 show ?thesis by auto
qed

lemma client_rounds_ok:
  assumes "payload_ok src k" and "honest_ctrl src k env" and "client_ok src k cl"
    and "client_rounds env bs mtu n rnd cl = Some cl'"
  shows "client_ok src k cl'"
  using assms(3,4)
proof (induction n arbitrary: rnd cl)
  case (Suc n)
  obtain cl1 where r: "client_round env bs mtu (rnd + 1) cl = Some cl1"
    using Suc.prems(2) by (auto split: option.splits)
  have "client_ok src k cl1" using client_round_eq [OF assms(1,2) Suc.prems(1) r] by blast
  then show ?case using Suc r by (auto split: if_splits)
qed simp

section \<open>Progress of a round\<close>

definition agrees :: "bytes \<Rightarrow> ci_svu \<Rightarrow> bool" where
  "agrees src s \<longleftrightarrow> (\<forall>i < length src. svu_view s ! i \<in> {None, Some (src ! i)})"

lemma deliver_agrees:
  assumes "svu_for src k s" and "agrees src s" and "\<forall>fr \<in> set frs. cut_from src fr"
    and "deliver (Some s) frs = Some s'"
  shows "svu_for src k s'" and "agrees src s'"
    and "\<forall>i < length src. covered_at s' i \<longleftrightarrow> covered_at s i \<or> spans frs i"
proof -
  show s': "svu_for src k s'" using svu_for_deliver [OF assms(1)] assms(4) by (metis option.inject)
  have view: "\<forall>i < length src. svu_view s' ! i = (if spans frs i then Some (src ! i) else svu_view s ! i)"
    by (rule deliver_from_src [OF assms(1,3,4)])
  then show "agrees src s'" using assms(2) by (simp add: agrees_def)
  have "unat (v_total s) = length src" "unat (v_total s') = length src"
    using assms(1) s' by (simp_all add: svu_for_def)
  then show "\<forall>i < length src. covered_at s' i \<longleftrightarrow> covered_at s i \<or> spans frs i"
    using view by (auto simp: svu_view_def split: if_splits)
qed

lemma agrees_full:
  assumes "svu_for src k s" and "agrees src s" and "\<forall>i < length src. covered_at s i"
  shows "svu_view s = map Some src"
proof (rule nth_equalityI)
  show "length (svu_view s) = length (map Some src)" using assms(1) by (simp add: svu_for_def)
next
  fix i assume "i < length (svu_view s)"
  then have i: "i < length src" using assms(1) by (simp add: svu_for_def)
  then have "svu_view s ! i \<noteq> None" using assms(1,3) by (simp add: svu_view_def svu_for_def)
  then show "svu_view s ! i = map Some src ! i" using assms(2) i by (auto simp: agrees_def)
qed

text \<open>The client holds a receiver \<open>s\<close> and is about to request its first 32 missing ranges.\<close>

definition requests_holes :: "svu_client \<Rightarrow> ci_svu \<Rightarrow> bool" where
  "requests_holes cl s \<longleftrightarrow> k_recv cl = Some s \<and> hole_list s 0 \<noteq> [] \<and>
     unat (k_nreq cl) = min (length (hole_list s 0)) 32 \<and>
     take (unat (k_nreq cl)) (k_ivs cl) = map interval_of (take 32 (hole_list s 0))"

lemma wanted_holes:
  assumes "requests_holes cl s" and "svu_for src k s"
  shows "wanted (client_request bs mtu cl) i \<longleftrightarrow> (\<exists>x \<in> set (take 32 (hole_list s 0)). fst x \<le> i \<and> i < snd x)"
proof -
  let ?hs = "take 32 (hole_list s 0)"
  have n: "unat (v_total s) < 2 ^ 32" using unat_less_pow(3) by simp
  have "\<forall>x \<in> set (hole_list s 0). fst x < snd x \<and> snd x \<le> unat (v_total s)"
    using hole_list_maximal [of s] by (simp add: maximal_runs_def)
  then have u: "unat (word_of_nat (fst x) :: u32) = fst x \<and> unat (word_of_nat (snd x) :: u32) = snd x"
    if "x \<in> set ?hs" for x
  proof -
    have "fst x < snd x" "snd x \<le> unat (v_total s)"
      using that \<open>\<forall>x \<in> set (hole_list s 0). _ x\<close> in_set_takeD by fast+
    then have "fst x < 2 ^ 32" "snd x < 2 ^ 32" using n by linarith+
    then show ?thesis using unat_pos32 by blast
  qed
  have ivs: "map (\<lambda>iv. \<lparr>wi_start = iv_start iv, wi_end = iv_end iv\<rparr>) (take (unat (k_nreq cl)) (k_ivs cl)) =
      map (\<lambda>x. \<lparr>wi_start = word_of_nat (fst x), wi_end = word_of_nat (snd x)\<rparr>) ?hs"
  proof -
    have "take (unat (k_nreq cl)) (k_ivs cl) = map interval_of ?hs"
      using assms(1) unfolding requests_holes_def by blast
    then show ?thesis by (simp only: map_map) (simp add: interval_of_def)
  qed
  have len: "length ?hs = unat (k_nreq cl)" using assms(1) by (simp add: requests_holes_def)
  have nz: "k_nreq cl \<noteq> 0" using assms(1) by (auto simp: requests_holes_def)
  have "take (unat (k_nreq cl)) (q_intervals (client_request bs mtu cl)) =
      map (\<lambda>x. \<lparr>wi_start = word_of_nat (fst x), wi_end = word_of_nat (snd x)\<rparr>) ?hs"
    unfolding client_request_def svu_req.select_convs ivs using len by simp
  then show ?thesis
    using nz u by (auto simp: wanted_def client_request_def simp del: take_map)
qed

lemma client_round_live:
  assumes "payload_ok src k" and "honest_ctrl src k env" and "client_ok src k cl"
    and "ctrl_attempts 8 0 (client_request bs mtu cl) (e_ctrl env rnd) \<noteq> None" and "e_new_ok env"
    and "\<forall>s. k_recv cl = Some s \<longrightarrow> agrees src s"
    and "\<forall>fr \<in> set (round_fragments env rnd (client_request bs mtu cl)). cut_from src fr"
  obtains cl' s0 s1 where "client_round env bs mtu rnd cl = Some cl'" "client_ok src k cl'"
    "k_recv cl' = Some s1" "svu_for src k s1" "agrees src s1" "receiver_at src k cl s0"
    "\<forall>i < length src. covered_at s1 i \<longleftrightarrow> covered_at s0 i \<or> spans (round_fragments env rnd (client_request bs mtu cl)) i"
    "if \<forall>i < length src. covered_at s1 i then k_st cl' = CI_SVU_COMPLETE_VERIFIED \<and> v_data s1 = src
     else k_st cl' = CI_SVU_INCOMPLETE \<and> requests_holes cl' s1"
proof -
  let ?req = "client_request bs mtu cl"
  obtain m where m: "ctrl_attempts 8 0 ?req (e_ctrl env rnd) = Some m" using assms(4) by blast
  then have mo: "m = meta_of src k" by (rule ctrl_attempts_honest [OF assms(2)])
  have "k_recv (client_open (e_new_ok env) (meta_of src k) cl) \<noteq> None"
    using new_from_meta [OF assms(1), of True] assms(5) by (auto simp: client_open_def)
  then obtain cl' where r: "client_round env bs mtu rnd cl = Some cl'"
    by (auto simp: client_round_def m mo Let_def)
  obtain s0 s1 nout where s: "receiver_at src k cl s0" "deliver (Some s0) (round_fragments env rnd ?req) = Some s1"
    "svu_for src k s1" "k_recv cl' = Some s1" "client_ok src k cl'"
    "ci_svu_verify (Some s1) (Some (k_ivs cl)) 32 = (k_st cl', Some (k_ivs cl'), nout)"
    "k_st cl' \<noteq> CI_SVU_COMPLETE_VERIFIED \<Longrightarrow> unat (k_nreq cl') = min (unat nout) 32"
    using client_round_eq [OF assms(1-3) r] by blast
  have s0: "svu_for src k s0" "agrees src s0"
    using s(1) assms(6) by (auto simp: receiver_at_def agrees_def)
  note d = deliver_agrees [OF s0 assms(7) s(2)]
  have n: "unat (v_total s1) = length src" and wf: "svu_wf s1" using s(3) by (simp_all add: svu_for_def)
  have len: "unat (32 :: u32) \<le> length (k_ivs cl)" using assms(3) by (simp add: client_ok_def)
  have "if \<forall>i < length src. covered_at s1 i then k_st cl' = CI_SVU_COMPLETE_VERIFIED \<and> v_data s1 = src
     else k_st cl' = CI_SVU_INCOMPLETE \<and> requests_holes cl' s1"
  proof (cases "\<forall>i < length src. covered_at s1 i")
    case True
    note full = agrees_full [OF s(3) d(2) True]
    show ?thesis
      using svu_for_full_verified [OF s(3) full] s(6) svu_view_full(1) [OF s(3) full] True by simp
  next
    case False
    let ?h = "hole_list s1 0"
    note v = verify_holes [OF wf False [folded n] len]
    have e: "k_st cl' = CI_SVU_INCOMPLETE"
      "k_ivs cl' = memcpy_at (k_ivs cl) 0 (take 32 (map interval_of ?h))" "unat nout = length ?h"
      using v(2) s(6) unat_pos32 [OF v(1)] by auto
    then have nreq: "unat (k_nreq cl') = min (length ?h) 32" using s(7) by simp
    have "?h \<noteq> []" using hole_list_maximal [of s1] False n by (auto simp: maximal_runs_def)
    moreover have "take (min (length ?h) 32) (k_ivs cl') = map interval_of (take 32 ?h)"
      using len by (cases "length ?h \<le> 32") (simp_all add: e memcpy_at_def take_map)
    ultimately show ?thesis using False e s(4) nreq by (simp add: requests_holes_def)
  qed
  with that r s d show ?thesis by blast
qed

section \<open>Completion\<close>

text \<open>
  The environment of a transfer over a link that loses but does not damage packets: the control
  channel answers within its eight attempts, memory suffices, and every data packet is cut from
  the payload. A round is lossless if exactly the requested bytes arrive.
\<close>

definition fair_env :: "bytes \<Rightarrow> u32 \<Rightarrow> u32 \<Rightarrow> u32 \<Rightarrow> svu_env \<Rightarrow> bool" where
  "fair_env src k bs mtu env \<longleftrightarrow> honest_ctrl src k env \<and> e_new_ok env \<and>
     (\<forall>rnd cl. client_ok src k cl \<longrightarrow>
        ctrl_attempts 8 0 (client_request bs mtu cl) (e_ctrl env rnd) \<noteq> None \<and>
        (\<forall>p \<in> set (e_data env rnd (request_bytes (client_request bs mtu cl))).
           8 < length p \<longrightarrow> cut_from src (fragment_of p)))"

definition lossless :: "bytes \<Rightarrow> u32 \<Rightarrow> u32 \<Rightarrow> u32 \<Rightarrow> svu_env \<Rightarrow> nat \<Rightarrow> bool" where
  "lossless src k bs mtu env rnd \<longleftrightarrow>
     (\<forall>cl. client_ok src k cl \<longrightarrow>
        carries src (e_data env rnd (request_bytes (client_request bs mtu cl)))
          (\<lambda>i. i < length src \<and> wanted (client_request bs mtu cl) i))"

lemma lossless_spans:
  assumes "lossless src k bs mtu env rnd" and "client_ok src k cl"
  shows "spans (round_fragments env rnd (client_request bs mtu cl)) i \<longleftrightarrow>
    i < length src \<and> wanted (client_request bs mtu cl) i"
proof -
  have c: "carries src (e_data env rnd (request_bytes (client_request bs mtu cl)))
      (\<lambda>i. i < length src \<and> wanted (client_request bs mtu cl) i)"
    using assms by (simp add: lossless_def)
  then have "filter (\<lambda>p. 8 < length p) (e_data env rnd (request_bytes (client_request bs mtu cl))) =
      e_data env rnd (request_bytes (client_request bs mtu cl))"
    by (simp add: carries_def filter_id_conv)
  with c show ?thesis by (simp add: carries_def round_fragments_def)
qed

lemma fair_round:
  assumes "payload_ok src k" and "fair_env src k bs mtu env" and "client_ok src k cl"
    and "\<forall>s. k_recv cl = Some s \<longrightarrow> agrees src s"
  obtains cl' s0 s1 where "client_round env bs mtu rnd cl = Some cl'" "client_ok src k cl'"
    "k_recv cl' = Some s1" "svu_for src k s1" "agrees src s1" "receiver_at src k cl s0"
    "\<forall>i < length src. covered_at s1 i \<longleftrightarrow> covered_at s0 i \<or> spans (round_fragments env rnd (client_request bs mtu cl)) i"
    "if \<forall>i < length src. covered_at s1 i then k_st cl' = CI_SVU_COMPLETE_VERIFIED \<and> v_data s1 = src
     else k_st cl' = CI_SVU_INCOMPLETE \<and> requests_holes cl' s1"
proof -
  have cut: "\<forall>fr \<in> set (round_fragments env rnd (client_request bs mtu cl)). cut_from src fr"
    using assms(2,3) by (auto simp: fair_env_def round_fragments_def)
  have h: "honest_ctrl src k env" "e_new_ok env"
    "ctrl_attempts 8 0 (client_request bs mtu cl) (e_ctrl env rnd) \<noteq> None"
    using assms(2,3) unfolding fair_env_def by blast+
  show ?thesis
    by (rule client_round_live [OF assms(1) h(1) assms(3) h(3,2) assms(4) cut]) (rule that)
qed

lemma lossless_round_drops:
  assumes "lossless src k bs mtu env rnd" and "client_ok src k cl" and "requests_holes cl s0"
    and "svu_for src k s0" and "svu_for src k s1"
    and "\<forall>i < length src. covered_at s1 i \<longleftrightarrow> covered_at s0 i \<or> spans (round_fragments env rnd (client_request bs mtu cl)) i"
  shows "hole_list s1 0 = drop 32 (hole_list s0 0)"
proof -
  have n: "unat (v_total s0) = length src" "unat (v_total s1) = length src"
    using assms(4,5) by (simp_all add: svu_for_def)
  let ?in = "\<lambda>i. \<exists>x \<in> set (take 32 (hole_list s0 0)). fst x \<le> i \<and> i < snd x"
  have "maximal_runs (length src) (\<lambda>i. \<not> covered_at s0 i \<and> \<not> ?in i) (drop 32 (hole_list s0 0))"
    using maximal_runs_drop [OF hole_list_maximal [of s0], of 32] n by simp
  moreover have "i < length src \<and> \<not> covered_at s0 i \<and> \<not> ?in i \<longleftrightarrow> i < length src \<and> \<not> covered_at s1 i" for i
    using assms(6) lossless_spans [OF assms(1,2)] wanted_holes [OF assms(3,4)] by blast
  ultimately have "maximal_runs (length src) (\<lambda>i. \<not> covered_at s1 i) (drop 32 (hole_list s0 0))"
    by (simp add: maximal_runs_def)
  then show ?thesis using maximal_runs_unique hole_list_maximal [of s1] n by metis
qed

definition finished :: "bytes \<Rightarrow> u32 \<Rightarrow> svu_client option \<Rightarrow> bool" where
  "finished src k r \<longleftrightarrow> (\<exists>cl s. r = Some cl \<and> k_st cl = CI_SVU_COMPLETE_VERIFIED \<and> client_ok src k cl \<and>
     k_recv cl = Some s \<and> v_data s = src)"

lemma lossless_rounds_finish:
  assumes "payload_ok src k" and "fair_env src k bs mtu env" and "\<forall>r > rnd. lossless src k bs mtu env r"
    and "client_ok src k cl" and "requests_holes cl s" and "svu_for src k s" and "agrees src s"
    and "length (hole_list s 0) \<le> 32 * n"
  shows "finished src k (client_rounds env bs mtu n rnd cl)"
  using assms(3-)
proof (induction n arbitrary: rnd cl s)
  case 0
  then show ?case by (simp add: requests_holes_def)
next
  case (Suc n)
  have rs: "k_recv cl = Some s" using Suc.prems(3) by (simp add: requests_holes_def)
  then have ag: "\<forall>s. k_recv cl = Some s \<longrightarrow> agrees src s" using Suc.prems(5) by simp
  obtain cl' s0 s1 where r: "client_round env bs mtu (rnd + 1) cl = Some cl'" "client_ok src k cl'"
    "k_recv cl' = Some s1" "svu_for src k s1" "agrees src s1" "receiver_at src k cl s0"
    "\<forall>i < length src. covered_at s1 i \<longleftrightarrow> covered_at s0 i \<or> spans (round_fragments env (rnd + 1) (client_request bs mtu cl)) i"
    "if \<forall>i < length src. covered_at s1 i then k_st cl' = CI_SVU_COMPLETE_VERIFIED \<and> v_data s1 = src
     else k_st cl' = CI_SVU_INCOMPLETE \<and> requests_holes cl' s1"
    by (rule fair_round [OF assms(1,2) Suc.prems(2) ag, of "rnd + 1"]) blast
  have "s0 = s" using r(6) rs by (simp add: receiver_at_def)
  have ll: "lossless src k bs mtu env (rnd + 1)" using Suc.prems(1) by simp
  have drop: "hole_list s1 0 = drop 32 (hole_list s 0)"
    using lossless_round_drops [OF ll Suc.prems(2,3,4) r(4)] r(7) \<open>s0 = s\<close> by simp
  show ?case
  proof (cases "\<forall>i < length src. covered_at s1 i")
    case True
    then show ?thesis using r by (auto simp: finished_def)
  next
    case False
    then have st: "k_st cl' = CI_SVU_INCOMPLETE" "requests_holes cl' s1" using r(8) by simp_all
    have "length (hole_list s1 0) \<le> 32 * n" using drop Suc.prems(6) by simp
    then have "finished src k (client_rounds env bs mtu n (rnd + 1) cl')"
      using Suc.IH [OF _ r(2) st(2) r(4,5)] Suc.prems(1) by simp
    then show ?thesis using r(1) st(1) by simp
  qed
qed

lemma first_lossless_round:
  assumes "payload_ok src k" and "fair_env src k bs mtu env" and "lossless src k bs mtu env (rnd + 1)"
    and "client_ok src k cl" and "k_recv cl = None"
  shows "finished src k (client_rounds env bs mtu (Suc n) rnd cl)"
proof -
  have ag: "\<forall>s. k_recv cl = Some s \<longrightarrow> agrees src s" using assms(5) by simp
  obtain cl' s0 s1 where r: "client_round env bs mtu (rnd + 1) cl = Some cl'" "client_ok src k cl'"
    "k_recv cl' = Some s1"
    "\<forall>i < length src. covered_at s1 i \<longleftrightarrow> covered_at s0 i \<or> spans (round_fragments env (rnd + 1) (client_request bs mtu cl)) i"
    "if \<forall>i < length src. covered_at s1 i then k_st cl' = CI_SVU_COMPLETE_VERIFIED \<and> v_data s1 = src
     else k_st cl' = CI_SVU_INCOMPLETE \<and> requests_holes cl' s1"
    by (rule fair_round [OF assms(1,2,4) ag, of "rnd + 1"]) blast
  have "k_nreq cl = 0" using assms(4,5) by (simp add: client_ok_def)
  then have "wanted (client_request bs mtu cl) i" for i by (simp add: wanted_def client_request_def)
  then have "\<forall>i < length src. covered_at s1 i"
    using r(4) lossless_spans [OF assms(3,4)] by simp
  then show ?thesis using r by (auto simp: finished_def)
qed

lemma lossy_then_lossless:
  assumes "payload_ok src k" and "fair_env src k bs mtu env" and "\<forall>r > rnd + d. lossless src k bs mtu env r"
    and "client_ok src k cl" and "\<forall>s. k_recv cl = Some s \<longrightarrow> agrees src s \<and> requests_holes cl s"
    and "length src < 64 * n"
  shows "finished src k (client_rounds env bs mtu (d + n) rnd cl)"
  using assms(3-5)
proof (induction d arbitrary: rnd cl)
  case 0
  obtain m where n: "n = Suc m" using assms(6) by (cases n) auto
  show ?case
  proof (cases "k_recv cl")
    case None
    then show ?thesis using first_lossless_round [OF assms(1,2) _ 0(2)] 0(1) n by simp
  next
    case (Some s)
    then have s: "agrees src s" "requests_holes cl s" "svu_for src k s"
      using 0(2,3) by (auto simp: client_ok_def)
    have "2 * length (hole_list s 0) \<le> length src + 1"
      using maximal_runs_half [OF hole_list_maximal [of s]] s(3) by (simp add: svu_for_def)
    then have "length (hole_list s 0) \<le> 32 * n" using assms(6) by simp
    then show ?thesis using lossless_rounds_finish [OF assms(1,2) _ 0(2) s(2,3,1)] 0(1) by simp
  qed
next
  case (Suc d)
  have ag: "\<forall>s. k_recv cl = Some s \<longrightarrow> agrees src s" using Suc.prems(3) by simp
  obtain cl' s1 where r: "client_round env bs mtu (rnd + 1) cl = Some cl'" "client_ok src k cl'"
    "k_recv cl' = Some s1" "agrees src s1"
    "if \<forall>i < length src. covered_at s1 i then k_st cl' = CI_SVU_COMPLETE_VERIFIED \<and> v_data s1 = src
     else k_st cl' = CI_SVU_INCOMPLETE \<and> requests_holes cl' s1"
    by (rule fair_round [OF assms(1,2) Suc.prems(2) ag, of "rnd + 1"]) blast
  show ?case
  proof (cases "\<forall>i < length src. covered_at s1 i")
    case True
    then show ?thesis using r by (auto simp: finished_def)
  next
    case False
    then have st: "k_st cl' = CI_SVU_INCOMPLETE" "requests_holes cl' s1" using r(5) by simp_all
    have "finished src k (client_rounds env bs mtu (d + n) (rnd + 1) cl')"
      using Suc.IH [of "rnd + 1" cl'] Suc.prems(1) r(2,3,4) st(2) by simp
    then show ?thesis using r(1) st(1) by simp
  qed
qed

lemma client_completes:
  assumes "payload_ok src k" and "fair_env src k bs mtu env" and "e_disk env src = Some contents"
    and "\<forall>r > d. lossless src k bs mtu env r" and "d \<le> unat max_rounds"
    and "length src < 64 * (unat max_rounds - d) \<or> d = 0 \<and> 0 < unat max_rounds"
  shows "svu_client_run env bs mtu max_rounds = (0, Some contents)"
proof -
  have "finished src k (client_rounds env bs mtu (unat max_rounds) 0 svu_client_init)"
  proof (cases "d = 0 \<and> 0 < unat max_rounds")
    case True
    then obtain m where "unat max_rounds = Suc m" by (cases "unat max_rounds") auto
    then show ?thesis
      using first_lossless_round [OF assms(1,2) _ client_ok_init, of 0 m] assms(4) True
      by (simp add: svu_client_init_def)
  next
    case False
    then have "length src < 64 * (unat max_rounds - d)" using assms(6) by blast
    then show ?thesis
      using lossy_then_lossless [OF assms(1,2) _ client_ok_init, of 0 d "unat max_rounds - d"] assms(4,5)
      by (simp add: svu_client_init_def)
  qed
  then show ?thesis
    using assms(3) by (auto simp: finished_def svu_client_run_def ci_svu_data_def client_ok_def)
qed

lemma client_sound:
  assumes "payload_ok src k" and "honest_ctrl src k env" and "\<forall>xs ys. e_disk env xs = Some ys \<longrightarrow> ys = xs"
    and "svu_client_run env bs mtu max_rounds = (0, Some file_bytes)"
  shows "file_bytes = src \<or>
    (\<exists>b < length (svu_blocks (unat k) src).
       svu_block (unat k) file_bytes b \<noteq> svu_block (unat k) src b \<and>
       sha256 (svu_block (unat k) file_bytes b) = sha256 (svu_block (unat k) src b))"
proof -
  obtain cl where cl: "client_rounds env bs mtu (unat max_rounds) 0 svu_client_init = Some cl"
    "k_st cl = CI_SVU_COMPLETE_VERIFIED"
    "e_disk env (take (unat (k_total cl)) (the (ci_svu_data (k_recv cl)))) = Some file_bytes"
    using assms(4) by (auto simp: svu_client_run_def split: option.splits if_splits)
  have ok: "client_ok src k cl" by (rule client_rounds_ok [OF assms(1,2) client_ok_init cl(1)])
  then obtain s out mx where s: "k_recv cl = Some s" "svu_for src k s" "unat (k_total cl) = length src"
    "fst (ci_svu_verify (Some s) out mx) = CI_SVU_COMPLETE_VERIFIED"
    using cl(2) unfolding client_ok_def by (cases "k_recv cl") (simp_all, metis)
  have "length (v_data s) = length src" using s(2) by (simp add: svu_for_def svu_wf_def)
  then have "file_bytes = v_data s"
    using assms(3) cl(3) s(1,3) by (simp add: ci_svu_data_def)
  then show ?thesis using verified_or_collision [OF s(2,4)] by simp
qed

end
