(* ===== verification/SVU_Transfer.thy ===== *)
theory SVU_Transfer
  imports SVU_Session
begin

text \<open>
  The uploader end to end: the client of \<open>SVU_Session\<close> against the server of \<open>SVU_Serve\<close>, over a
  control channel that delivers and a data link that loses packets. The properties of the client
  are stated here for an arbitrary environment, and the composition shows that the server's
  answers are such an environment. A control channel that goes to a given server and may break at any
  point (\<open>serves\<close>) is honest about what this server was set up with.
\<close>

section \<open>The composed system\<close>

text \<open>
  The server's answer to the bytes of a request, and the environment it is for the client. The
  link is a function of the round and the packets sent; it may drop, reorder and repeat them.
\<close>

definition served :: "nat \<Rightarrow> bytes \<Rightarrow> u32 \<Rightarrow> bytes \<Rightarrow> svu_reply option" where
  "served cap src k rb =
     (case svu_serve_request (\<lambda>c. True) cap (server_of src k) 0 (Some rb) of
        Some (Inr r) \<Rightarrow> r | _ \<Rightarrow> None)"

definition linked_env :: "nat \<Rightarrow> bytes \<Rightarrow> u32 \<Rightarrow> (nat \<Rightarrow> bytes list \<Rightarrow> bytes list) \<Rightarrow> svu_env" where
  "linked_env cap src k link =
     \<lparr>e_ctrl = (\<lambda>rnd i rb. \<lparr>ce_conn = True, ce_buf = True, ce_alloc = True,
        ce_reads = (case served cap src k rb of None \<Rightarrow> [] | Some r \<Rightarrow> rp_ctrl r)\<rparr>),
      e_data = (\<lambda>rnd rb. link rnd (case served cap src k rb of None \<Rightarrow> [] | Some r \<Rightarrow> rp_data r)),
      e_new_ok = True, e_disk = Some\<rparr>"

section \<open>The server's answers as an environment\<close>

lemma resp_header_words:
  "length (resp_header sv s) = 20" "svu_get32 (resp_header sv s) 0 = SVU_MAGIC_RESP"
  "svu_get32 (resp_header sv s) 8 = sv_total sv" "svu_get32 (resp_header sv s) 12 = sv_block sv"
  "svu_get32 (resp_header sv s) 16 = sv_nblocks sv"
  by (simp_all add: resp_header_def SVU_RESP_HDR_def Let_def)

definition manifest_fits_client :: "bytes \<Rightarrow> u32 \<Rightarrow> bool" where
  "manifest_fits_client src k \<longleftrightarrow> 32 * ceil_div (length src) (unat k) + 65536 \<le> 2 ^ 32"

lemma manifest_fits_weaken: "manifest_fits_client src k \<Longrightarrow> manifest_fits src k"
  by (simp add: manifest_fits_client_def manifest_fits_def)

lemma ctrl_of_response:
  assumes "payload_ok src k" and "manifest_fits_client src k"
    and "concat ps = sv_manifest (server_of src k)" and "\<forall>p \<in> set ps. p \<noteq> [] \<and> length p \<le> 200"
    and "net (request_bytes req) = \<lparr>ce_conn = True, ce_buf = True, ce_alloc = True,
      ce_reads = resp_header (server_of src k) s # ps\<rparr>"
  shows "ctrl_exchange req net = Some (meta_of src k)"
proof -
  let ?sv = "server_of src k" and ?mb = "sv_nblocks (server_of src k) * word_of_nat CI_SVU_HASH_LEN"
  note f = server_of_fields [OF assms(1)]
  note b = server_manifest_bytes [OF assms(1) manifest_fits_weaken [OF assms(2)]]
  have "read_manifest ?mb 0 (replicate (unat ?mb) 0) ps = Some (sv_manifest ?sv)"
    using b assms(2-4) by (intro read_manifest_ok) (auto simp: manifest_fits_client_def)
  moreover have "sv_total ?sv = word_of_nat (length src)"
    by (simp add: server_of_def svu_serve_setup_def Let_def)
  ultimately show ?thesis
    using assms(5) f by (simp add: ctrl_exchange_def resp_header_words SVU_RESP_HDR_def meta_of_def)
qed

lemma served_ctrl:
  assumes "payload_ok src k" and "manifest_fits src k" and "200 \<le> cap" and "served cap src k rb = Some r"
  shows "\<exists>ps s. rp_ctrl r = resp_header (server_of src k) s # ps \<and>
    concat ps = sv_manifest (server_of src k) \<and> (\<forall>p \<in> set ps. p \<noteq> [] \<and> length p \<le> 200)"
proof -
  have sr: "svu_serve_request (\<lambda>c. True) cap (server_of src k) 0 (Some rb) = Some (Inr (Some r))"
    using assms(4) by (auto simp: served_def split: option.splits sum.splits)
  then obtain req where req: "svu_req_decode (Some rb) = Some req"
    by (auto simp: svu_serve_request_def split: option.splits)
  obtain ps c where ps: "send_response (\<lambda>c. True) cap (server_of src k) (q_session_id req) 0 =
      Some (Inr (resp_header (server_of src k) (q_session_id req) # ps, c))"
    "concat ps = sv_manifest (server_of src k)" "\<forall>p \<in> set ps. p \<noteq> [] \<and> length p \<le> 200"
    using send_response_ok [of "\<lambda>c. True", OF _ assms(3,1,2)] by blast
  have "rp_ctrl r = resp_header (server_of src k) (q_session_id req) # ps"
    using sr req ps(1)
    by (auto simp: svu_serve_request_def Let_def run_bind_def split: option.splits sum.splits if_splits)
  with ps show ?thesis by blast
qed

lemma request_decodes:
  assumes "length (k_ivs cl) = 32" and "unat (k_nreq cl) \<le> 32"
  shows "svu_req_decode (Some (request_bytes (client_request bs mtu cl))) = Some (client_request bs mtu cl)"
proof -
  let ?r = "client_request bs mtu cl" and ?buf = "replicate (SVU_REQ_HDR + SVU_MAX_INTERVALS * 8) 0 :: bytes"
  let ?n = "unat (k_nreq cl)"
  note n = assms(2,1)
  have c: "q_magic ?r = SVU_MAGIC_REQ" "q_nof_intervals ?r = k_nreq cl"
    by (simp_all add: client_request_def)
  have len: "length (take ?n (k_ivs cl)) = ?n" using n by simp
  then have ivs: "take ?n (q_intervals ?r) @ replicate (32 - ?n) \<lparr>wi_start = 0, wi_end = 0\<rparr> = q_intervals ?r"
    "length (q_intervals ?r) = 32"
    using n by (simp_all add: client_request_def SVU_MAX_INTERVALS_def)
  obtain m b where e: "svu_req_encode ?r ?buf = (m, b)" by fastforce
  have "svu_req_decode (Some (take m b)) = Some (?r\<lparr>q_intervals := take (unat (q_nof_intervals ?r)) (q_intervals ?r) @
      replicate (32 - unat (q_nof_intervals ?r)) \<lparr>wi_start = 0, wi_end = 0\<rparr>\<rparr>)"
    by (rule req_roundtrip [OF c(1) _ _ _ e])
      (use n c ivs(2) in \<open>simp_all add: SVU_REQ_HDR_def SVU_MAX_INTERVALS_def\<close>)
  then show ?thesis using e ivs(1) c(2) by (simp add: request_bytes_def)
qed

lemma client_request_decodes:
  "client_ok src k cl \<Longrightarrow>
    svu_req_decode (Some (request_bytes (client_request bs mtu cl))) = Some (client_request bs mtu cl)"
  by (rule request_decodes) (simp_all add: client_ok_def)

lemma served_client_request:
  assumes "payload_ok src k" and "manifest_fits src k" and "200 \<le> cap" and "cap < 65536"
    and "8 < unat mtu" and "unat mtu \<le> cap" and "length src + cap \<le> 2 ^ 32" and "client_ok src k cl"
  shows "\<exists>r. served cap src k (request_bytes (client_request bs mtu cl)) = Some r \<and>
    carries src (rp_data r) (\<lambda>i. i < length src \<and> wanted (client_request bs mtu cl) i)"
proof -
  let ?r = "client_request bs mtu cl"
  have "effective_mtu ?r = mtu"
    using assms(5) by (simp add: effective_mtu_def client_request_def word_less_nat_alt)
  then have m: "unat (effective_mtu ?r) \<le> cap" using assms(6) by simp
  obtain ctrl data where "svu_serve_request (\<lambda>c. True) cap (server_of src k) 0 (Some (request_bytes ?r)) =
      Some (Inr (Some \<lparr>rp_ctrl = resp_header (server_of src k) (q_session_id ?r) # ctrl,
        rp_client = 0, rp_data = data\<rparr>))"
    "carries src data (\<lambda>i. i < length src \<and> wanted ?r i)"
    using serve_request_ok [of src k _ ?r "\<lambda>c. True" cap 0,
        OF assms(1,2) client_request_decodes [OF assms(8)] _ assms(3,4) m assms(7)] by blast
  then show ?thesis by (simp add: served_def)
qed

text \<open>The limits of a transfer: payload, manifest, packet buffers and MTU.\<close>

definition transfer_ok :: "bytes \<Rightarrow> u32 \<Rightarrow> nat \<Rightarrow> u32 \<Rightarrow> bool" where
  "transfer_ok src k cap mtu \<longleftrightarrow> payload_ok src k \<and> manifest_fits_client src k \<and> 200 \<le> cap \<and> cap < 65536 \<and>
     8 < unat mtu \<and> unat mtu \<le> cap \<and> length src + cap \<le> 2 ^ 32"

lemma linked_env_fair:
  assumes "transfer_ok src k cap mtu" and "\<forall>rnd ps. set (link rnd ps) \<subseteq> set ps"
  shows "fair_env src k bs mtu (linked_env cap src k link)"
proof -
  let ?env = "linked_env cap src k link"
  have ok: "payload_ok src k" "manifest_fits_client src k" "200 \<le> cap"
    using assms(1) by (simp_all add: transfer_ok_def)
  note fits = manifest_fits_weaken [OF ok(2)]
  have ctrl: "ctrl_exchange req (e_ctrl ?env rnd i) =
      (case served cap src k (request_bytes req) of None \<Rightarrow> None | Some r \<Rightarrow> Some (meta_of src k))" for req rnd i
  proof (cases "served cap src k (request_bytes req)")
    case None
    then show ?thesis by (simp add: ctrl_exchange_def linked_env_def)
  next
    case (Some r)
    obtain ps s where ps: "rp_ctrl r = resp_header (server_of src k) s # ps"
      "concat ps = sv_manifest (server_of src k)" "\<forall>p \<in> set ps. p \<noteq> [] \<and> length p \<le> 200"
      using served_ctrl [OF ok(1) fits ok(3) Some] by blast
    have "ctrl_exchange req (e_ctrl ?env rnd i) = Some (meta_of src k)"
      by (rule ctrl_of_response [OF ok(1,2) ps(2,3), of _ _ s]) (simp add: linked_env_def Some ps(1))
    then show ?thesis using Some by simp
  qed
  have honest: "honest_ctrl src k ?env" unfolding honest_ctrl_def ctrl by (auto split: option.splits)
  have "ctrl_attempts 8 0 (client_request bs mtu cl) (e_ctrl ?env rnd) \<noteq> None \<and>
      (\<forall>p \<in> set (e_data ?env rnd (request_bytes (client_request bs mtu cl))).
         8 < length p \<longrightarrow> cut_from src (fragment_of p))" if cl: "client_ok src k cl" for rnd cl
  proof -
    obtain r where r: "served cap src k (request_bytes (client_request bs mtu cl)) = Some r"
      "carries src (rp_data r) (\<lambda>i. i < length src \<and> wanted (client_request bs mtu cl) i)"
      using served_client_request [OF ok(1) fits ok(3), of mtu cl bs] assms(1) cl by (auto simp: transfer_ok_def)
    have "ctrl_attempts (Suc 7) 0 (client_request bs mtu cl) (e_ctrl ?env rnd) \<noteq> None"
      unfolding ctrl_attempts.simps ctrl r(1) option.case by simp
    moreover have "\<forall>p \<in> set (e_data ?env rnd (request_bytes (client_request bs mtu cl))). cut_from src (fragment_of p)"
      using r assms(2) by (auto simp: linked_env_def carries_def)
    ultimately show ?thesis by simp
  qed
  with honest show ?thesis unfolding fair_env_def by (simp add: linked_env_def)
qed

text \<open>
  An environment whose control connections go to a given server: each of them delivers the packets
  of the server's answer to the request in order and may break after any number of them. The data
  port is left open.
\<close>

definition serves :: "nat \<Rightarrow> svu_server \<Rightarrow> svu_env \<Rightarrow> bool" where
  "serves cap sv env \<longleftrightarrow>
     (\<forall>rnd i rb. \<exists>n. ce_reads (e_ctrl env rnd i rb) =
        take n (case svu_serve_request (\<lambda>c. True) cap sv 0 (Some rb) of
                  Some (Inr (Some r)) \<Rightarrow> rp_ctrl r | _ \<Rightarrow> []))"

lemma read_manifest_append:
  "read_manifest nb got m reads = Some mf \<Longrightarrow> read_manifest nb got m (reads @ rest) = Some mf"
proof (induction nb got m reads rule: read_manifest.induct)
  case (1 nb got m)
  then show ?case by (cases rest) (auto split: if_splits)
qed (auto simp: Let_def split: if_splits)

text \<open>A connection that breaks gives no answer at all or the same answer as the complete one.\<close>

lemma ctrl_exchange_prefix:
  assumes "ctrl_exchange req net = Some m" and "ce_reads (net (request_bytes req)) = take n full"
  shows "ctrl_exchange req (\<lambda>rb. \<lparr>ce_conn = True, ce_buf = True, ce_alloc = True, ce_reads = full\<rparr>) = Some m"
proof -
  obtain hp reads where x: "take n full = hp # reads"
    using assms by (cases "take n full") (auto simp: ctrl_exchange_def Let_def split: if_splits)
  then have f: "full = hp # (reads @ drop n full)" using append_take_drop_id [of n full] by simp
  show ?thesis
    using assms x read_manifest_append [of _ _ _ reads _ "drop n full"]
    by (subst f) (auto simp: ctrl_exchange_def Let_def split: if_splits option.splits)
qed

lemma serves_honest:
  assumes "payload_ok src k" and "manifest_fits_client src k" and "200 \<le> cap"
    and "serves cap (server_of src k) env"
  shows "honest_ctrl src k env"
  unfolding honest_ctrl_def
proof (intro allI impI)
  fix rnd i req m assume m: "ctrl_exchange req (e_ctrl env rnd i) = Some m"
  let ?full = "case served cap src k (request_bytes req) of Some r \<Rightarrow> rp_ctrl r | None \<Rightarrow> []"
  have "?full = (case svu_serve_request (\<lambda>c. True) cap (server_of src k) 0 (Some (request_bytes req)) of
      Some (Inr (Some r)) \<Rightarrow> rp_ctrl r | _ \<Rightarrow> [])"
    by (simp add: served_def split: option.splits sum.splits)
  then obtain n where "ce_reads (e_ctrl env rnd i (request_bytes req)) = take n ?full"
    using assms(4) unfolding serves_def by metis
  from ctrl_exchange_prefix [OF m this]
  have x: "ctrl_exchange req (\<lambda>rb. \<lparr>ce_conn = True, ce_buf = True, ce_alloc = True, ce_reads = ?full\<rparr>) = Some m" .
  then have "?full \<noteq> []" by (auto simp: ctrl_exchange_def)
  then obtain r where r: "served cap src k (request_bytes req) = Some r" by (auto split: option.splits)
  obtain ps s where ps: "rp_ctrl r = resp_header (server_of src k) s # ps"
    "concat ps = sv_manifest (server_of src k)" "\<forall>p \<in> set ps. p \<noteq> [] \<and> length p \<le> 200"
    using served_ctrl [OF assms(1) manifest_fits_weaken [OF assms(2)] assms(3) r] by blast
  have "ctrl_exchange req (\<lambda>rb. \<lparr>ce_conn = True, ce_buf = True, ce_alloc = True, ce_reads = ?full\<rparr>) =
      Some (meta_of src k)"
    by (rule ctrl_of_response [OF assms(1,2) ps(2,3), of _ _ s]) (simp add: r ps(1))
  with x show "m = meta_of src k" by simp
qed

lemma linked_env_serves: "serves cap (server_of src k) (linked_env cap src k link)"
  unfolding serves_def
proof (intro allI)
  fix rnd i rb
  show "\<exists>n. ce_reads (e_ctrl (linked_env cap src k link) rnd i rb) =
      take n (case svu_serve_request (\<lambda>c. True) cap (server_of src k) 0 (Some rb) of
        Some (Inr (Some r)) \<Rightarrow> rp_ctrl r | _ \<Rightarrow> [])" (is "\<exists>n. ?reads = take n ?full")
  proof (intro exI)
    show "?reads = take (length ?full) ?full"
      by (simp add: linked_env_def served_def split: option.splits sum.splits)
  qed
qed

lemma linked_env_lossless:
  assumes "transfer_ok src k cap mtu" and "link rnd = (\<lambda>ps. ps)"
  shows "lossless src k bs mtu (linked_env cap src k link) rnd"
  unfolding lossless_def
proof (intro allI impI)
  fix cl assume "client_ok src k cl"
  then obtain r where "served cap src k (request_bytes (client_request bs mtu cl)) = Some r"
    "carries src (rp_data r) (\<lambda>i. i < length src \<and> wanted (client_request bs mtu cl) i)"
    using served_client_request [of src k cap mtu cl bs] manifest_fits_weaken assms(1)
    by (auto simp: transfer_ok_def)
  then show "carries src (e_data (linked_env cap src k link) rnd (request_bytes (client_request bs mtu cl)))
      (\<lambda>i. i < length src \<and> wanted (client_request bs mtu cl) i)"
    using assms(2) by (simp add: linked_env_def)
qed

section \<open>Properties\<close>

text \<open>
  Property C6. A transfer that reports success delivered the file. Take any network and any data
  packets (lost, damaged, forged, stale), an honest control channel, and a disk that stores what
  it is given: if the client returns 0, the file on the disk is the payload, or one of its blocks
  collides with the payload's block under SHA-256.
\<close>

theorem svu_client_sound:
  assumes "payload_ok src k" and "honest_ctrl src k env" and "\<forall>xs ys. e_disk env xs = Some ys \<longrightarrow> ys = xs"
    and "svu_client_run env bs mtu max_rounds = (0, Some file_bytes)"
  shows "file_bytes = src \<or>
    (\<exists>b < length (svu_blocks (unat k) src).
       svu_block (unat k) file_bytes b \<noteq> svu_block (unat k) src b \<and>
       sha256 (svu_block (unat k) file_bytes b) = sha256 (svu_block (unat k) src b))"
  using assms by (rule client_sound)

lemma example_transfer: "transfer_ok [1, 2, 3] 2 256 200"
  by (simp add: transfer_ok_def payload_ok_def manifest_fits_client_def ceil_div_def)

lemma example_link_run:
  "fair_env [1, 2, 3] 2 2 200 (linked_env 256 [1, 2, 3] 2 (\<lambda>rnd ps. ps))"
  "\<forall>r > 0. lossless [1, 2, 3] 2 2 200 (linked_env 256 [1, 2, 3] 2 (\<lambda>rnd ps. ps)) r"
  using linked_env_fair [OF example_transfer] linked_env_lossless [OF example_transfer] by simp_all

theorem svu_client_sound_witness:
  "\<exists>file_bytes. svu_client_run (linked_env 256 [1, 2, 3] 2 (\<lambda>rnd ps. ps)) 2 200 1 = (0, Some file_bytes) \<and>
    (file_bytes = [1, 2, 3] \<or> (\<exists>b < 2. sha256 (svu_block 2 file_bytes b) = sha256 (svu_block 2 [1, 2, 3] b)))"
proof -
  let ?env = "linked_env 256 [1, 2, 3] 2 (\<lambda>rnd ps. ps)"
  have ok: "payload_ok [1, 2, 3] 2" using example_transfer by (simp add: transfer_ok_def)
  have run: "svu_client_run ?env 2 200 1 = (0, Some [1, 2, 3])"
    by (rule client_completes [OF ok example_link_run(1) _ example_link_run(2)]) (simp_all add: linked_env_def)
  have "honest_ctrl [1, 2, 3] 2 ?env" using example_link_run(1) by (simp add: fair_env_def)
  from svu_client_sound [OF ok this _ run] run show ?thesis
    by (auto simp: linked_env_def)
qed

text \<open>
  Property C23. The transfer completes. Over a link that loses but does not damage packets, with an
  answering control channel, let the rounds after round \<open>d\<close> be lossless. If at least
  \<open>length src / 64\<close> rounds (rounded up) remain, the client returns 0 and the file is the payload:
  every lossless round fills the first 32 missing ranges, and there are never more than half as
  many ranges as bytes. With \<open>d = 0\<close> this is the transfer without loss, which takes one round.
\<close>

theorem svu_client_completes:
  assumes "payload_ok src k" and "fair_env src k bs mtu env" and "\<forall>xs. e_disk env xs = Some xs"
    and "\<forall>r > d. lossless src k bs mtu env r" and "d \<le> unat max_rounds"
    and "length src < 64 * (unat max_rounds - d) \<or> d = 0 \<and> 0 < unat max_rounds"
  shows "svu_client_run env bs mtu max_rounds = (0, Some src)"
  using client_completes [OF assms(1,2) _ assms(4-6)] assms(3) by blast

theorem svu_client_completes_witness:
  "svu_client_run (linked_env 256 [1, 2, 3] 2 (\<lambda>rnd ps. ps)) 2 200 5 = (0, Some [1, 2, 3])"
proof -
  have "payload_ok [1, 2, 3] 2" using example_transfer by (simp add: transfer_ok_def)
  from svu_client_completes [OF this example_link_run(1) _ example_link_run(2), of 5]
  show ?thesis by (simp add: linked_env_def)
qed

text \<open>The client against the server, over a link that may lose packets for some rounds.\<close>

lemma transfer_completes:
  assumes "transfer_ok src k cap mtu" and "\<forall>rnd ps. set (link rnd ps) \<subseteq> set ps"
    and "\<forall>rnd > d. link rnd = (\<lambda>ps. ps)" and "d \<le> unat max_rounds"
    and "length src < 64 * (unat max_rounds - d) \<or> d = 0 \<and> 0 < unat max_rounds"
  shows "svu_client_run (linked_env cap src k link) bs mtu max_rounds = (0, Some src)"
proof (rule client_completes)
  show "payload_ok src k" using assms(1) by (simp add: transfer_ok_def)
  show "fair_env src k bs mtu (linked_env cap src k link)" by (rule linked_env_fair [OF assms(1,2)])
  show "e_disk (linked_env cap src k link) src = Some src" by (simp add: linked_env_def)
  show "\<forall>r > d. lossless src k bs mtu (linked_env cap src k link) r"
    using linked_env_lossless [OF assms(1)] assms(3) by simp
qed (use assms(4,5) in simp_all)

text \<open>
  Property C2. Client and server together deliver the file over a lossy link. The link may drop,
  reorder and repeat the data packets of the first \<open>d\<close> rounds in any way; if the later rounds lose
  nothing and are enough for the file (it is shorter than \<open>64 * (max_rounds - d)\<close> bytes, or no round
  is lossy), \<open>svu_client_run\<close> against \<open>svu_serve_request\<close> returns 0 and writes exactly the bytes the
  server serves. The limits of \<open>transfer_ok\<close> hold: payload below 4 GiB with a block and with a packet
  buffer, manifest below 4 GiB, MTU above the header and within the buffer.
\<close>

theorem svu_transfer_end_to_end:
  assumes "transfer_ok src k cap mtu" and "\<forall>rnd ps. set (link rnd ps) \<subseteq> set ps"
    and "\<forall>rnd > d. link rnd = (\<lambda>ps. ps)" and "d \<le> unat max_rounds"
    and "length src < 64 * (unat max_rounds - d) \<or> d = 0 \<and> 0 < unat max_rounds"
  shows "svu_client_run (linked_env cap src k link) bs mtu max_rounds = (0, Some src)"
  using assms by (rule transfer_completes)

theorem svu_transfer_end_to_end_witness:
  "svu_client_run (linked_env 256 [1, 2, 3] 2 (\<lambda>rnd ps. if rnd = 1 then [] else ps)) 2 200 5 = (0, Some [1, 2, 3])"
  by (rule svu_transfer_end_to_end [OF example_transfer, of _ 1]) auto

text \<open>
  A short write is reported as success. The client ignores what \<open>fwrite\<close> and \<open>fclose\<close>
  return: whatever ends up on the disk once the file could be opened, a verified transfer returns
  0, so a full disk leaves a truncated file behind a success.
\<close>

theorem svu_client_ignores_short_write:
  assumes "transfer_ok src k cap mtu" and "0 < unat max_rounds"
  shows "svu_client_run (linked_env cap src k (\<lambda>rnd ps. ps)\<lparr>e_disk := (\<lambda>xs. Some (take n xs))\<rparr>) bs mtu max_rounds
    = (0, Some (take n src))"
proof (rule client_completes)
  let ?e = "linked_env cap src k (\<lambda>rnd ps. ps)"
  show "payload_ok src k" using assms(1) by (simp add: transfer_ok_def)
  have "fair_env src k bs mtu ?e" by (rule linked_env_fair [OF assms(1)]) simp
  then show "fair_env src k bs mtu (?e\<lparr>e_disk := (\<lambda>xs. Some (take n xs))\<rparr>)"
    by (simp add: fair_env_def honest_ctrl_def)
  have "lossless src k bs mtu ?e r" for r by (rule linked_env_lossless [OF assms(1)]) simp
  then show "\<forall>r > 0. lossless src k bs mtu (?e\<lparr>e_disk := (\<lambda>xs. Some (take n xs))\<rparr>) r"
    by (simp add: lossless_def)
qed (use assms(2) in simp_all)

theorem svu_client_ignores_short_write_witness:
  "svu_client_run (linked_env 256 [1, 2, 3] 2 (\<lambda>rnd ps. ps)\<lparr>e_disk := (\<lambda>xs. Some (take 1 xs))\<rparr>) 2 200 3
    = (0, Some [1])"
  using svu_client_ignores_short_write [OF example_transfer, of 3 1 2] by simp

text \<open>
  The client sizes the manifest in 32 bits: after a control exchange it holds
  \<open>32 * nblocks mod 2^32\<close> bytes. The receiver copies \<open>32 * nblocks\<close> bytes from it, so the copy stays
  inside the manifest only if the server's block count is below \<open>2^27\<close>.
\<close>

theorem svu_manifest_length_wraps:
  assumes "ctrl_exchange req net = Some m" and "\<forall>p \<in> set (ce_reads (net (request_bytes req))). length p < 65536"
    and "32 * unat (m_nblocks m) mod 2 ^ 32 + 65536 \<le> 2 ^ 32"
  shows "length (m_manifest m) = 32 * unat (m_nblocks m) mod 2 ^ 32 \<and>
    (32 * unat (m_nblocks m) \<le> length (m_manifest m) \<longleftrightarrow> unat (m_nblocks m) < 2 ^ 27)"
proof -
  let ?mb = "m_nblocks m * word_of_nat CI_SVU_HASH_LEN"
  obtain hp reads where r: "ce_reads (net (request_bytes req)) = hp # reads"
    "read_manifest ?mb 0 (replicate (unat ?mb) 0) reads = Some (m_manifest m)"
    using assms(1) by (auto simp: ctrl_exchange_def Let_def split: if_splits option.splits list.splits)
  have mb: "unat ?mb = 32 * unat (m_nblocks m) mod 2 ^ 32"
    by (simp add: unat_word_ariths CI_SVU_HASH_LEN_def mult.commute)
  have len: "length (m_manifest m) = 32 * unat (m_nblocks m) mod 2 ^ 32"
    using length_read_manifest [OF r(2)] assms(2,3) r(1) mb by simp
  moreover have "32 * unat (m_nblocks m) \<le> 32 * unat (m_nblocks m) mod 2 ^ 32 \<longleftrightarrow> unat (m_nblocks m) < 2 ^ 27"
  proof
    assume "32 * unat (m_nblocks m) \<le> 32 * unat (m_nblocks m) mod 2 ^ 32"
    moreover have "32 * unat (m_nblocks m) mod 2 ^ 32 < 2 ^ 32" by simp
    ultimately have "32 * unat (m_nblocks m) < 2 ^ 32" by linarith
    then show "unat (m_nblocks m) < 2 ^ 27" by simp
  qed simp
  ultimately show ?thesis by simp
qed

definition wide_header :: bytes where
  "wide_header = [0x53, 0x56, 0x55, 0x52, 1, 0, 0, 0, 0, 0, 0, 8, 1, 0, 0, 0, 0, 0, 0, 8]"

theorem svu_manifest_length_wraps_witness:
  "\<exists>m. ctrl_exchange example_req (\<lambda>rb. \<lparr>ce_conn = True, ce_buf = True, ce_alloc = True,
      ce_reads = [wide_header]\<rparr>) = Some m \<and> unat (m_nblocks m) = 2 ^ 27 \<and> length (m_manifest m) = 0"
proof -
  let ?net = "\<lambda>rb. \<lparr>ce_conn = True, ce_buf = True, ce_alloc = True, ce_reads = [wide_header]\<rparr>"
  have w: "svu_get32 wide_header 16 = 0x8000000" "svu_get32 wide_header 0 = SVU_MAGIC_RESP"
    by (simp_all add: wide_header_def svu_get32_def SVU_MAGIC_RESP_def)
  have "length wide_header = 20" by (simp add: wide_header_def)
  with w have "\<exists>m. ctrl_exchange example_req ?net = Some m \<and> m_nblocks m = 0x8000000"
    by (simp add: ctrl_exchange_def SVU_RESP_HDR_def CI_SVU_HASH_LEN_def Let_def)
  then obtain m where m: "ctrl_exchange example_req ?net = Some m" "m_nblocks m = 0x8000000" by blast
  from svu_manifest_length_wraps [OF m(1)] m \<open>length wide_header = 20\<close> show ?thesis by simp
qed

end
