(* ===== verification/SVU_Faults.thy ===== *)
theory SVU_Faults
  imports SVU_Transfer "HOL-Library.Sublist"
begin

text \<open>
  The uploader when its surroundings fail: the server (\<open>src/svu/svu_serve.c\<close>) when the buffer pool runs
  empty at any moment of an answer, and the client (\<open>src/svu/svu_session.c\<close>) when the server or the
  network sends arbitrary bytes, as long as the announced block count does not overflow the 32-bit
  size of the manifest.
\<close>

section \<open>The server without buffers\<close>

text \<open>
  The two sending loops of the server share a shape: while there is more, take a buffer from the
  pool, stop if there is none, and otherwise fill it (which may run out of bounds) and send it. The
  contract is the unfolding and the induction over the iterations of a run that ends.
\<close>

locale buffered_loop =
  fixes loop :: "(nat \<Rightarrow> bool) \<Rightarrow> u32 \<Rightarrow> nat \<Rightarrow> bytes list \<Rightarrow> (bytes list \<times> nat) run"
    and left :: "u32 \<Rightarrow> bool" and err :: "u32 \<Rightarrow> fault option"
    and pkt :: "u32 \<Rightarrow> bytes" and nxt :: "u32 \<Rightarrow> u32"
  assumes unfold_loop: "loop got off c sent =
      (if left off
       then if \<not> got c then Some (Inr (sent, c + 1))
            else case err off of Some e \<Rightarrow> Some (Inl e) | None \<Rightarrow> loop got (nxt off) (c + 1) (sent @ [pkt off])
       else Some (Inr (sent, c)))"
    and loop_induct: "\<And>P. loop got off c sent = Some y \<Longrightarrow>
      (\<And>off c sent. \<not> left off \<Longrightarrow> P off c sent (Inr (sent, c))) \<Longrightarrow>
      (\<And>off c sent. left off \<Longrightarrow> \<not> got c \<Longrightarrow> P off c sent (Inr (sent, c + 1))) \<Longrightarrow>
      (\<And>off c sent e. left off \<Longrightarrow> got c \<Longrightarrow> err off = Some e \<Longrightarrow> P off c sent (Inl e)) \<Longrightarrow>
      (\<And>off c sent y. left off \<Longrightarrow> got c \<Longrightarrow> err off = None \<Longrightarrow>
        P (nxt off) (c + 1) (sent @ [pkt off]) y \<Longrightarrow> P off c sent y) \<Longrightarrow>
      P off c sent y"
begin

text \<open>A loop that finds the pool empty has sent a prefix of what it sends with a pool that never is.\<close>

lemma loop_prefix:
  assumes "loop (\<lambda>c. True) off c sent = Some (Inr (full, c1))"
  shows "\<exists>pkts c2. loop got off c' sent = Some (Inr (pkts, c2)) \<and> prefix pkts full \<and> prefix sent pkts"
proof -
  have "\<forall>full c1 c'. y = Inr (full, c1) \<longrightarrow>
      (\<exists>pkts c2. loop got off c' sent = Some (Inr (pkts, c2)) \<and> prefix pkts full \<and> prefix sent pkts)"
    if "loop (\<lambda>c. True) off c sent = Some y" for y
  proof (rule loop_induct [OF that], goal_cases)
    case (1 off c sent)
    then show ?case by (simp add: unfold_loop [of got off])
  next
    case (4 off c sent y)
    show ?case
    proof (intro allI impI)
      fix full c1 c' assume "y = Inr (full, c1)"
      with 4(4) obtain pkts c2 where IH: "loop got (nxt off) (c' + 1) (sent @ [pkt off]) = Some (Inr (pkts, c2))"
        "prefix pkts full" "prefix (sent @ [pkt off]) pkts" by blast
      then have "prefix sent pkts" by (auto dest: append_prefixD)
      with IH 4(1,3) show "\<exists>pkts c2. loop got off c' sent = Some (Inr (pkts, c2)) \<and>
          prefix pkts full \<and> prefix sent pkts"
        by (cases "got c'") (auto simp: unfold_loop [of got off] intro: prefix_order.order_trans)
    qed
  qed simp_all
  from this [OF assms] show ?thesis by blast
qed

end

definition blast_len :: "u32 \<Rightarrow> u32 \<Rightarrow> u32 \<Rightarrow> nat" where
  "blast_len pay stop off = unat (if off + pay \<le> stop then pay else stop - off)"

definition send_fault :: "nat \<Rightarrow> nat \<Rightarrow> bytes \<Rightarrow> u32 \<Rightarrow> nat \<Rightarrow> fault option" where
  "send_fault cap hdr src off len =
     (if hdr + len > cap then Some Buffer_Overflow
      else if unat off + len > length src then Some Source_Overread else None)"

interpretation blast: buffered_loop "\<lambda>got off c sent. blast_loop got cap session pay src stop off c sent"
  "\<lambda>off. off < stop" "\<lambda>off. send_fault cap SVU_DATA_HDR src off (blast_len pay stop off)"
  "\<lambda>off. data_packet off session (seg (unat off) (unat off + blast_len pay stop off) src)" "\<lambda>off. off + pay"
  for cap session pay src stop
proof (unfold_locales, goal_cases)
  case (1 got off c sent)
  then show ?case by (subst blast_loop.simps) (simp add: send_fault_def blast_len_def Let_def)
next
  case (2 got off c sent y P)
  have "got0 = got \<and> cap0 = cap \<and> session0 = session \<and> pay0 = pay \<and> src0 = src \<and> stop0 = stop \<longrightarrow> P off0 c0 sent0 y0"
    if "blast_loop got0 cap0 session0 pay0 src0 stop0 off0 c0 sent0 = Some y0"
    for got0 cap0 session0 pay0 src0 stop0 off0 c0 sent0 y0
  proof (rule blast_loop.raw_induct [OF _ that], goal_cases)
    case (1 loop)
    then show ?case
      using 2(2-5) by (auto simp: send_fault_def blast_len_def Let_def split: if_split_asm)
  qed
  with 2(1) show ?case by blast
qed

interpretation manifest: buffered_loop "\<lambda>got off c sent. manifest_loop got cap mf nbytes off c sent"
  "\<lambda>off. off < nbytes" "\<lambda>off. send_fault cap 0 mf off (blast_len manifest_chunk nbytes off)"
  "\<lambda>off. seg (unat off) (unat off + blast_len manifest_chunk nbytes off) mf" "\<lambda>off. off + manifest_chunk"
  for cap mf nbytes
proof (unfold_locales, goal_cases)
  case (1 got off c sent)
  then show ?case by (subst manifest_loop.simps) (simp add: send_fault_def blast_len_def Let_def)
next
  case (2 got off c sent y P)
  have "got0 = got \<and> cap0 = cap \<and> mf0 = mf \<and> nbytes0 = nbytes \<longrightarrow> P off0 c0 sent0 y0"
    if "manifest_loop got0 cap0 mf0 nbytes0 off0 c0 sent0 = Some y0"
    for got0 cap0 mf0 nbytes0 off0 c0 sent0 y0
  proof (rule manifest_loop.raw_induct [OF _ that], goal_cases)
    case (1 loop)
    then show ?case
      using 2(2-5) by (auto simp: send_fault_def blast_len_def Let_def split: if_split_asm)
  qed
  with 2(1) show ?case by blast
qed

text \<open>A step of an answer that, with fewer buffers, still ends and sends part of the same packets.\<close>

definition degrades :: "(bytes list \<Rightarrow> bytes list \<Rightarrow> bool) \<Rightarrow> (bytes list \<times> nat) run \<Rightarrow> bytes list \<Rightarrow> bool" where
  "degrades part m full \<longleftrightarrow> (\<exists>pkts c. m = Some (Inr (pkts, c)) \<and> part pkts full)"

lemma blast_interval_degrades:
  assumes "blast_interval (\<lambda>c. True) cap session mtu src a b c = Some (Inr (full, c1))"
  shows "degrades prefix (blast_interval got cap session mtu src a b c') full"
proof -
  let ?pay = "if mtu > word_of_nat SVU_DATA_HDR then mtu - word_of_nat SVU_DATA_HDR else 1"
  show ?thesis
    using blast.loop_prefix [of cap session ?pay src b a c "[]" full c1 got c'] assms
    unfolding blast_interval_def Let_def degrades_def by blast
qed

lemma blast_ranges_degrades:
  assumes "blast_ranges (\<lambda>c. True) cap session mtu src total_size ivs c = Some (Inr (full, c1))"
  shows "degrades subseq (blast_ranges got cap session mtu src total_size ivs c') full"
  using assms
proof (induction ivs arbitrary: c c' full c1)
  case Nil
  then show ?case by (simp add: degrades_def)
next
  case (Cons iv ivs)
  let ?e = "if wi_end iv > total_size then total_size else wi_end iv"
  let ?one = "\<lambda>g c. if wi_start iv < ?e then blast_interval g cap session mtu src (wi_start iv) ?e c else Some (Inr ([], c))"
  obtain p1 d1 p2 where full: "?one (\<lambda>c. True) c = Some (Inr (p1, d1))" "full = p1 @ p2"
    "blast_ranges (\<lambda>c. True) cap session mtu src total_size ivs d1 = Some (Inr (p2, c1))"
    using Cons.prems by (auto simp: Let_def run_bind_def split: option.splits sum.splits)
  have "degrades prefix (?one got c') p1"
    using full(1) blast_interval_degrades [of cap session mtu src "wi_start iv" ?e c p1 d1 got c']
    by (auto simp: degrades_def split: if_splits)
  then obtain q1 e1 where q1: "?one got c' = Some (Inr (q1, e1))" "prefix q1 p1" by (auto simp: degrades_def)
  obtain q2 e2 where q2: "blast_ranges got cap session mtu src total_size ivs e1 = Some (Inr (q2, e2))" "subseq q2 p2"
    using Cons.IH [OF full(3), of e1] by (auto simp: degrades_def)
  have "subseq (q1 @ q2) (p1 @ p2)" by (rule list_emb_append_mono [OF prefix_imp_subseq [OF q1(2)] q2(2)])
  then show ?case using q1(1) q2(1) full(2) by (simp add: degrades_def Let_def)
qed

lemma send_response_degrades:
  assumes "send_response (\<lambda>c. True) cap sv session c = Some (Inr (full, c1))"
  shows "degrades prefix (send_response got cap sv session c') full"
proof -
  let ?n = "sv_nblocks sv * word_of_nat CI_SVU_HASH_LEN"
  obtain ps d where full: "manifest_loop (\<lambda>c. True) cap (sv_manifest sv) ?n 0 (c + 1) [] = Some (Inr (ps, d))"
    "full = resp_header sv session # ps" "\<not> SVU_RESP_HDR > cap"
    using assms by (auto simp: send_response_def send_manifest_def run_bind_def split: if_splits option.splits sum.splits)
  obtain qs e where "manifest_loop got cap (sv_manifest sv) ?n 0 (c' + 1) [] = Some (Inr (qs, e))" "prefix qs ps"
    using manifest.loop_prefix [OF full(1), of got "c' + 1"] by blast
  then show ?thesis
    using full(2,3) by (cases "got c'") (simp_all add: degrades_def send_response_def send_manifest_def)
qed

text \<open>
  Property C16. An exhausted buffer pool never corrupts an answer. Whatever buffers are missing, the
  server's handler ends without a fault if it does so with all of them; the packets on the control
  connection are a prefix of the complete answer (so a client that lacks some sees a manifest that is too short, never a
  wrong one), and the data packets are among those of the complete answer, in the same order.
\<close>

theorem svu_server_degrades:
  assumes "svu_serve_request (\<lambda>c. True) cap sv client pkt = Some (Inr (Some rp))"
  shows "\<exists>rp'. svu_serve_request got cap sv client pkt = Some (Inr (Some rp')) \<and> rp_client rp' = rp_client rp \<and>
    prefix (rp_ctrl rp') (rp_ctrl rp) \<and> subseq (rp_data rp') (rp_data rp)"
proof -
  obtain data req where req: "pkt = Some data" "svu_req_decode (Some data) = Some req"
    using assms by (auto simp: svu_serve_request_def split: option.splits)
  define mtu where "mtu = (if q_mtu req > word_of_nat SVU_DATA_HDR then q_mtu req else 256)"
  define bulk where "bulk g c = (if q_nof_intervals req = 0
      then blast_interval g cap (q_session_id req) mtu (sv_src sv) 0 (sv_total sv) c
      else blast_ranges g cap (q_session_id req) mtu (sv_src sv) (sv_total sv)
             (take (unat (q_nof_intervals req)) (q_intervals req)) c)" for g c
  have eq: "svu_serve_request g cap sv client pkt = run_bind (send_response g cap sv (q_session_id req) 0)
      (\<lambda>(ctrl, c). run_bind (bulk g c) (\<lambda>(ps, c). Some (Inr (Some \<lparr>rp_ctrl = ctrl, rp_client = client, rp_data = ps\<rparr>))))" for g
    unfolding bulk_def mtu_def by (simp add: svu_serve_request_def req Let_def)
  obtain ctrl c ps d where full: "send_response (\<lambda>c. True) cap sv (q_session_id req) 0 = Some (Inr (ctrl, c))"
    "bulk (\<lambda>c. True) c = Some (Inr (ps, d))" "rp = \<lparr>rp_ctrl = ctrl, rp_client = client, rp_data = ps\<rparr>"
    using assms by (auto simp: eq run_bind_def split: option.splits sum.splits)
  have sub: "degrades subseq (bulk got c') ps" for c'
  proof (cases "q_nof_intervals req = 0")
    case True
    then have "degrades prefix (bulk got c') ps" using full(2) by (simp add: bulk_def blast_interval_degrades)
    then show ?thesis by (auto simp: degrades_def intro: prefix_imp_subseq)
  next
    case False
    then show ?thesis using full(2) by (simp add: bulk_def blast_ranges_degrades)
  qed
  obtain ctrl' c' where "send_response got cap sv (q_session_id req) 0 = Some (Inr (ctrl', c'))" "prefix ctrl' ctrl"
    using send_response_degrades [OF full(1), of got 0] by (auto simp: degrades_def)
  moreover obtain ps' d' where "bulk got c' = Some (Inr (ps', d'))" "subseq ps' ps"
    using sub [of c'] by (auto simp: degrades_def)
  ultimately show ?thesis using full(3) by (simp add: eq)
qed

theorem svu_server_degrades_witness:
  "\<exists>rp rp'. svu_serve_request (\<lambda>c. True) 256 (server_of [1, 2, 3] 2) 7 (Some example_req_bytes) = Some (Inr (Some rp)) \<and>
    svu_serve_request (\<lambda>c. c \<noteq> 1) 256 (server_of [1, 2, 3] 2) 7 (Some example_req_bytes) = Some (Inr (Some rp')) \<and>
    prefix (rp_ctrl rp') (rp_ctrl rp) \<and> subseq (rp_data rp') (rp_data rp)"
proof -
  obtain r where r: "svu_req_decode (Some example_req_bytes) = Some r" "q_nof_intervals r = 0" "q_mtu r = 200"
    using example_req_decode by blast
  have "unat (effective_mtu r) \<le> 256" using r(3) by (simp add: effective_mtu_def)
  then obtain rp where rp: "svu_serve_request (\<lambda>c. True) 256 (server_of [1, 2, 3] 2) 7 (Some example_req_bytes) = Some (Inr (Some rp))"
    using serve_request_ok [OF example_payload r(1), of "\<lambda>c. True" 256 7] by auto
  from svu_server_degrades [OF rp, of "\<lambda>c. c \<noteq> 1"] rp show ?thesis by blast
qed

section \<open>The client against misbehaving peers\<close>

text \<open>
  The typing of the client's state: the range array has its 32 entries, at most so many are in use,
  and the receiver, once there is one, has buffers of the announced size. Every index that the
  client, the receiver or the request encoder uses is below one of these lengths.
\<close>

definition client_typed :: "svu_client \<Rightarrow> bool" where
  "client_typed cl \<longleftrightarrow> length (k_ivs cl) = SVU_MAX_INTERVALS \<and> unat (k_nreq cl) \<le> SVU_MAX_INTERVALS \<and>
     (case k_recv cl of None \<Rightarrow> True | Some s \<Rightarrow> svu_wf s \<and> v_total s = k_total cl)"

text \<open>
  Packets of a CSP connection are shorter than 64 KiB, and the announced block count is at most
  \<open>2^27 - 2048\<close>. The second condition is a real restriction on the peer, which the code does not
  check: from \<open>2^27\<close> blocks on the 32-bit size of the manifest wraps and the client reads beyond the
  manifest it allocated (\<open>svu_manifest_length_wraps\<close> in \<open>SVU_Transfer\<close>).
\<close>

definition sized_peer :: "svu_env \<Rightarrow> bool" where
  "sized_peer env \<longleftrightarrow> (\<forall>rnd i b. (\<forall>p \<in> set (ce_reads (e_ctrl env rnd i b)). length p < 65536) \<and>
     (\<forall>hp reads. ce_reads (e_ctrl env rnd i b) = hp # reads \<longrightarrow> 32 * unat (svu_get32 hp 16) + 65536 \<le> 2 ^ 32))"

lemma exchange_manifest:
  assumes "sized_peer env" and "ctrl_exchange req (e_ctrl env rnd i) = Some m"
  shows "length (m_manifest m) = 32 * unat (m_nblocks m)"
proof -
  let ?io = "e_ctrl env rnd i (request_bytes req)"
  obtain hp reads mf where x: "ce_reads ?io = hp # reads"
    "read_manifest (svu_get32 hp 16 * 32) 0 (replicate (unat (svu_get32 hp 16 * 32)) 0) reads = Some mf"
    "m_manifest m = mf" "m_nblocks m = svu_get32 hp 16"
    using assms(2)
    by (auto simp: ctrl_exchange_def Let_def CI_SVU_HASH_LEN_def split: if_splits list.splits option.splits)
  have "(\<forall>p \<in> set (ce_reads ?io). length p < 65536) \<and>
      (\<forall>hp reads. ce_reads ?io = hp # reads \<longrightarrow> 32 * unat (svu_get32 hp 16) + 65536 \<le> 2 ^ 32)"
    using assms(1) unfolding sized_peer_def by blast
  then have r: "\<forall>p \<in> set reads. length p < 65536" "32 * unat (svu_get32 hp 16) + 65536 \<le> 2 ^ 32"
    using x(1) by auto
  have u: "unat (svu_get32 hp 16 * 32) = 32 * unat (svu_get32 hp 16)"
    using r(2) by (simp add: unat_word_ariths mult.commute)
  show ?thesis using length_read_manifest [OF x(2) r(1)] r(2) u x(3,4) by simp
qed

lemma attempts_exchange:
  "ctrl_attempts n i req net = Some m \<Longrightarrow> \<exists>j. ctrl_exchange req (net j) = Some m"
  by (induction n arbitrary: i) (auto split: option.splits)

lemma client_open_typed:
  assumes "client_typed cl" and "length (m_manifest m) = 32 * unat (m_nblocks m)"
  shows "client_typed (client_open new_ok m cl)"
  using assms svu_new_wf [of new_ok "m_total m" "m_block m" "m_manifest m" "m_nblocks m"]
  by (auto simp: client_typed_def client_open_def split: option.splits)

lemma client_verify_typed:
  assumes "client_typed cl" and "k_recv cl \<noteq> None"
  shows "client_typed (client_verify pkts cl)"
proof -
  obtain s where s: "k_recv cl = Some s" "svu_wf s" "v_total s = k_total cl"
    using assms by (auto simp: client_typed_def)
  let ?frs = "map fragment_of (filter (\<lambda>p. 8 < length p) pkts)"
  define s1 where "s1 = foldl (\<lambda>s (off, buf). svu_accept s off buf) s ?frs"
  have d: "drain_data pkts (k_recv cl) = Some s1" by (simp add: s(1) drain_data_deliver deliver_Some s1_def)
  have w: "svu_wf s1" "v_total s1 = k_total cl"
    using svu.run_wf [OF s(2), of ?frs] s(3) by (simp_all add: s1_def word_unat_eq_iff)
  obtain st ivs nout where v: "ci_svu_verify (Some s1) (Some (k_ivs cl)) (word_of_nat SVU_MAX_INTERVALS) = (st, Some ivs, nout)"
    "length ivs = 32"
    using length_verify_out [OF w(1), of "k_ivs cl"] assms(1) by (auto simp: client_typed_def SVU_MAX_INTERVALS_def)
  show ?thesis
    using w v assms(1)
    by (auto simp: client_typed_def client_verify_def d Let_def SVU_MAX_INTERVALS_def word_less_nat_alt)
qed

lemma client_rounds_typed:
  assumes "sized_peer env" and "client_typed cl" and "client_rounds env bs mtu n rnd cl = Some cl'"
  shows "client_typed cl'"
  using assms(2,3)
proof (induction n arbitrary: rnd cl)
  case (Suc n)
  obtain cl1 where r: "client_round env bs mtu (rnd + 1) cl = Some cl1"
    using Suc.prems(2) by (auto split: option.splits)
  then obtain m where m: "ctrl_attempts 8 0 (client_request bs mtu cl) (e_ctrl env (rnd + 1)) = Some m"
    "k_recv (client_open (e_new_ok env) m cl) \<noteq> None"
    "cl1 = client_verify (e_data env (rnd + 1) (request_bytes (client_request bs mtu cl))) (client_open (e_new_ok env) m cl)"
    by (auto simp: client_round_def Let_def split: option.splits if_splits)
  obtain j where "ctrl_exchange (client_request bs mtu cl) (e_ctrl env (rnd + 1) j) = Some m"
    using attempts_exchange [OF m(1)] by blast
  then have "client_typed cl1"
    unfolding m(3) by (intro client_verify_typed client_open_typed Suc.prems m exchange_manifest [OF assms(1)])
  then show ?case using Suc r by (auto split: if_splits)
qed simp

lemma client_typed_init: "client_typed svu_client_init"
  by (simp add: client_typed_def svu_client_init_def)

text \<open>
  Property C15. The client's state stays well-typed against a peer that announces at most
  \<open>2^27 - 2048\<close> blocks in packets of less than 64 KiB (\<open>sized_peer\<close>); what it answers is otherwise
  arbitrary, and so is what arrives on the data port. After any number of rounds the range array has
  its 32 entries and at most so many are in use, and the receiver's data, coverage and manifest
  buffers have the sizes that its fields announce; so the next request fits its buffer and is read
  back as it was meant, and the bytes that a success writes are exactly the announced number. For a
  peer that announces \<open>2^27\<close> blocks or more this is false: the size of the manifest wraps and the
  receiver is made from a manifest that is too short (\<open>svu_manifest_length_wraps\<close>).
\<close>

theorem svu_client_typed:
  assumes "sized_peer env" and "client_rounds env bs mtu n 0 svu_client_init = Some cl"
  shows "client_typed cl \<and>
    svu_req_decode (Some (request_bytes (client_request bs mtu cl))) = Some (client_request bs mtu cl) \<and>
    (k_recv cl \<noteq> None \<longrightarrow> length (take (unat (k_total cl)) (the (ci_svu_data (k_recv cl)))) = unat (k_total cl))"
proof -
  have t: "client_typed cl" using client_rounds_typed [OF assms(1) client_typed_init assms(2)] .
  then have "length (take (unat (k_total cl)) (the (ci_svu_data (k_recv cl)))) = unat (k_total cl)"
    if "k_recv cl \<noteq> None"
    using that by (auto simp: client_typed_def ci_svu_data_def svu_wf_def)
  with t show ?thesis by (simp add: client_typed_def request_decodes SVU_MAX_INTERVALS_def)
qed

text \<open>A peer that announces four bytes in two blocks with a manifest of zeros, and data beyond the end.\<close>

definition rogue_env :: svu_env where
  "rogue_env = \<lparr>e_ctrl = (\<lambda>rnd i b. \<lparr>ce_conn = True, ce_buf = True, ce_alloc = True,
       ce_reads = [[0x53, 0x56, 0x55, 0x52, 0, 0, 0, 1, 4, 0, 0, 0, 2, 0, 0, 0, 2, 0, 0, 0], replicate 64 0]\<rparr>),
     e_data = (\<lambda>rnd b. [[9, 0, 0, 0, 0, 0, 0, 0, 7, 7], [1, 0, 0, 0, 0, 0, 0, 0, 9]]),
     e_new_ok = True, e_disk = Some\<rparr>"

theorem svu_client_typed_witness:
  "\<exists>cl. client_rounds rogue_env 4096 256 1 0 svu_client_init = Some cl \<and> client_typed cl \<and> k_nreq cl = 2 \<and>
    svu_req_decode (Some (request_bytes (client_request 4096 256 cl))) = Some (client_request 4096 256 cl)"
proof -
  have p: "sized_peer rogue_env" by (simp add: sized_peer_def rogue_env_def svu_get32_def)
  have "map_option k_nreq (client_rounds rogue_env 4096 256 1 0 svu_client_init) = Some 2" by code_simp
  then obtain cl where c: "client_rounds rogue_env 4096 256 1 0 svu_client_init = Some cl" "k_nreq cl = 2" by blast
  from svu_client_typed [OF p c(1)] c show ?thesis by blast
qed

end
