(* ===== verification/SVU_Net.thy ===== *)
theory SVU_Net
  imports CI_Csp
begin

text \<open>
  The network bring-up of the uploader programs (\<open>src/svu/svu_net.c\<close>) and its packet tracing
  (\<open>src/svu/svu_debug.c\<close>). What libcsp and the thread library return is a parameter; the calls made
  are recorded in order.
\<close>

section \<open>Bring-up\<close>

datatype net_call =
    Csp_Init
  | Bind_Services
  | Open_Can string u16 int
  | Open_Zmq u16 string string
  | Set_Default
  | Attr_Init
  | Create_Router
  | Attr_Destroy

text \<open>
  \<open>nl_open\<close> is the error code and whether an interface was returned, \<open>nl_attr\<close> and \<open>nl_create\<close> are the
  results of \<open>pthread_attr_init\<close> and \<open>pthread_create\<close>.
\<close>

record net_lib =
  nl_open :: "int \<times> bool"
  nl_attr :: int
  nl_create :: int

definition start_router :: "net_lib \<Rightarrow> int \<times> net_call list" where
  "start_router nl =
     (if nl_attr nl \<noteq> 0 then (- 1, [Set_Default, Attr_Init])
      else (if nl_create nl \<noteq> 0 then - 1 else 0, [Set_Default, Attr_Init, Create_Router, Attr_Destroy]))"

definition bring_up :: "net_lib \<Rightarrow> net_call \<Rightarrow> int \<times> net_call list" where
  "bring_up nl opening =
     (let pre = [Csp_Init, Bind_Services, opening]
      in if fst (nl_open nl) \<noteq> 0 \<or> \<not> snd (nl_open nl) then (- 1, pre)
         else (let (rc, calls) = start_router nl in (rc, pre @ calls)))"

definition svu_net_init :: "net_lib \<Rightarrow> string \<Rightarrow> u16 \<Rightarrow> int \<Rightarrow> int \<times> net_call list" where
  "svu_net_init nl can_dev addr bitrate =
     (let br = (if bitrate > 0 then bitrate else 0) in bring_up nl (Open_Can can_dev addr br))"

text \<open>\<open>snprintf\<close> into a buffer of 64 characters.\<close>

definition zmq_endpoint :: "string \<Rightarrow> string \<Rightarrow> string" where
  "zmq_endpoint host port = take 63 (''tcp://'' @ host @ '':'' @ port)"

definition svu_net_init_zmq :: "net_lib \<Rightarrow> string \<Rightarrow> u16 \<Rightarrow> int \<times> net_call list" where
  "svu_net_init_zmq nl host addr =
     bring_up nl (Open_Zmq addr (zmq_endpoint host ''6000'') (zmq_endpoint host ''7000''))"

text \<open>
  The endpoints name the broker's two ports for host names of at most 52 characters. A longer name
  pushes the ends of the two port numbers out of the buffer, and from 56 characters on both endpoints
  are the same string, so the node would publish and subscribe at one place.
\<close>

theorem zmq_endpoints_fit:
  "zmq_endpoint host ''6000'' = ''tcp://'' @ host @ '':6000'' \<longleftrightarrow> length host \<le> 52"
proof
  assume "zmq_endpoint host ''6000'' = ''tcp://'' @ host @ '':6000''"
  then have "length (zmq_endpoint host ''6000'') = length (''tcp://'' @ host @ '':6000'')" by (simp only:)
  then show "length host \<le> 52" by (simp add: zmq_endpoint_def)
qed (simp add: zmq_endpoint_def)

theorem zmq_endpoints_collide:
  assumes "56 \<le> length host"
  shows "zmq_endpoint host ''6000'' = zmq_endpoint host ''7000''"
proof -
  have "57 - length host = 0 \<or> 57 - length host = 1" using assms by linarith
  then show ?thesis by (elim disjE) (simp_all add: zmq_endpoint_def)
qed

text \<open>
  The router thread is started only with the interface open and marked as the default, the start
  succeeds exactly when all three library calls do, and a bit rate that is not positive never
  reaches the driver.
\<close>

lemma bring_up_ok:
  "fst (bring_up nl opening) = 0 \<longleftrightarrow> nl_open nl = (0, True) \<and> nl_attr nl = 0 \<and> nl_create nl = 0"
  by (cases "nl_open nl") (auto simp: bring_up_def start_router_def Let_def)

lemma bring_up_router:
  assumes "Create_Router \<in> set (snd (bring_up nl opening))" and "opening \<noteq> Create_Router"
  shows "nl_open nl = (0, True) \<and>
    snd (bring_up nl opening) = [Csp_Init, Bind_Services, opening, Set_Default, Attr_Init, Create_Router, Attr_Destroy]"
  using assms by (cases "nl_open nl") (simp add: bring_up_def start_router_def Let_def split: if_split_asm)

lemma net_init_bitrate:
  "bitrate \<le> 0 \<Longrightarrow> snd (svu_net_init nl dev addr bitrate) ! 2 = Open_Can dev addr 0"
  by (simp add: svu_net_init_def bring_up_def case_prod_beta Let_def)

section \<open>Packet tracing\<close>

text \<open>The cached setting (-1 before the first packet) and the value of \<open>SVU_DEBUG\<close> when it is read.\<close>

definition svu_dbg_on :: "string option \<Rightarrow> int \<Rightarrow> int \<times> int" where
  "svu_dbg_on env v =
     (let v = (if v < 0 then (case env of Some (c # cs) \<Rightarrow> 1 | _ \<Rightarrow> 0) else v) in (v, v))"

record csp_id =
  id_dst :: u16
  id_src :: u16
  id_dport :: u8
  id_sport :: u8

definition trace_line :: "string \<Rightarrow> string option \<Rightarrow> csp_id \<Rightarrow> u16 \<Rightarrow> string" where
  "trace_line dir ifname i len =
     ''['' @ dir @ ''] if='' @ (case ifname of Some n \<Rightarrow> n | None \<Rightarrow> ''?'') @
     '' dst='' @ show_dec (unat (id_dst i)) @ '' src='' @ show_dec (unat (id_src i)) @
     '' dport='' @ show_dec (unat (id_dport i)) @ '' sport='' @ show_dec (unat (id_sport i)) @
     '' len='' @ show_dec (unat len) @ [CHR 0x0A]"

definition csp_input_hook ::
  "string option \<Rightarrow> string option \<Rightarrow> csp_id \<Rightarrow> u16 \<Rightarrow> int \<Rightarrow> string list \<times> int" where
  "csp_input_hook env ifname i len v =
     (let (on, v) = svu_dbg_on env v in (if on \<noteq> 0 then [trace_line ''RX'' ifname i len] else [], v))"

definition csp_output_hook ::
  "string option \<Rightarrow> string option \<Rightarrow> csp_id \<Rightarrow> u16 \<Rightarrow> int \<Rightarrow> string list \<times> int" where
  "csp_output_hook env ifname i len v =
     (let (on, v) = svu_dbg_on env v in (if on \<noteq> 0 then [trace_line ''TX'' ifname i len] else [], v))"

text \<open>The environment is read at the first packet only: later changes of it do not matter.\<close>

lemma trace_setting_sticks:
  assumes "csp_output_hook env ifname i len v = (out, v')"
  shows "csp_input_hook env' ifname' i' len' v' =
    (if v' = 0 then [] else [trace_line ''RX'' ifname' i' len'], v')"
  using assms
  by (cases "v < 0"; cases env; cases "the env")
    (auto simp: csp_output_hook_def csp_input_hook_def svu_dbg_on_def Let_def)

end
