(* ===== verification/SVU_Push.thy ===== *)
theory SVU_Push
  imports SVU_Transfer SVU_Net CI_Libc
begin

text \<open>
  The programs around the uploader: the push daemon (\<open>src/svu/svu_daemon.c\<close>), the command \<open>svu\<close> as a
  program (\<open>src/svu/svu_push.c\<close>) and as a shell command (\<open>src/svu/svu_apm.c\<close>), and the plain client and
  server programs (\<open>src/svu/svu_client.c\<close>, \<open>src/svu/svu_server.c\<close>).

  Parameters (record \<open>push_env\<close>): the files, \<open>stat\<close>, whether the network, the threads, the connection
  and a packet buffer are available, and what the far node answers to an announcement. The option
  parser and the host table of the shell are parameters of the shell command. A path is given to
  the other node as the codes of its characters.
\<close>

definition str_bytes :: "string \<Rightarrow> bytes" where
  "str_bytes s = map of_char s"

section \<open>The daemon\<close>

text \<open>
  What one push does: the path and the mode that were decoded, the result of the transfer with the
  file on the disk, the mode given to \<open>chmod\<close>, and the reply if a buffer was available. The
  environment of the transfer depends on the path, where the file is opened.
\<close>

record daemon_result =
  dd_path :: bytes
  dd_rc :: int
  dd_file :: "bytes option"
  dd_chmod :: "u32 option"
  dd_reply :: "bytes option"

definition svu_daemon_push :: "(bytes \<Rightarrow> svu_env) \<Rightarrow> bool \<Rightarrow> bytes \<Rightarrow> daemon_result" where
  "svu_daemon_push env got_buf pkt =
     (let (mode, path) = svu_announce_decode pkt 256;
          (rc, fb) = svu_client_run (env path) 4096 256 500
      in \<lparr>dd_path = path, dd_rc = rc, dd_file = fb,
          dd_chmod = (if rc = 0 \<and> mode \<noteq> 0 then Some mode else None),
          dd_reply = (if got_buf then Some [if rc = 0 then 0 else 1] else None)\<rparr>)"

text \<open>The accept loop: a timeout and a connection without a packet are skipped.\<close>

datatype daemon_event = D_Timeout | D_No_Packet | D_Push bytes "bytes \<Rightarrow> svu_env" bool

fun svu_daemon_loop :: "daemon_event list \<Rightarrow> daemon_result list" where
  "svu_daemon_loop [] = []"
| "svu_daemon_loop (D_Timeout # es) = svu_daemon_loop es"
| "svu_daemon_loop (D_No_Packet # es) = svu_daemon_loop es"
| "svu_daemon_loop (D_Push pkt env got_buf # es) = svu_daemon_push env got_buf pkt # svu_daemon_loop es"

record daemon_opts =
  go_can_dev :: string
  go_zmq_host :: "string option"
  go_addr :: u16
  go_bitrate :: int

definition daemon_defaults :: daemon_opts where
  "daemon_defaults = \<lparr>go_can_dev = ''can0'', go_zmq_host = None, go_addr = 30, go_bitrate = 0\<rparr>"

definition daemon_opt :: "char \<Rightarrow> string option \<Rightarrow> daemon_opts \<Rightarrow> int + daemon_opts" where
  "daemon_opt c optarg go =
     (let arg = (case optarg of Some s \<Rightarrow> s | None \<Rightarrow> []) in
      if c = CHR ''c'' then Inr (go\<lparr>go_can_dev := arg\<rparr>)
      else if c = CHR ''z'' then Inr (go\<lparr>go_zmq_host := optarg\<rparr>)
      else if c = CHR ''a'' then Inr (go\<lparr>go_addr := word_of_int (atoi arg)\<rparr>)
      else if c = CHR ''B'' then Inr (go\<lparr>go_bitrate := atoi arg\<rparr>)
      else Inl (if c = CHR ''h'' then 0 else 1))"

fun daemon_getopt_loop :: "(char \<times> string option) list \<Rightarrow> daemon_opts \<Rightarrow> int + daemon_opts" where
  "daemon_getopt_loop [] go = Inr go"
| "daemon_getopt_loop ((c, a) # os) go =
     (case daemon_opt c a go of Inl e \<Rightarrow> Inl e | Inr go' \<Rightarrow> daemon_getopt_loop os go')"

text \<open>\<open>Inl\<close> is an exit before listening, \<open>Inr\<close> what the loop does with the events up to some moment.\<close>

definition svu_daemon_main ::
  "net_lib \<Rightarrow> bool \<Rightarrow> daemon_event list \<Rightarrow> string list \<Rightarrow> int + daemon_result list" where
  "svu_daemon_main nl bind_ok es args =
     (case daemon_getopt_loop (getopt ''c:z:a:B:h'' args) daemon_defaults of
        Inl e \<Rightarrow> Inl e
      | Inr go \<Rightarrow>
          (let net_err = (case go_zmq_host go of
                  Some host \<Rightarrow> fst (svu_net_init_zmq nl host (go_addr go))
                | None \<Rightarrow> fst (svu_net_init nl (go_can_dev go) (go_addr go) (go_bitrate go)))
           in if net_err \<noteq> 0 then Inl 1
              else if \<not> bind_ok then Inl 1
              else Inr (svu_daemon_loop es)))"

section \<open>The push program\<close>

record push_opts =
  po_can_dev :: string
  po_zmq_host :: "string option"
  po_my_addr :: u16
  po_bitrate :: int
  po_block :: u32
  po_preserve :: bool

definition push_defaults :: push_opts where
  "push_defaults = \<lparr>po_can_dev = ''can0'', po_zmq_host = None, po_my_addr = 31, po_bitrate = 0,
     po_block = 4096, po_preserve = False\<rparr>"

text \<open>\<open>Inl\<close> is the exit status after the usage text. All options but \<open>p\<close> and \<open>h\<close> have an argument.\<close>

definition push_opt :: "char \<Rightarrow> string option \<Rightarrow> push_opts \<Rightarrow> int + push_opts" where
  "push_opt c optarg po =
     (let arg = (case optarg of Some s \<Rightarrow> s | None \<Rightarrow> []) in
      if c = CHR ''c'' then Inr (po\<lparr>po_can_dev := arg\<rparr>)
      else if c = CHR ''z'' then Inr (po\<lparr>po_zmq_host := optarg\<rparr>)
      else if c = CHR ''a'' then Inr (po\<lparr>po_my_addr := word_of_int (atoi arg)\<rparr>)
      else if c = CHR ''b'' then Inr (po\<lparr>po_block := ucast (strtoul arg)\<rparr>)
      else if c = CHR ''B'' then Inr (po\<lparr>po_bitrate := atoi arg\<rparr>)
      else if c = CHR ''p'' then Inr (po\<lparr>po_preserve := True\<rparr>)
      else Inl (if c = CHR ''h'' then 0 else 1))"

fun push_getopt_loop :: "(char \<times> string option) list \<Rightarrow> push_opts \<Rightarrow> int + push_opts" where
  "push_getopt_loop [] po = Inr po"
| "push_getopt_loop ((c, a) # os) po =
     (case push_opt c a po of Inl e \<Rightarrow> Inl e | Inr po' \<Rightarrow> push_getopt_loop os po')"

text \<open>The target \<open>node:path\<close>; \<open>None\<close> for the three complaints, which all exit with status 1.\<close>

definition push_target :: "string \<Rightarrow> (u16 \<times> string) option" where
  "push_target target =
     (let nodebuf = takeWhile (\<lambda>c. c \<noteq> CHR '':'') target
      in if CHR '':'' \<notin> set target then None
         else if length nodebuf = 0 \<or> length nodebuf \<ge> 16 then None
         else let destpath = drop (Suc (length nodebuf)) target
              in if destpath = [] then None else Some (word_of_int (atoi nodebuf), destpath))"

record push_env =
  pv_file :: "string \<Rightarrow> file_io"
  pv_stat :: "string \<Rightarrow> u32 option"
  pv_net_ok :: bool
  pv_thread_ok :: bool
  pv_connect_ok :: bool
  pv_data :: "bytes option"
  pv_peer :: "u16 \<Rightarrow> bytes \<Rightarrow> bytes option"

definition push_mode :: "push_env \<Rightarrow> bool \<Rightarrow> string \<Rightarrow> u32" where
  "push_mode pv preserve srcfile =
     (if preserve then (case pv_stat pv srcfile of Some m \<Rightarrow> m AND 0xFFF | None \<Rightarrow> 0) else 0)"

text \<open>The announcement in a packet buffer, cut to its length.\<close>

definition push_announce :: "u32 \<Rightarrow> string \<Rightarrow> bytes \<Rightarrow> bytes" where
  "push_announce mode destpath data =
     (let (n, buf) = svu_announce_encode mode (str_bytes destpath) (take 250 data) in take n buf)"

definition push_verdict :: "bytes option \<Rightarrow> bool" where
  "push_verdict rp = (case rp of Some (b # rest) \<Rightarrow> b = 0 | _ \<Rightarrow> False)"

text \<open>The exit status with the file that was served (bytes, size, block size) and what was announced.\<close>

record push_result =
  pr_exit :: int
  pr_served :: "(bytes \<times> u32 \<times> u32) option"
  pr_announced :: "(u16 \<times> bytes) option"

definition svu_push_main :: "push_env \<Rightarrow> string list \<Rightarrow> push_result" where
  "svu_push_main pv args =
     (let quit = (\<lambda>e. \<lparr>pr_exit = e, pr_served = None, pr_announced = None\<rparr>);
          so = ''c:z:a:b:B:ph''
      in case push_getopt_loop (getopt so args) push_defaults of
           Inl e \<Rightarrow> quit e
         | Inr po \<Rightarrow>
             (case getopt_rest so args of
                srcfile # target # extra \<Rightarrow>
                  (case push_target target of
                     None \<Rightarrow> quit 1
                   | Some (node, destpath) \<Rightarrow>
                       (case svu_load_file (pv_file pv srcfile) of
                          None \<Rightarrow> quit 1
                        | Some (src, total_size) \<Rightarrow>
                            if total_size = 0 then quit 1
                            else
                              (let mode = push_mode pv (po_preserve po) srcfile;
                                   sv = Some (src, total_size, po_block po)
                               in if \<not> pv_net_ok pv then quit 1
                                  else if \<not> pv_thread_ok pv then quit 1
                                  else if \<not> pv_connect_ok pv
                                  then \<lparr>pr_exit = 1, pr_served = sv, pr_announced = None\<rparr>
                                  else (case pv_data pv of
                                          None \<Rightarrow> \<lparr>pr_exit = 1, pr_served = sv, pr_announced = None\<rparr>
                                        | Some data \<Rightarrow>
                                            (let ap = push_announce mode destpath data;
                                                 rp = pv_peer pv node ap
                                             in \<lparr>pr_exit = (if push_verdict rp then 0 else 1),
                                                 pr_served = sv, pr_announced = Some (node, ap)\<rparr>)))))
              | _ \<Rightarrow> quit 1))"

section \<open>The shell command\<close>

text \<open>
  The target with an optional node: the part before the first colon, unless a slash comes first.
  \<open>hosts\<close> is \<open>get_host_by_addr_or_name\<close> (a positive result with the address), \<open>dfl\<close> the default node.
\<close>

definition apm_target :: "(string \<Rightarrow> int option) \<Rightarrow> u32 \<Rightarrow> string \<Rightarrow> (u16 \<times> string) option" where
  "apm_target hosts dfl target =
     (let before = takeWhile (\<lambda>c. c \<noteq> CHR '':'') target;
          named = (CHR '':'' \<in> set target \<and> CHR ''/'' \<notin> set before);
          dest =
            (if named then
               (if length before = 0 \<or> length before \<ge> 64 then None
                else case hosts before of
                       None \<Rightarrow> None
                     | Some a \<Rightarrow> Some (word_of_int a, drop (Suc (length before)) target))
             else if dfl = 0 then None
             else Some (ucast dfl, target))
      in case dest of None \<Rightarrow> None | Some (node, destpath) \<Rightarrow> if destpath = [] then None else Some (node, destpath))"

datatype svu_slash = Svu_Success | Svu_Einval | Svu_Eio

text \<open>\<open>opts\<close> is what the option parser gives: the block size, the flag \<open>-p\<close> and the two arguments.\<close>

definition svu_cmd ::
  "push_env \<Rightarrow> (string \<Rightarrow> int option) \<Rightarrow> u32 \<Rightarrow> (int \<times> bool \<times> (string \<times> string) option) option \<Rightarrow>
   svu_slash \<times> (bytes \<times> u32 \<times> u32) option \<times> (u16 \<times> bytes) option" where
  "svu_cmd pv hosts dfl opts =
     (case opts of
        None \<Rightarrow> (Svu_Einval, None, None)
      | Some (block, preserve, args) \<Rightarrow>
          (case args of
             None \<Rightarrow> (Svu_Einval, None, None)
           | Some (srcfile, target) \<Rightarrow>
               if block \<le> 0 then (Svu_Einval, None, None)
               else case apm_target hosts dfl target of
                 None \<Rightarrow> (Svu_Einval, None, None)
               | Some (node, destpath) \<Rightarrow>
                   (case svu_load_file (pv_file pv srcfile) of
                      None \<Rightarrow> (Svu_Eio, None, None)
                    | Some (src, total_size) \<Rightarrow>
                        if total_size = 0 then (Svu_Eio, None, None)
                        else
                          (let mode = push_mode pv preserve srcfile;
                               sv = Some (src, total_size, word_of_int block)
                           in if \<not> pv_thread_ok pv then (Svu_Eio, None, None)
                              else if \<not> pv_connect_ok pv then (Svu_Eio, sv, None)
                              else case pv_data pv of
                                     None \<Rightarrow> (Svu_Eio, sv, None)
                                   | Some data \<Rightarrow>
                                       (let ap = push_announce mode destpath data
                                        in (if push_verdict (pv_peer pv node ap) then Svu_Success else Svu_Eio,
                                            sv, Some (node, ap)))))))"

section \<open>The plain programs\<close>

record client_opts =
  co_can_dev :: string
  co_zmq_host :: "string option"
  co_outfile :: string
  co_addr :: u16
  co_server_addr :: u16
  co_have_server :: bool
  co_mtu :: u32
  co_block_size :: u32
  co_bitrate :: int

definition client_defaults :: client_opts where
  "client_defaults = \<lparr>co_can_dev = ''can0'', co_zmq_host = None, co_outfile = ''svu_out.bin'', co_addr = 10,
     co_server_addr = 0, co_have_server = False, co_mtu = 256, co_block_size = 4096, co_bitrate = 0\<rparr>"

definition client_opt :: "char \<Rightarrow> string option \<Rightarrow> client_opts \<Rightarrow> int + client_opts" where
  "client_opt c optarg co =
     (let arg = (case optarg of Some s \<Rightarrow> s | None \<Rightarrow> []) in
      if c = CHR ''c'' then Inr (co\<lparr>co_can_dev := arg\<rparr>)
      else if c = CHR ''z'' then Inr (co\<lparr>co_zmq_host := optarg\<rparr>)
      else if c = CHR ''a'' then Inr (co\<lparr>co_addr := word_of_int (atoi arg)\<rparr>)
      else if c = CHR ''C'' then Inr (co\<lparr>co_server_addr := word_of_int (atoi arg), co_have_server := True\<rparr>)
      else if c = CHR ''o'' then Inr (co\<lparr>co_outfile := arg\<rparr>)
      else if c = CHR ''m'' then Inr (co\<lparr>co_mtu := ucast (strtoul arg)\<rparr>)
      else if c = CHR ''b'' then Inr (co\<lparr>co_block_size := ucast (strtoul arg)\<rparr>)
      else if c = CHR ''B'' then Inr (co\<lparr>co_bitrate := atoi arg\<rparr>)
      else Inl (if c = CHR ''h'' then 0 else 1))"

fun client_getopt_loop :: "(char \<times> string option) list \<Rightarrow> client_opts \<Rightarrow> int + client_opts" where
  "client_getopt_loop [] co = Inr co"
| "client_getopt_loop ((c, a) # os) co =
     (case client_opt c a co of Inl e \<Rightarrow> Inl e | Inr co' \<Rightarrow> client_getopt_loop os co')"

text \<open>The exit status and the file written; the environment depends on the server and the output file.\<close>

definition svu_client_main ::
  "bool \<Rightarrow> (u16 \<Rightarrow> string \<Rightarrow> svu_env) \<Rightarrow> string list \<Rightarrow> int \<times> (string \<times> bytes) option" where
  "svu_client_main net_ok env args =
     (case client_getopt_loop (getopt ''c:z:a:C:o:m:b:B:h'' args) client_defaults of
        Inl e \<Rightarrow> (e, None)
      | Inr co \<Rightarrow>
          if \<not> co_have_server co then (1, None)
          else if \<not> net_ok then (1, None)
          else case svu_client_run (env (co_server_addr co) (co_outfile co)) (co_block_size co) (co_mtu co) 500 of
                 (rc, fb) \<Rightarrow> (if rc = 0 then 0 else 1, map_option (\<lambda>b. (co_outfile co, b)) fb))"

record server_opts =
  vo_can_dev :: string
  vo_zmq_host :: "string option"
  vo_path :: "string option"
  vo_addr :: u16
  vo_block_size :: u32
  vo_bitrate :: int

definition server_defaults :: server_opts where
  "server_defaults = \<lparr>vo_can_dev = ''can0'', vo_zmq_host = None, vo_path = None, vo_addr = 5,
     vo_block_size = 4096, vo_bitrate = 0\<rparr>"

definition server_opt :: "char \<Rightarrow> string option \<Rightarrow> server_opts \<Rightarrow> int + server_opts" where
  "server_opt c optarg vo =
     (let arg = (case optarg of Some s \<Rightarrow> s | None \<Rightarrow> []) in
      if c = CHR ''c'' then Inr (vo\<lparr>vo_can_dev := arg\<rparr>)
      else if c = CHR ''z'' then Inr (vo\<lparr>vo_zmq_host := optarg\<rparr>)
      else if c = CHR ''a'' then Inr (vo\<lparr>vo_addr := word_of_int (atoi arg)\<rparr>)
      else if c = CHR ''f'' then Inr (vo\<lparr>vo_path := optarg\<rparr>)
      else if c = CHR ''b'' then Inr (vo\<lparr>vo_block_size := ucast (strtoul arg)\<rparr>)
      else if c = CHR ''B'' then Inr (vo\<lparr>vo_bitrate := atoi arg\<rparr>)
      else Inl (if c = CHR ''h'' then 0 else 1))"

fun server_getopt_loop :: "(char \<times> string option) list \<Rightarrow> server_opts \<Rightarrow> int + server_opts" where
  "server_getopt_loop [] vo = Inr vo"
| "server_getopt_loop ((c, a) # os) vo =
     (case server_opt c a vo of Inl e \<Rightarrow> Inl e | Inr vo' \<Rightarrow> server_getopt_loop os vo')"

text \<open>\<open>Inl\<close> is an exit before serving, \<open>Inr\<close> the server that the loop runs; it serves until the process ends.\<close>

definition svu_server_main ::
  "bool \<Rightarrow> bool \<Rightarrow> bool \<Rightarrow> (string \<Rightarrow> file_io) \<Rightarrow> string list \<Rightarrow> int + svu_server" where
  "svu_server_main net_ok alloc_ok bind_ok fs args =
     (case server_getopt_loop (getopt ''c:z:a:f:b:B:h'' args) server_defaults of
        Inl e \<Rightarrow> Inl e
      | Inr vo \<Rightarrow>
          (case vo_path vo of
             None \<Rightarrow> Inl 1
           | Some path \<Rightarrow>
               if vo_block_size vo = 0 then Inl 1
               else case svu_load_file (fs path) of
                      None \<Rightarrow> Inl 1
                    | Some (src, total_size) \<Rightarrow>
                        if total_size = 0 then Inl 1
                        else if \<not> net_ok then Inl 1
                        else case svu_serve_setup alloc_ok bind_ok src total_size (vo_block_size vo) of
                               None \<Rightarrow> Inl (- 1)
                             | Some sv \<Rightarrow> Inr sv))"

section \<open>Lemmas\<close>

lemma str_bytes_nul: "CHR 0x00 \<notin> set s \<Longrightarrow> 0 \<notin> set (str_bytes s)"
proof -
  have inj: "c = CHR 0x00" if "(of_char c :: u8) = 0" for c
  proof -
    have "(of_char c :: u8) = word_of_nat (of_char c)" by (simp only: of_nat_of_char)
    moreover have "(of_char c :: nat) < 256" by (rule nat_of_char_less_256)
    ultimately have "unat (of_char c :: u8) = of_char c" by (simp add: unsigned_of_nat take_bit_nat_eq_self)
    with that have "(of_char c :: nat) = of_char (CHR 0x00)" by simp
    then show ?thesis by (simp only: of_char_eq_iff)
  qed
  then show "CHR 0x00 \<notin> set s \<Longrightarrow> 0 \<notin> set (str_bytes s)" by (auto simp: str_bytes_def)
qed

lemma client_run_cases: "svu_client_run env bs mtu n = (0, fb) \<Longrightarrow> \<exists>b. fb = Some b"
  by (auto simp: svu_client_run_def split: option.splits if_splits dest: sym)

lemma push_verdict_daemon: "push_verdict (dd_reply (svu_daemon_push env got pkt)) \<longleftrightarrow> got \<and> dd_rc (svu_daemon_push env got pkt) = 0"
  by (simp add: push_verdict_def svu_daemon_push_def case_prod_beta Let_def)

text \<open>The bytes that the command serves are those it loaded from the file of its command line.\<close>

lemma push_serves_loaded:
  assumes "getopt_rest ''c:z:a:b:B:ph'' args = srcfile # target # extra"
    and "pr_served (svu_push_main pv args) = Some (src, total_size, k)"
  shows "svu_load_file (pv_file pv srcfile) = Some (src, total_size)"
  using assms(2)
  by (auto simp: svu_push_main_def assms(1) Let_def split: sum.splits option.splits if_splits)

text \<open>A positive verdict of the daemon, for an honest control channel and a faithful disk.\<close>

lemma push_verdict_sound:
  assumes "push_verdict (dd_reply (svu_daemon_push env got ap))"
    and "payload_ok src k" and "\<forall>path. honest_ctrl src k (env path)"
    and "\<forall>path xs ys. e_disk (env path) xs = Some ys \<longrightarrow> ys = xs"
  shows "\<exists>written. dd_file (svu_daemon_push env got ap) = Some written \<and>
    (written = src \<or>
     (\<exists>b < length (svu_blocks (unat k) src).
        svu_block (unat k) written b \<noteq> svu_block (unat k) src b \<and>
        sha256 (svu_block (unat k) written b) = sha256 (svu_block (unat k) src b)))"
proof -
  have rc: "dd_rc (svu_daemon_push env got ap) = 0" using assms(1) push_verdict_daemon by blast
  obtain mode path where mp: "svu_announce_decode ap 256 = (mode, path)" by fastforce
  obtain rc fb where run: "svu_client_run (env path) 4096 256 500 = (rc, fb)" by fastforce
  have "rc = 0" "dd_file (svu_daemon_push env got ap) = fb" using rc by (simp_all add: svu_daemon_push_def mp run)
  with run client_run_cases obtain written where w: "svu_client_run (env path) 4096 256 500 = (0, Some written)"
    "dd_file (svu_daemon_push env got ap) = Some written" by metis
  have h: "honest_ctrl src k (env path)" "\<forall>xs ys. e_disk (env path) xs = Some ys \<longrightarrow> ys = xs"
    using assms(3,4) by blast+
  from client_sound [OF assms(2) h w(1)] w(2) show ?thesis by blast
qed

section \<open>Properties\<close>

text \<open>
  Property C1. The push command end to end: \<open>svu file node:path\<close> against the daemon on that node, over a
  link that may lose, reorder and repeat data packets in the first \<open>d\<close> of the 500 rounds and delivers
  them all in order afterwards. The daemon pulls the file from the server that the command runs, the
  command exits with 0, the file on the far disk has the bytes of the source, and with \<open>-p\<close> its mode
  is set. The path it is written to is the given one cut to 250 characters (242 with a mode): a
  longer path is cut silently, and the command reports success for a path that does not exist on
  the far side. Conditions: with no lossy round (\<open>d = 0\<close>) the file may have any size within the limits
  of \<open>transfer_ok\<close> (not empty, below 4 GiB with a block and with a packet buffer, a manifest below
  4 GiB, buffers of 256 bytes to 64 KiB); with \<open>d\<close> lossy rounds it must be shorter than
  \<open>64 * (500 - d)\<close> bytes, at most about 32 KB, because a lossless round is only known to fill 32
  ranges. Without a mode to set (no \<open>-p\<close>, or a mode of 0) the path must not be one of eight or more
  characters that begins with PUVS, which the daemon would read as an announcement with a mode.
  The network, the serve thread, the connection and a packet of 250 bytes or more are available,
  and the path holds no NUL.
\<close>

theorem push_end_to_end:
  assumes "push_getopt_loop (getopt ''c:z:a:b:B:ph'' args) push_defaults = Inr po"
    and "getopt_rest ''c:z:a:b:B:ph'' args = srcfile # target # extra"
    and "push_target target = Some (node, destpath)" and "CHR 0x00 \<notin> set destpath"
    and "svu_load_file (pv_file pv srcfile) = Some (src, total_size)"
    and "pv_net_ok pv" and "pv_thread_ok pv" and "pv_connect_ok pv"
    and "pv_data pv = Some data" and "250 \<le> length data"
    and "pv_peer pv = (\<lambda>nd ap. dd_reply (svu_daemon_push (\<lambda>path. linked_env cap src (po_block po) link) True ap))"
    and "transfer_ok src (po_block po) cap 256" and "\<forall>rnd ps. set (link rnd ps) \<subseteq> set ps"
    and "\<forall>rnd > d. link rnd = (\<lambda>ps. ps)" and "d \<le> 500" and "length src < 64 * (500 - d) \<or> d = 0"
    and "mode = push_mode pv (po_preserve po) srcfile"
    and "mode = 0 \<longrightarrow> \<not> (8 \<le> length destpath \<and> take 4 (str_bytes destpath) = [0x50, 0x55, 0x56, 0x53])"
  shows "\<exists>ap. pr_exit (svu_push_main pv args) = 0 \<and> pr_announced (svu_push_main pv args) = Some (node, ap) \<and>
    svu_daemon_push (\<lambda>path. linked_env cap src (po_block po) link) True ap =
      \<lparr>dd_path = take (if mode = 0 then 250 else 242) (str_bytes destpath), dd_rc = 0, dd_file = Some src,
       dd_chmod = (if mode = 0 then None else Some mode), dd_reply = Some [0]\<rparr>"
proof -
  let ?ap = "push_announce mode destpath data"
    and ?d = "svu_daemon_push (\<lambda>path. linked_env cap src (po_block po) link) True"
  obtain n buf where nb: "svu_announce_encode mode (str_bytes destpath) (take 250 data) = (n, buf)" by fastforce
  have len: "length (take 250 data) = 250" using assms(10) by simp
  have "svu_announce_decode (take n buf) 256 = (mode, take (if mode = 0 then 250 else 250 - 8) (str_bytes destpath))"
    using announce_carries [OF str_bytes_nul [OF assms(4)] _ _ nb] assms(18) len by (simp add: str_bytes_def)
  then have dec: "svu_announce_decode ?ap 256 = (mode, take (if mode = 0 then 250 else 242) (str_bytes destpath))"
    using nb by (simp add: push_announce_def)
  have run: "svu_client_run (linked_env cap src (po_block po) link) 4096 256 500 = (0, Some src)"
    by (rule transfer_completes [OF assms(12-14)]) (use assms(15,16) in simp_all)
  have daemon: "?d ?ap = \<lparr>dd_path = take (if mode = 0 then 250 else 242) (str_bytes destpath), dd_rc = 0,
      dd_file = Some src, dd_chmod = (if mode = 0 then None else Some mode), dd_reply = Some [0]\<rparr>"
    by (simp add: svu_daemon_push_def dec run)
  have "payload_ok src (po_block po)" using assms(12) by (simp add: transfer_ok_def)
  from payload_size(2) [OF this] have small: "length src < 2 ^ 32" .
  have "total_size = word_of_int (int (length src))"
    using assms(5) by (auto simp: svu_load_file_def Let_def simp del: of_int_of_nat_eq split: if_splits)
  then have "unat total_size = length src" using unat_pos32 [OF small] by simp
  moreover have "src \<noteq> []" using assms(12) by (simp add: transfer_ok_def payload_ok_def)
  ultimately have "total_size \<noteq> 0" by auto
  then have "pr_exit (svu_push_main pv args) = (if push_verdict (dd_reply (?d ?ap)) then 0 else 1) \<and>
      pr_announced (svu_push_main pv args) = Some (node, ?ap)"
    using assms(1-3,5-9,17) by (simp add: svu_push_main_def assms(11) Let_def)
  moreover have "push_verdict (dd_reply (?d ?ap))" by (simp add: daemon push_verdict_def)
  ultimately show ?thesis using daemon by auto
qed

text \<open>A command line, a small file and a link that loses everything in the first round.\<close>

definition demo_push :: "string \<Rightarrow> push_env" where
  "demo_push path = \<lparr>pv_file = (\<lambda>f. \<lparr>io_open = True, io_seek = True, io_tell = 3, io_alloc = True, io_read = [1, 2, 3]\<rparr>),
     pv_stat = (\<lambda>f. Some 0x81ED), pv_net_ok = True, pv_thread_ok = True, pv_connect_ok = True,
     pv_data = Some (replicate 256 0),
     pv_peer = (\<lambda>nd ap. dd_reply (svu_daemon_push
       (\<lambda>path. linked_env 256 [1, 2, 3] 4096 (\<lambda>rnd ps. if rnd = 1 then [] else ps)) True ap))\<rparr>"

lemma demo_transfer: "transfer_ok [1, 2, 3] 4096 256 256"
  by (simp add: transfer_ok_def payload_ok_def manifest_fits_client_def ceil_div_def)

lemma demo_args:
  "push_getopt_loop (getopt ''c:z:a:b:B:ph'' [''-p'', ''x.bin'', ''30:/tmp/x'']) push_defaults = Inr (push_defaults\<lparr>po_preserve := True\<rparr>)"
  "getopt_rest ''c:z:a:b:B:ph'' [''-p'', ''x.bin'', ''30:/tmp/x''] = [''x.bin'', ''30:/tmp/x'']"
  "push_target ''30:/tmp/x'' = Some (30, ''/tmp/x'')"
  "svu_load_file (pv_file (demo_push p) ''x.bin'') = Some ([1, 2, 3], 3)"
  "push_mode (demo_push p) True ''x.bin'' = 0x1ED"
  by (simp_all add: push_opt_def push_defaults_def push_target_def svu_load_file_def demo_push_def push_mode_def
      atoi_def is_space_def sign_of_def is_digit_def digits_val_def digit_val_def)

theorem push_end_to_end_witness:
  "\<exists>ap. pr_exit (svu_push_main (demo_push []) [''-p'', ''x.bin'', ''30:/tmp/x'']) = 0 \<and>
    dd_path (svu_daemon_push (\<lambda>path. linked_env 256 [1, 2, 3] 4096 (\<lambda>rnd ps. if rnd = 1 then [] else ps)) True ap) =
      str_bytes ''/tmp/x'' \<and>
    dd_file (svu_daemon_push (\<lambda>path. linked_env 256 [1, 2, 3] 4096 (\<lambda>rnd ps. if rnd = 1 then [] else ps)) True ap) =
      Some [1, 2, 3] \<and>
    dd_chmod (svu_daemon_push (\<lambda>path. linked_env 256 [1, 2, 3] 4096 (\<lambda>rnd ps. if rnd = 1 then [] else ps)) True ap) = Some 0x1ED"
proof -
  let ?link = "\<lambda>rnd ps. if rnd = (1 :: nat) then [] else (ps :: bytes list)"
  let ?po = "push_defaults\<lparr>po_preserve := True\<rparr>"
  have b: "po_block ?po = 4096" "po_preserve ?po" by (simp_all add: push_defaults_def)
  have peer: "pv_peer (demo_push []) = (\<lambda>nd ap. dd_reply (svu_daemon_push (\<lambda>path. linked_env 256 [1, 2, 3] (po_block ?po) ?link) True ap))"
    unfolding b by (simp add: demo_push_def)
  have tr: "transfer_ok [1, 2, 3] (po_block ?po) 256 256" unfolding b by (rule demo_transfer)
  have m: "0x1ED = push_mode (demo_push []) (po_preserve ?po) ''x.bin''" using demo_args(5) b(2) by simp
  have flags: "pv_net_ok (demo_push [])" "pv_thread_ok (demo_push [])" "pv_connect_ok (demo_push [])"
    "pv_data (demo_push []) = Some (replicate 256 0)" "250 \<le> length (replicate 256 (0 :: u8))"
    by (simp_all add: demo_push_def)
  have nul: "CHR 0x00 \<notin> set ''/tmp/x''" by simp
  have l: "\<forall>rnd ps. set (?link rnd ps) \<subseteq> set ps" "\<forall>rnd > 1. ?link rnd = (\<lambda>ps. ps)" by auto
  obtain ap where "pr_exit (svu_push_main (demo_push []) [''-p'', ''x.bin'', ''30:/tmp/x'']) = 0"
    "svu_daemon_push (\<lambda>path. linked_env 256 [1, 2, 3] (po_block ?po) ?link) True ap =
      \<lparr>dd_path = take (if (0x1ED :: u32) = 0 then 250 else 242) (str_bytes ''/tmp/x''), dd_rc = 0, dd_file = Some [1, 2, 3],
       dd_chmod = (if (0x1ED :: u32) = 0 then None else Some 0x1ED), dd_reply = Some [0]\<rparr>"
    using push_end_to_end [OF demo_args(1-3) nul demo_args(4) flags peer tr l _ _ m] by auto
  then show ?thesis unfolding b by (intro exI [of _ ap]) (simp add: str_bytes_def)
qed

text \<open>
  Property C14. The push command never reports success on wrong bytes. Let the control connections of
  the daemon go to the server that the command itself set up for the file it loaded, each delivering
  the answer to the request in order or breaking at any point, let anything at all arrive on the
  data port, and let the far disk store what it is given. If the command exits with 0 after its
  announcement, then what it served is the whole content of the file that the command line names,
  and the file that the daemon wrote has these bytes, or one of its blocks collides with the
  source's block under SHA-256. Conditions: the file and one block are below 4 GiB together (a longer
  file is served as a prefix), the block size is not 0, the manifest is below 4 GiB with 64 KiB to
  spare, and the server's packet buffers hold 200 bytes.
\<close>

theorem push_never_lies:
  assumes "getopt_rest ''c:z:a:b:B:ph'' args = srcfile # target # extra"
    and "pv_peer pv = (\<lambda>nd ap. dd_reply (svu_daemon_push env got ap))"
    and "pr_exit (svu_push_main pv args) = 0" and "pr_announced (svu_push_main pv args) = Some (node, ap)"
    and "pr_served (svu_push_main pv args) = Some (src, total_size, k)"
    and "svu_serve_setup True True src total_size k = Some sv" and "\<forall>path. serves cap sv (env path)"
    and "\<forall>path xs ys. e_disk (env path) xs = Some ys \<longrightarrow> ys = xs"
    and "payload_ok src k" and "manifest_fits_client src k" and "200 \<le> cap"
  shows "svu_load_file (pv_file pv srcfile) = Some (src, total_size) \<and>
    src = io_read (pv_file pv srcfile) \<and> io_tell (pv_file pv srcfile) = int (length src) \<and>
    (\<exists>written. dd_file (svu_daemon_push env got ap) = Some written \<and>
      (written = src \<or>
       (\<exists>b < length (svu_blocks (unat k) src).
          svu_block (unat k) written b \<noteq> svu_block (unat k) src b \<and>
          sha256 (svu_block (unat k) written b) = sha256 (svu_block (unat k) src b))))"
proof -
  have v: "push_verdict (dd_reply (svu_daemon_push env got ap))"
    using assms(3,4)
    by (auto simp: svu_push_main_def assms(2) Let_def split: sum.splits list.splits option.splits if_splits)
  have load: "svu_load_file (pv_file pv srcfile) = Some (src, total_size)"
    using assms(5) by (rule push_serves_loaded [OF assms(1)])
  have whole: "src = io_read (pv_file pv srcfile)" "io_tell (pv_file pv srcfile) = int (length src)"
    "total_size = word_of_int (int (length src))"
    using load by (auto simp: svu_load_file_def Let_def simp del: of_int_of_nat_eq split: if_splits)
  have "sv = server_of src k"
    using assms(6) server_of_fields(1) [OF assms(9)] using whole(3) by simp
  then have h: "\<forall>path. honest_ctrl src k (env path)"
    using serves_honest [OF assms(9-11)] assms(7) by blast
  from push_verdict_sound [OF v assms(9) h assms(8)] load whole show ?thesis by blast
qed

theorem push_never_lies_witness:
  "\<exists>ap written. pr_announced (svu_push_main (demo_push []) [''-p'', ''x.bin'', ''30:/tmp/x'']) = Some (30, ap) \<and>
    dd_file (svu_daemon_push (\<lambda>path. linked_env 256 [1, 2, 3] 4096 (\<lambda>rnd ps. if rnd = 1 then [] else ps)) True ap) = Some written \<and>
    (written = [1, 2, 3] \<or> (\<exists>b < length (svu_blocks 4096 [1, 2, 3]).
      svu_block 4096 written b \<noteq> svu_block 4096 [1, 2, 3] b \<and> sha256 (svu_block 4096 written b) = sha256 (svu_block 4096 [1, 2, 3] b)))"
proof -
  let ?link = "\<lambda>rnd ps. if rnd = (1 :: nat) then [] else (ps :: bytes list)"
  let ?env = "\<lambda>path :: bytes. linked_env 256 [1, 2, 3] 4096 ?link"
  have peer: "pv_peer (demo_push []) = (\<lambda>nd ap. dd_reply (svu_daemon_push ?env True ap))" by (simp add: demo_push_def)
  have run: "svu_client_run (linked_env 256 [1, 2, 3] 4096 ?link) 4096 256 500 = (0, Some [1, 2, 3])"
    by (rule transfer_completes [OF demo_transfer, of _ 1]) auto
  have rc: "dd_rc (svu_daemon_push ?env True ap) = 0" for ap
    unfolding svu_daemon_push_def run by (simp add: case_prod_beta)
  let ?ap = "push_announce 0x1ED ''/tmp/x'' (replicate 256 0)"
  have ex: "pr_exit (svu_push_main (demo_push []) [''-p'', ''x.bin'', ''30:/tmp/x'']) = 0"
    "pr_announced (svu_push_main (demo_push []) [''-p'', ''x.bin'', ''30:/tmp/x'']) = Some (30, ?ap)"
    using push_verdict_daemon [of ?env True ?ap] rc [of ?ap] demo_args
    by (simp_all add: svu_push_main_def demo_args peer)
      (simp_all add: demo_push_def)
  have sv: "pr_served (svu_push_main (demo_push []) [''-p'', ''x.bin'', ''30:/tmp/x'']) = Some ([1, 2, 3], 3, 4096)"
    unfolding svu_push_main_def Let_def
    by (simp only: demo_args list.case sum.case option.case prod.case) (simp add: demo_push_def push_defaults_def)
  have pl: "payload_ok [1, 2, 3] 4096" "manifest_fits_client [1, 2, 3] 4096"
    using demo_transfer by (simp_all add: transfer_ok_def)
  have set: "svu_serve_setup True True [1, 2, 3] 3 4096 = Some (server_of [1, 2, 3] 4096)"
    using server_of_fields(1) [OF pl(1)] by simp
  have h: "\<forall>path. serves 256 (server_of [1, 2, 3] 4096) (?env path)" by (simp add: linked_env_serves)
  have dk: "\<forall>path xs ys. e_disk (?env path) xs = Some ys \<longrightarrow> ys = xs" by (simp add: linked_env_def)
  show ?thesis using push_never_lies [OF demo_args(2) peer ex sv set h dk pl, simplified length_svu_blocks] ex(2) by auto
qed

text \<open>
  The target \<open>node:path\<close> of the push command: a printed node number of at most 15 digits and
  a path that is not empty are read back, but the number is cut to 16 bits without a check, so
  a number above 65535 names another node.
\<close>

theorem push_target_roundtrip:
  assumes "length (show_dec n) < 16" and "path \<noteq> []"
  shows "push_target (show_dec n @ CHR '':'' # path) = Some (word_of_nat n, path) \<and>
    unat (fst (the (push_target (show_dec n @ CHR '':'' # path)))) = n mod 65536"
proof -
  have "\<not> is_digit (CHR '':'')" by (simp add: is_digit_def)
  then have "\<forall>c \<in> set (show_dec n). c \<noteq> CHR '':''" using show_dec_digits [of n] by blast
  then have "takeWhile (\<lambda>c. c \<noteq> CHR '':'') (show_dec n @ CHR '':'' # path) = show_dec n"
    by (simp add: takeWhile_tail takeWhile_eq_all_conv)
  then have "push_target (show_dec n @ CHR '':'' # path) = Some (word_of_nat n, path)"
    using assms by (simp add: push_target_def atoi_show_dec Let_def)
  then show ?thesis by (simp add: unsigned_of_nat take_bit_eq_mod)
qed

theorem push_target_roundtrip_witness:
  "push_target ''70962:/tmp/x'' = Some (5426, ''/tmp/x'') \<and>
    unat (fst (the (push_target (show_dec 70962 @ CHR '':'' # ''/tmp/x'')))) = 5426"
proof -
  have s: "show_dec 70962 = ''70962''" by (simp add: show_dec.simps digit_char_def)
  show ?thesis using push_target_roundtrip [of 70962 "''/tmp/x''"] unfolding s by simp
qed

end
