(* ===== verification/CI_Bridge.thy ===== *)
theory CI_Bridge
  imports CI_Drop_Iface CI_Libc "HOL-Library.Sublist"
begin

text \<open>
  The loss-injecting bridge of \<open>src/tests/e2e/ci_inject_bridge.c\<close>: it opens an ingress and an egress
  interface, wraps the egress in the drop shim and forwards frames between the two, each only in
  the direction that its source address allows (split horizon). The interface drivers, the
  duplicate filter, \<open>csp_send_direct_iface\<close> and \<open>usleep\<close> belong to libcsp and the C library and are
  parameters.
\<close>

section \<open>Interface specifications\<close>

text \<open>The tokens that repeated calls of \<open>strtok\<close> with one separator return.\<close>

function strtok_all :: "char \<Rightarrow> string \<Rightarrow> string list" where
  "strtok_all sep s =
     (let t = dropWhile (\<lambda>c. c = sep) s
      in if t = [] then []
         else takeWhile (\<lambda>c. c \<noteq> sep) t # strtok_all sep (dropWhile (\<lambda>c. c \<noteq> sep) t))"
  by pat_completeness auto
termination
proof (relation "measure (\<lambda>(sep, s). length s)", goal_cases)
  case (2 sep s t)
  then have "hd t \<noteq> sep" using hd_dropWhile [of "\<lambda>c. c = sep" s] by simp
  with 2(2) obtain c cs where t: "t = c # cs" "c \<noteq> sep" by (cases t) simp_all
  have "length (dropWhile (\<lambda>c. c \<noteq> sep) t) < length t"
    using t by (simp add: le_imp_less_Suc length_dropWhile_le)
  also have "\<dots> \<le> length s" using 2(1) by (simp add: length_dropWhile_le)
  finally show ?case by simp
qed simp

declare strtok_all.simps [simp del]

text \<open>What is asked of the drivers: endpoints and an optional address filter, or a CAN device.\<close>

datatype iface_spec =
    Zmq_Spec string string "u16 option"
  | Can_Spec string

definition parse_iface_spec :: "string \<Rightarrow> iface_spec option" where
  "parse_iface_spec spec =
     (if take 4 spec = ''zmq:''
      then (case strtok_all (CHR '','') (strncpy 255 (drop 4 spec)) of
              pub # sub # rest \<Rightarrow>
                Some (Zmq_Spec pub sub (case rest of [] \<Rightarrow> None | rxa # _ \<Rightarrow> Some (word_of_int (atoi rxa))))
            | _ \<Rightarrow> None)
      else if take 4 spec = ''can:'' then Some (Can_Spec (drop 4 spec))
      else None)"

text \<open>
  The drivers as a parameter: the name and the specification of the interface to the error code and
  the interface that is stored, if any.
\<close>

type_synonym iface_driver = "string \<Rightarrow> iface_spec \<Rightarrow> int \<times> csp_iface option"

definition open_iface_spec :: "iface_driver \<Rightarrow> string \<Rightarrow> string \<Rightarrow> int \<times> csp_iface option" where
  "open_iface_spec drv spec name =
     (case parse_iface_spec spec of None \<Rightarrow> (- 1, None) | Some sp \<Rightarrow> drv name sp)"

section \<open>Start-up\<close>

text \<open>The bridge while it runs: the shim with its counters, and the split-horizon state.\<close>

record bridge =
  b_shim :: ci_drop_iface
  b_src :: u16
  b_pace :: u32
  b_echo_in :: u64
  b_echo_out :: u64

definition bridge_rule :: "string list \<Rightarrow> ci_drop_rule" where
  "bridge_rule args =
     \<lparr>r_seed = strtoul (args ! 7), r_match_dport = atoi (args ! 2), r_match_rdp_syn = False,
      r_drop_probability = atof (args ! 5), r_replay_vector = None\<rparr>"

text \<open>The shim is initialised, its tracker replaced by one with the overhead, and the burst mode enabled.\<close>

definition bridge_shim :: "string list \<Rightarrow> csp_iface \<Rightarrow> drop_row list option \<Rightarrow> ci_drop_iface \<Rightarrow> ci_drop_iface" where
  "bridge_shim args out_raw drop_log sp =
     (let (_, shim) = ci_drop_iface_init (Some ''BRSHIM'') (Some out_raw) (Some (bridge_rule args))
                        (word_of_int (atoi (args ! 3))) drop_log (Some sp);
          shim = (the shim)\<lparr>i_tracker := ci_flow_tracker_init_ovh (word_of_int (atoi (args ! 3)))
                                                                  (word_of_int (atoi (args ! 4)))\<rparr>;
          loss = atof (args ! 5); burst = atof (args ! 6)
      in if 0 < burst
         then (let (p_g2b, p_b2g) = ci_ge_params loss burst
               in the (ci_drop_iface_enable_ge p_g2b p_b2g (Some shim)))
         else shim)"

text \<open>
  \<open>main\<close> up to the loop: the exit code, or the running bridge. \<open>args\<close> are the arguments after the
  program name, \<open>log_ok\<close> is whether \<open>fopen\<close> succeeds, \<open>sp\<close> the uninitialised shim structure.
\<close>

definition bridge_start :: "iface_driver \<Rightarrow> bool \<Rightarrow> ci_drop_iface \<Rightarrow> string list \<Rightarrow> int + bridge" where
  "bridge_start drv log_ok sp args =
     (if length args < 9 then Inl 2
      else let mtu = atoi (args ! 3); overhead = atoi (args ! 4); log = args ! 8;
               src_addr = (if 9 < length args then word_of_int (atoi (args ! 9)) else 5424);
               pace_us = (if 10 < length args then word_of_int (atoi (args ! 10)) else 0)
           in if overhead < int CI_DTP_OFFSET_SIZE \<or> overhead \<ge> mtu then Inl 2
              else case open_iface_spec drv (args ! 0) ''BRIN'' of
                (e1, in_iface) \<Rightarrow>
                  if e1 \<noteq> CSP_ERR_NONE \<or> in_iface = None then Inl 1
                  else case open_iface_spec drv (args ! 1) ''BROUT'' of
                    (e2, out_raw) \<Rightarrow>
                      if e2 \<noteq> CSP_ERR_NONE \<or> out_raw = None then Inl 1
                      else if log \<noteq> ''-'' \<and> \<not> log_ok then Inl 1
                      else Inr \<lparr>b_shim = bridge_shim args (the out_raw)
                                  (if log \<noteq> ''-'' then Some [] else None) sp,
                                b_src = src_addr, b_pace = pace_us, b_echo_in = 0, b_echo_out = 0\<rparr>)"

section \<open>The pump\<close>

text \<open>
  What one read of the router queue returns: nothing before the timeout, an entry without a packet,
  or a packet with the side it came from, the answer of the duplicate filter and the time.
\<close>

datatype qfifo_read =
    Read_Timeout
  | Read_Null
  | Read_Packet (from_in: bool) (pkt_of: csp_packet) (is_dup: bool) (at_ms: u32)

text \<open>
  The rest of the process: the egress interface with \<open>csp_buffer_free\<close>, the ingress interface, the
  constant for a missing via address, \<open>usleep\<close>, and \<open>csp_send_direct_iface\<close>, which is given the
  \<open>nexthop\<close> of the interface.
\<close>

type_synonym 's nexthop = "u16 \<Rightarrow> csp_packet \<Rightarrow> int \<Rightarrow> 's \<Rightarrow> int \<times> 's"

record 'w bridge_lib =
  l_out :: "'w csp_stack"
  l_in :: "'w nexthop"
  l_no_via :: u16
  l_usleep :: "u32 \<Rightarrow> 'w \<Rightarrow> 'w"
  l_send :: "(ci_drop_iface \<times> 'w) nexthop \<Rightarrow> csp_packet \<Rightarrow> u16 \<Rightarrow> int \<Rightarrow> ci_drop_iface \<times> 'w \<Rightarrow> int \<times> ci_drop_iface \<times> 'w"

text \<open>The documented behaviour of \<open>csp_send_direct_iface\<close>: it calls the \<open>nexthop\<close> of the interface.\<close>

definition direct_send :: "'w bridge_lib \<Rightarrow> bool" where
  "direct_send lib \<longleftrightarrow> (\<forall>nh p via me sw. l_send lib nh p via me sw = nh via p me sw)"

definition in_nexthop :: "'w bridge_lib \<Rightarrow> (ci_drop_iface \<times> 'w) nexthop" where
  "in_nexthop lib via p me = (\<lambda>(s, w). let (rc, w) = l_in lib via p me w in (rc, s, w))"

definition pump :: "'w bridge_lib \<Rightarrow> qfifo_read \<Rightarrow> bridge \<times> 'w \<Rightarrow> bridge \<times> 'w" where
  "pump lib input bw =
     (let (b, w) = bw
      in case input of
           Read_Timeout \<Rightarrow> (b, w)
         | Read_Null \<Rightarrow> (b, w)
         | Read_Packet inn packet dup ms \<Rightarrow>
             if dup then (b, st_free (l_out lib) packet w)
             else if inn then
               if c_src packet \<noteq> b_src b
               then (b\<lparr>b_echo_in := b_echo_in b + 1\<rparr>, st_free (l_out lib) packet w)
               else (let (_, s, w) = l_send lib (\<lambda>via p me. ci_drop_iface_nexthop (l_out lib) ms via p me)
                                       packet (l_no_via lib) 0 (b_shim b, w);
                         w = (if b_pace b \<noteq> 0 then l_usleep lib (b_pace b) w else w)
                     in (b\<lparr>b_shim := s\<rparr>, w))
             else
               if c_src packet = b_src b
               then (b\<lparr>b_echo_out := b_echo_out b + 1\<rparr>, st_free (l_out lib) packet w)
               else (let (_, s, w) = l_send lib (in_nexthop lib) packet (l_no_via lib) 0 (b_shim b, w)
                     in (b\<lparr>b_shim := s\<rparr>, w)))"

definition pump_run :: "'w bridge_lib \<Rightarrow> qfifo_read list \<Rightarrow> bridge \<times> 'w \<Rightarrow> bridge \<times> 'w" where
  "pump_run lib = fold (pump lib)"

section \<open>What the pump does\<close>

text \<open>The packets read, the frames forwarded in either direction, and the echoes, by split horizon.\<close>

definition reads :: "qfifo_read list \<Rightarrow> csp_packet list" where
  "reads es = concat (map (\<lambda>e. case e of Read_Packet inn p dup ms \<Rightarrow> [p] | _ \<Rightarrow> []) es)"

definition upframes :: "u16 \<Rightarrow> u16 \<Rightarrow> qfifo_read list \<Rightarrow> tx list" where
  "upframes via src es = concat (map (\<lambda>e. case e of
     Read_Packet inn p dup ms \<Rightarrow> if \<not> dup \<and> inn \<and> c_src p = src then [(ms, p, via, 0)] else [] | _ \<Rightarrow> []) es)"

definition downframes :: "u16 \<Rightarrow> qfifo_read list \<Rightarrow> csp_packet list" where
  "downframes src es = concat (map (\<lambda>e. case e of
     Read_Packet inn p dup ms \<Rightarrow> if \<not> dup \<and> \<not> inn \<and> c_src p \<noteq> src then [p] else [] | _ \<Rightarrow> []) es)"

definition echoes :: "bool \<Rightarrow> u16 \<Rightarrow> qfifo_read list \<Rightarrow> csp_packet list" where
  "echoes side src es = concat (map (\<lambda>e. case e of
     Read_Packet inn p dup ms \<Rightarrow> if \<not> dup \<and> inn = side \<and> (c_src p = src) \<noteq> inn then [p] else [] | _ \<Rightarrow> []) es)"

text \<open>The calls that touch a packet, as a list of actions on the rest of the process.\<close>

datatype bridge_act =
    To_Egress csp_packet
  | To_Ingress csp_packet
  | Freed csp_packet
  | Slept u32

fun perform :: "'w bridge_lib \<Rightarrow> bridge_act \<Rightarrow> 'w \<Rightarrow> 'w" where
  "perform lib (To_Egress p) w = snd (st_nexthop (l_out lib) (l_no_via lib) p 0 w)"
| "perform lib (To_Ingress p) w = snd (l_in lib (l_no_via lib) p 0 w)"
| "perform lib (Freed p) w = st_free (l_out lib) p w"
| "perform lib (Slept us) w = l_usleep lib us w"

definition sent_up :: "bridge_act list \<Rightarrow> csp_packet list" where
  "sent_up acts = concat (map (\<lambda>a. case a of To_Egress p \<Rightarrow> [p] | _ \<Rightarrow> []) acts)"

definition sent_down :: "bridge_act list \<Rightarrow> csp_packet list" where
  "sent_down acts = concat (map (\<lambda>a. case a of To_Ingress p \<Rightarrow> [p] | _ \<Rightarrow> []) acts)"

definition touched :: "bridge_act list \<Rightarrow> csp_packet list" where
  "touched acts = concat (map (\<lambda>a. case a of To_Egress p \<Rightarrow> [p] | To_Ingress p \<Rightarrow> [p] | Freed p \<Rightarrow> [p] | Slept us \<Rightarrow> []) acts)"

lemmas bridge_lists = reads_def upframes_def downframes_def echoes_def sent_up_def sent_down_def touched_def

definition pump_next :: "u16 \<Rightarrow> qfifo_read \<Rightarrow> bridge \<Rightarrow> bridge" where
  "pump_next via e b =
     b\<lparr>b_shim := fold shim_step (upframes via (b_src b) [e]) (b_shim b),
       b_echo_in := b_echo_in b + word_of_nat (length (echoes True (b_src b) [e])),
       b_echo_out := b_echo_out b + word_of_nat (length (echoes False (b_src b) [e]))\<rparr>"

definition pump_acts :: "qfifo_read \<Rightarrow> bridge \<Rightarrow> bridge_act list" where
  "pump_acts e b = (case e of
     Read_Packet inn p dup ms \<Rightarrow>
       if dup \<or> (c_src p = b_src b) \<noteq> inn then [Freed p]
       else if \<not> inn then [To_Ingress p]
       else (if shim_decide p (b_shim b) = Some True then Freed p else To_Egress p) #
            (if b_pace b = 0 then [] else [Slept (b_pace b)])
   | _ \<Rightarrow> [])"

lemma pump_eq:
  assumes "direct_send lib"
  shows "pump lib e (b, w) = (pump_next (l_no_via lib) e b, fold (perform lib) (pump_acts e b) w)"
proof (cases e)
  case (Read_Packet inn p dup ms)
  have s: "l_send lib nh p via me sw = nh via p me sw" for nh p via me sw
    using assms unfolding direct_send_def by blast
  show ?thesis
    by (simp add: Read_Packet pump_def pump_next_def pump_acts_def s nexthop_eq in_nexthop_def upframes_def
        echoes_def case_prod_beta Let_def)
qed (simp_all add: pump_def pump_next_def pump_acts_def upframes_def echoes_def)

fun run_acts :: "u16 \<Rightarrow> qfifo_read list \<Rightarrow> bridge \<Rightarrow> bridge_act list" where
  "run_acts via [] b = []"
| "run_acts via (e # es) b = pump_acts e b @ run_acts via es (pump_next via e b)"

lemma pump_next_frame [simp]:
  "b_src (pump_next via e b) = b_src b" "b_pace (pump_next via e b) = b_pace b"
  by (simp_all add: pump_next_def)

lemma pump_run_eq:
  assumes "direct_send lib"
  shows "pump_run lib es (b, w) =
    (fold (pump_next (l_no_via lib)) es b, fold (perform lib) (run_acts (l_no_via lib) es b) w)"
  unfolding pump_run_def by (induction es arbitrary: b w) (simp_all add: pump_eq [OF assms])

text \<open>A list function that is computed event by event, on the head and on the rest.\<close>

lemma bridge_lists_Cons:
  "reads (e # es) = reads [e] @ reads es" "upframes via src (e # es) = upframes via src [e] @ upframes via src es"
  "downframes src (e # es) = downframes src [e] @ downframes src es"
  "echoes side src (e # es) = echoes side src [e] @ echoes side src es"
  "sent_up (xs @ ys) = sent_up xs @ sent_up ys" "sent_down (xs @ ys) = sent_down xs @ sent_down ys"
  "touched (xs @ ys) = touched xs @ touched ys"
  by (simp_all add: bridge_lists)

lemma pump_fold:
  "fold (pump_next via) es b =
     b\<lparr>b_shim := fold shim_step (upframes via (b_src b) es) (b_shim b),
       b_echo_in := b_echo_in b + word_of_nat (length (echoes True (b_src b) es)),
       b_echo_out := b_echo_out b + word_of_nat (length (echoes False (b_src b) es))\<rparr>"
proof (induction es arbitrary: b)
  case Nil
  show ?case by (simp add: upframes_def echoes_def)
next
  case (Cons e es)
  show ?case
    unfolding bridge_lists_Cons(2,4) [of _ _ e es]
    by (simp add: Cons.IH) (simp add: pump_next_def add.assoc)
qed

lemma acts_down: "sent_down (run_acts via es b) = downframes (b_src b) es"
proof (induction es arbitrary: b)
  case (Cons e es)
  have "sent_down (pump_acts e b) = downframes (b_src b) [e]"
    by (cases e) (simp_all add: bridge_lists pump_acts_def)
  then show ?case by (simp add: bridge_lists_Cons(3) [of _ e es] bridge_lists_Cons(6) Cons.IH)
qed (simp add: bridge_lists)

lemma acts_touched: "touched (run_acts via es b) = reads es"
proof (induction es arbitrary: b)
  case (Cons e es)
  have "touched (pump_acts e b) = reads [e]"
    by (cases e) (simp_all add: bridge_lists pump_acts_def)
  then show ?case by (simp add: bridge_lists_Cons(1) [of e es] bridge_lists_Cons(7) Cons.IH)
qed (simp add: bridge_lists)

text \<open>The packets that a list of verdicts keeps.\<close>

definition kept :: "bool list \<Rightarrow> tx list \<Rightarrow> csp_packet list" where
  "kept vs es = map (fst \<circ> snd \<circ> snd) (filter (\<lambda>(v, e). \<not> v) (zip vs es))"

lemma shim_verdicts_append:
  "shim_verdicts (xs @ ys) s = shim_verdicts xs s @ shim_verdicts ys (fold shim_step xs s)"
  by (induction xs s rule: shim_verdicts.induct) simp_all

lemma length_shim_verdicts [simp]: "length (shim_verdicts es s) = length es"
  by (induction es s rule: shim_verdicts.induct) simp_all

lemma acts_up:
  "sent_up (run_acts via es b) = kept (shim_verdicts (upframes via (b_src b) es) (b_shim b)) (upframes via (b_src b) es)"
proof (induction es arbitrary: b)
  case (Cons e es)
  have "sent_up (pump_acts e b) =
      kept (shim_verdicts (upframes via (b_src b) [e]) (b_shim b)) (upframes via (b_src b) [e])"
    by (cases e) (simp_all add: bridge_lists pump_acts_def kept_def)
  then show ?case
    unfolding bridge_lists_Cons(2) [of _ _ e es]
    by (simp add: bridge_lists_Cons(5) Cons.IH shim_verdicts_append kept_def) (simp add: pump_next_def)
qed (simp add: bridge_lists kept_def)

lemma bridge_shim_fields:
  fixes args out_raw drop_log sp
  defines "s \<equiv> bridge_shim args out_raw drop_log sp"
  shows "i_rule s = bridge_rule args" "i_drop_log s = drop_log"
    "i_tracker s = ci_flow_tracker_init_ovh (word_of_int (atoi (args ! 3))) (word_of_int (atoi (args ! 4)))"
    "i_per_attempt s \<longleftrightarrow> 0 < atof (args ! 6)"
    "0 < atof (args ! 6) \<Longrightarrow> i_ge s = (case ci_ge_params (atof (args ! 5)) (atof (args ! 6)) of
       (p, q) \<Rightarrow> ci_ge_state_init (strtoul (args ! 7)) p q)"
    "i_injected_drops s = 0" "i_forwarded s = 0" "i_passthrough s = 0"
  by (simp_all add: s_def bridge_shim_def ci_drop_iface_init_def ci_drop_iface_enable_ge_def bridge_rule_def Let_def
      split: prod.split)

lemma bridge_start_fields:
  assumes "bridge_start drv log_ok sp args = Inr b"
  shows "\<exists>out_raw. b_shim b = bridge_shim args out_raw (if args ! 8 \<noteq> ''-'' then Some [] else None) sp"
    "b_echo_in b = 0" "b_echo_out b = 0"
  using assms by (auto simp: bridge_start_def Let_def split: if_splits prod.splits)

section \<open>Properties\<close>

text \<open>
  Property C18. The bridge as an injector. From the start, for every sequence of reads: each packet
  is handed, in order, to exactly one of the two interfaces or freed; the ingress gets exactly the
  frames of the egress side that are not from the source address; the egress gets exactly the
  frames of the source on the ingress side that the shim does not drop. The log has one row per such
  frame in scope: in the identity mode it is the reference for the MTU and the overhead given on
  the command line, in the burst mode the verdicts are those of the chain of the loss and the burst
  length given. The five counters are exact modulo \<open>2^64\<close>.
\<close>

theorem bridge_injects:
  assumes "direct_send lib" and "bridge_start drv log_ok sp args = Inr b" and "args ! 8 \<noteq> ''-''"
    and "ups = upframes (l_no_via lib) (b_src b) es"
  shows "\<exists>b' acts rows. pump_run lib es (b, w) = (b', fold (perform lib) acts w) \<and>
    touched acts = reads es \<and> sent_down acts = downframes (b_src b) es \<and>
    sent_up acts = kept (scope_verdicts (bridge_rule args) (map (fst \<circ> snd) ups) (map d_dropped rows)) ups \<and>
    i_drop_log (b_shim b') = Some rows \<and> length rows = n_scope (bridge_rule args) ups \<and>
    (if 0 < atof (args ! 6)
     then map d_dropped rows = (case ci_ge_params (atof (args ! 5)) (atof (args ! 6)) of (p, q) \<Rightarrow>
            fst (ge_run (length rows) (ci_ge_state_init (strtoul (args ! 7)) p q)))
     else rows = drop_rows (bridge_rule args)
            (ci_flow_tracker_init_ovh (word_of_int (atoi (args ! 3))) (word_of_int (atoi (args ! 4)))) (map tx_view ups)) \<and>
    i_injected_drops (b_shim b') = word_of_nat (length (filter d_dropped rows)) \<and>
    i_forwarded (b_shim b') = word_of_nat (length (filter (\<lambda>d. \<not> d_dropped d) rows)) \<and>
    i_passthrough (b_shim b') = word_of_nat (length ups - length rows) \<and>
    b_echo_in b' = word_of_nat (length (echoes True (b_src b) es)) \<and>
    b_echo_out b' = word_of_nat (length (echoes False (b_src b) es))"
proof -
  let ?via = "l_no_via lib" and ?acts = "run_acts (l_no_via lib) es b" and ?s = "b_shim b"
  note b = bridge_start_fields [OF assms(2)]
  obtain out_raw where s: "?s = bridge_shim args out_raw (Some []) sp" using b(1) assms(3) by auto
  note f = bridge_shim_fields [of args out_raw "Some []" sp, folded s]
  obtain rows where rows: "shim_effect ?s ups rows" using shim_effect_ex by blast
  have ident: "rows = drop_rows (bridge_rule args) (i_tracker ?s) (map tx_view ups)" if "\<not> 0 < atof (args ! 6)"
    using rows shim.run_rows [of ?s ups] that by (simp add: shim_effect_def Let_def f)
  have run: "pump_run lib es (b, w) = (fold (pump_next ?via) es b, fold (perform lib) ?acts w)"
    by (rule pump_run_eq [OF assms(1)])
  have b': "b_shim (fold (pump_next ?via) es b) = fold shim_step ups ?s"
    "b_echo_in (fold (pump_next ?via) es b) = word_of_nat (length (echoes True (b_src b) es))"
    "b_echo_out (fold (pump_next ?via) es b) = word_of_nat (length (echoes False (b_src b) es))"
    by (simp_all add: pump_fold b assms(4))
  have up: "sent_up ?acts = kept (scope_verdicts (bridge_rule args) (map (fst \<circ> snd) ups) (map d_dropped rows)) ups"
    using rows unfolding acts_up assms(4) [symmetric] by (simp add: shim_effect_def Let_def f)
  have ge: "map d_dropped rows = (case ci_ge_params (atof (args ! 5)) (atof (args ! 6)) of (p, q) \<Rightarrow>
      fst (ge_run (length rows) (ci_ge_state_init (strtoul (args ! 7)) p q)))" if "0 < atof (args ! 6)"
    using rows that by (simp add: shim_effect_def Let_def f split: prod.split)
  show ?thesis
    by (rule exI [of _ "fold (pump_next ?via) es b"], rule exI [of _ ?acts], rule exI [of _ rows])
      (use rows run b' up ge ident in \<open>simp add: shim_effect_def Let_def f acts_down acts_touched\<close>)
qed

text \<open>A recording process, a command line and a sequence of reads with one frame of every kind.\<close>

definition demo_bridge_lib :: "(csp_packet list \<times> csp_packet list \<times> csp_packet list) bridge_lib" where
  "demo_bridge_lib =
     \<lparr>l_out = \<lparr>st_nexthop = (\<lambda>via p me (up, down, freed). (0, up @ [p], down, freed)),
                st_free = (\<lambda>p (up, down, freed). (up, down, freed @ [p]))\<rparr>,
      l_in = (\<lambda>via p me (up, down, freed). (0, up, down @ [p], freed)), l_no_via = 0xFFFF,
      l_usleep = (\<lambda>us w. w), l_send = (\<lambda>nh p via me sw. nh via p me sw)\<rparr>"

definition demo_bridge_args :: "string list" where
  "demo_bridge_args = [''zmq:tcp://h:6000,tcp://h:7000'', ''can:can0'', ''8'', ''200'', ''8'', ''1'', ''0'', ''1'', ''d.csv'', ''7'']"

definition demo_bridge :: bridge where
  "demo_bridge = (case bridge_start (\<lambda>name sp. (0, Some plain_iface)) True (fresh_shim (bridge_rule [])) demo_bridge_args
     of Inr b \<Rightarrow> b | Inl rc \<Rightarrow> \<lparr>b_shim = fresh_shim (bridge_rule []), b_src = 0, b_pace = 0, b_echo_in = 0, b_echo_out = 0\<rparr>)"

definition demo_read :: "bool \<Rightarrow> u16 \<Rightarrow> u16 \<Rightarrow> qfifo_read" where
  "demo_read inn src dport = Read_Packet inn \<lparr>c_src = src, c_dst = 2, c_dport = dport, c_flags = 0,
     c_data = ci_gen_dtp_payload 192 3\<rparr> False 50"

theorem bridge_injects_witness:
  "\<exists>b' acts rows. pump_run demo_bridge_lib
      [demo_read True 7 8, Read_Timeout, demo_read True 7 9, demo_read True 4 8, demo_read False 4 8, demo_read False 7 8]
      (demo_bridge, [], [], []) = (b', fold (perform demo_bridge_lib) acts ([], [], [])) \<and>
    sent_down acts = reads [demo_read False 4 8] \<and> i_drop_log (b_shim b') = Some rows \<and> length rows = 1 \<and>
    i_passthrough (b_shim b') = 1 \<and> b_echo_in b' = 1 \<and> b_echo_out b' = 1"
proof -
  let ?es = "[demo_read True 7 8, Read_Timeout, demo_read True 7 9, demo_read True 4 8, demo_read False 4 8, demo_read False 7 8]"
  let ?ups = "upframes (l_no_via demo_bridge_lib) (b_src demo_bridge) ?es"
  have d: "direct_send demo_bridge_lib" by (simp add: direct_send_def demo_bridge_lib_def)
  have st: "bridge_start (\<lambda>name sp. (0, Some plain_iface)) True (fresh_shim (bridge_rule [])) demo_bridge_args = Inr demo_bridge"
    by code_simp
  have l: "demo_bridge_args ! 8 \<noteq> ''-''" by code_simp
  have e: "downframes (b_src demo_bridge) ?es = reads [demo_read False 4 8]" "n_scope (bridge_rule demo_bridge_args) ?ups = 1"
    "length ?ups = 2" "length (echoes True (b_src demo_bridge) ?es) = 1" "length (echoes False (b_src demo_bridge) ?es) = 1"
    by code_simp+
  show ?thesis using bridge_injects [OF d st l refl, of ?es "([], [], [])"] unfolding e by auto
qed

section \<open>Split horizon\<close>

text \<open>
  The bridge between two media that return what it sends: the queue of frames to be read, the frames
  that other nodes still send, and what went out on either side. \<open>echo side p\<close> are the copies of \<open>p\<close>
  that come back on a side after a transmission there.
\<close>

record echo_world =
  w_queue :: "(bool \<times> csp_packet) list"
  w_ext :: "(bool \<times> csp_packet) list"
  w_up :: "csp_packet list"
  w_down :: "csp_packet list"

type_synonym medium = "bool \<Rightarrow> csp_packet \<Rightarrow> csp_packet list"

definition echo_lib :: "medium \<Rightarrow> echo_world bridge_lib" where
  "echo_lib echo =
     \<lparr>l_out = \<lparr>st_nexthop = (\<lambda>via p me w. (0, w\<lparr>w_queue := w_queue w @ map (Pair False) (echo False p), w_up := w_up w @ [p]\<rparr>)),
                st_free = (\<lambda>p w. w)\<rparr>,
      l_in = (\<lambda>via p me w. (0, w\<lparr>w_queue := w_queue w @ map (Pair True) (echo True p), w_down := w_down w @ [p]\<rparr>)),
      l_no_via = 0xFFFF, l_usleep = (\<lambda>us w. w), l_send = (\<lambda>nh p via me sw. nh via p me sw)\<rparr>"

text \<open>The bridge reads a frame, with any answer of the duplicate filter, or another node's frame arrives.\<close>

inductive bridge_step :: "medium \<Rightarrow> bridge \<times> echo_world \<Rightarrow> bridge \<times> echo_world \<Rightarrow> bool" for echo where
  Read: "w_queue w = (inn, p) # q \<Longrightarrow>
    pump (echo_lib echo) (Read_Packet inn p dup ms) (b, w\<lparr>w_queue := q\<rparr>) = bw \<Longrightarrow> bridge_step echo (b, w) bw"
| Arrive: "w_ext w = x # xs \<Longrightarrow> bridge_step echo (b, w) (b, w\<lparr>w_queue := w_queue w @ [x], w_ext := xs\<rparr>)"

inductive_cases bridge_stepE [consumes 1, case_names Read Arrive]: "bridge_step echo (b, w) (b', w')"

definition same_source :: "medium \<Rightarrow> bool" where
  "same_source echo \<longleftrightarrow> (\<forall>side p. \<forall>p' \<in> set (echo side p). c_src p' = c_src p)"

definition onward :: "bool \<Rightarrow> u16 \<Rightarrow> (bool \<times> csp_packet) list \<Rightarrow> csp_packet list" where
  "onward inn src xs = map snd (filter (\<lambda>(i, p). i = inn \<and> (c_src p = src) = inn) xs)"

definition frame_cost :: "medium \<Rightarrow> u16 \<Rightarrow> bool \<times> csp_packet \<Rightarrow> nat" where
  "frame_cost echo src = (\<lambda>(i, p). if (c_src p = src) = i then 1 + length (echo (\<not> i) p) else 1)"

definition work_left :: "medium \<Rightarrow> u16 \<Rightarrow> echo_world \<Rightarrow> nat" where
  "work_left echo src w = sum_list (map (frame_cost echo src) (w_queue w)) + sum_list (map (\<lambda>x. 1 + frame_cost echo src x) (w_ext w))"

definition horizon_inv :: "u16 \<Rightarrow> (bool \<times> csp_packet) list \<Rightarrow> echo_world \<Rightarrow> bool" where
  "horizon_inv src xs w \<longleftrightarrow>
     subseq (w_up w @ onward True src (w_queue w @ w_ext w)) (onward True src xs) \<and>
     subseq (w_down w @ onward False src (w_queue w @ w_ext w)) (onward False src xs)"

lemma onward_simps [simp]:
  "onward inn src [] = []" "onward inn src (xs @ ys) = onward inn src xs @ onward inn src ys"
  "onward inn src ((i, p) # xs) = (if i = inn \<and> (c_src p = src) = inn then p # onward inn src xs else onward inn src xs)"
  by (auto simp: onward_def)

text \<open>What comes back is never forwarded again, in either direction.\<close>

lemma onward_echo:
  assumes "same_source echo" and "(c_src p = src) \<noteq> side"
  shows "onward inn src (map (Pair side) (echo side p)) = []"
    "sum_list (map (frame_cost echo src) (map (Pair side) (echo side p))) = length (echo side p)"
proof -
  have "(c_src p' = src) \<noteq> side" if "p' \<in> set (echo side p)" for p'
    using assms that unfolding same_source_def by fastforce
  then show "onward inn src (map (Pair side) (echo side p)) = []"
    "sum_list (map (frame_cost echo src) (map (Pair side) (echo side p))) = length (echo side p)"
    by (auto simp: onward_def frame_cost_def filter_empty_conv comp_def cong: map_cong
        simp: sum_list_triv)
qed

text \<open>The three outcomes of a read: dropped, sent up, sent down.\<close>

lemma echo_pump:
  assumes "pump (echo_lib echo) (Read_Packet inn p dup ms) (b, w) = (b', w')"
  shows "b_src b' = b_src b \<and>
    (w' = w \<or>
     (c_src p = b_src b) = inn \<and> w' = (if inn
       then w\<lparr>w_queue := w_queue w @ map (Pair False) (echo False p), w_up := w_up w @ [p]\<rparr>
       else w\<lparr>w_queue := w_queue w @ map (Pair True) (echo True p), w_down := w_down w @ [p]\<rparr>))"
proof -
  have "direct_send (echo_lib echo)" by (simp add: direct_send_def echo_lib_def)
  note eq = pump_eq [OF this, of "Read_Packet inn p dup ms" b w, unfolded assms prod.inject]
  from eq show ?thesis by (auto simp: pump_acts_def echo_lib_def split: if_splits)
qed

lemma bridge_step_src: "bridge_step echo (b, w) (b', w') \<Longrightarrow> b_src b' = b_src b"
  by (auto elim!: bridge_stepE dest: echo_pump)

lemma bridge_step_work:
  assumes "same_source echo" and "bridge_step echo (b, w) (b', w')"
  shows "work_left echo (b_src b) w' < work_left echo (b_src b) w"
  using assms(2)
proof (cases rule: bridge_stepE)
  case (Read inn p q dup ms)
  then show ?thesis
    using echo_pump [OF Read(2)] onward_echo(2) [OF assms(1), of p "b_src b" "\<not> inn"]
    by (cases inn) (auto simp: work_left_def frame_cost_def)
next
  case (Arrive x xs)
  then show ?thesis by (simp add: work_left_def)
qed

lemma bridge_step_inv:
  assumes "same_source echo" and "bridge_step echo (b, w) (b', w')" and "horizon_inv (b_src b) xs w"
  shows "horizon_inv (b_src b) xs w'"
  using assms(2)
proof (cases rule: bridge_stepE)
  case (Read inn p q dup ms)
  have drop: "subseq (us @ vs) zs" if "subseq (us @ v # vs) zs" for us vs zs and v :: csp_packet
  proof -
    have "subseq (us @ vs) (us @ v # vs)" by (intro list_emb_append_mono list_emb_Cons subseq_order.order_refl)
    then show ?thesis using that by (rule subseq_order.order_trans)
  qed
  show ?thesis
    using echo_pump [OF Read(2)] onward_echo(1) [OF assms(1), of p "b_src b" "\<not> inn"] Read(1) assms(3)
    by (cases inn) (auto simp: horizon_inv_def dest: drop split: if_splits)
next
  case (Arrive x xs')
  with assms(3) show ?thesis by (cases x) (simp add: horizon_inv_def)
qed

lemma bridge_steps_inv:
  assumes "same_source echo" and "(bridge_step echo ^^ n) (b, w) (b', w')" and "horizon_inv (b_src b) xs w"
  shows "horizon_inv (b_src b) xs w' \<and> b_src b' = b_src b \<and> n + work_left echo (b_src b) w' \<le> work_left echo (b_src b) w"
  using assms(2)
proof (induction n arbitrary: b' w')
  case 0
  then show ?case using assms(3) by simp
next
  case (Suc n)
  then obtain b1 w1 where s: "(bridge_step echo ^^ n) (b, w) (b1, w1)" "bridge_step echo (b1, w1) (b', w')" by auto
  from Suc.IH [OF s(1)] have IH: "horizon_inv (b_src b) xs w1" "b_src b1 = b_src b"
    "n + work_left echo (b_src b) w1 \<le> work_left echo (b_src b) w" by auto
  show ?case
    using bridge_step_inv [OF assms(1) s(2), unfolded IH(2)] bridge_step_work [OF assms(1) s(2), unfolded IH(2)]
      bridge_step_src [OF s(2)] IH by auto
qed

text \<open>
  Property C17. Split horizon prevents loops. Let both media return any finite number of copies of
  every transmission of the bridge, changed in anything but the source address, and let other nodes
  send the frames \<open>xs\<close> in any interleaving, whatever the duplicate filter answers. Then every run
  ends after at most as many steps as there are arrivals, reads of them and reads of one round of
  echoes; it can only end with everything read; and no frame crosses the bridge twice: what goes out
  on a side is a subsequence of the frames that other nodes sent for it.
\<close>

theorem bridge_no_loops:
  assumes "same_source echo" and "w_queue w = []" and "w_up w = []" and "w_down w = []" and "w_ext w = xs"
    and "(bridge_step echo ^^ n) (b, w) (b', w')"
  shows "n \<le> (\<Sum>x \<leftarrow> xs. 1 + frame_cost echo (b_src b) x) \<and>
    subseq (w_up w') (onward True (b_src b) xs) \<and> subseq (w_down w') (onward False (b_src b) xs) \<and>
    ((\<forall>bw. \<not> bridge_step echo (b', w') bw) \<longrightarrow> w_queue w' = [] \<and> w_ext w' = [])"
proof -
  have "horizon_inv (b_src b) xs w" using assms(2-5) by (simp add: horizon_inv_def)
  note inv = bridge_steps_inv [OF assms(1,6) this]
  have "subseq us zs" if "subseq (us @ vs) zs" for us vs zs :: "csp_packet list"
    using that list_emb_append_mono subseq_order.order_trans by (metis append_Nil2 list_emb_Nil subseq_order.order_refl)
  then have "subseq (w_up w') (onward True (b_src b) xs)" "subseq (w_down w') (onward False (b_src b) xs)"
    using inv unfolding horizon_inv_def by blast+
  moreover have "w_queue w' = [] \<and> w_ext w' = []" if stuck: "\<forall>bw. \<not> bridge_step echo (b', w') bw"
  proof (rule ccontr)
    assume "\<not> (w_queue w' = [] \<and> w_ext w' = [])"
    then consider i p q where "w_queue w' = (i, p) # q" | x ys where "w_ext w' = x # ys"
      by (cases "w_queue w'"; cases "w_ext w'") auto
    then show False by cases (use stuck bridge_step.intros in blast)+
  qed
  ultimately show ?thesis using inv assms(2,5) by (simp add: work_left_def)
qed

definition demo_frame :: csp_packet where
  "demo_frame = \<lparr>c_src = 4, c_dst = 7, c_dport = 13, c_flags = 0, c_data = [1, 2]\<rparr>"

theorem bridge_no_loops_witness:
  "\<exists>b' w'. (bridge_step (\<lambda>side p. [p]) ^^ 3)
      (demo_bridge, \<lparr>w_queue = [], w_ext = [(False, demo_frame)], w_up = [], w_down = []\<rparr>) (b', w') \<and>
    w_down w' = [demo_frame] \<and> subseq (w_down w') (onward False 7 [(False, demo_frame)]) \<and>
    3 \<le> (\<Sum>x \<leftarrow> [(False, demo_frame)]. 1 + frame_cost (\<lambda>side p. [p]) 7 x)"
proof -
  let ?step = "bridge_step (\<lambda>side p. [p])"
  let ?w = "\<lambda>q ext down. \<lparr>w_queue = q, w_ext = ext, w_up = [], w_down = down\<rparr>"
  let ?b = "demo_bridge\<lparr>b_echo_in := b_echo_in demo_bridge + 1\<rparr>"
  have b: "b_src demo_bridge = 7" by code_simp
  have "?step (demo_bridge, ?w [] [(False, demo_frame)] []) (demo_bridge, ?w [(False, demo_frame)] [] [])"
    using bridge_step.Arrive [of "?w [] [(False, demo_frame)] []"] by simp
  moreover have "?step (demo_bridge, ?w [(False, demo_frame)] [] []) (demo_bridge, ?w [(True, demo_frame)] [] [demo_frame])"
    using bridge_step.Read [of "?w [(False, demo_frame)] [] []" False demo_frame "[]" "\<lambda>side p. [p]" False 0 demo_bridge, OF _ refl]
    by (simp add: pump_def echo_lib_def in_nexthop_def b demo_frame_def)
  moreover have "?step (demo_bridge, ?w [(True, demo_frame)] [] [demo_frame]) (?b, ?w [] [] [demo_frame])"
    using bridge_step.Read [of "?w [(True, demo_frame)] [] [demo_frame]" True demo_frame "[]" "\<lambda>side p. [p]" False 0 demo_bridge, OF _ refl]
    by (simp add: pump_def echo_lib_def b demo_frame_def)
  ultimately have run: "(?step ^^ 3) (demo_bridge, ?w [] [(False, demo_frame)] []) (?b, ?w [] [] [demo_frame])"
    by (auto simp: numeral_3_eq_3)
  have "same_source (\<lambda>side p. [p])" by (simp add: same_source_def)
  from bridge_no_loops [OF this _ _ _ refl run] run show ?thesis
    unfolding b by (intro exI [of _ ?b] exI [of _ "?w [] [] [demo_frame]"]) simp
qed

section \<open>Specifications and start-up errors\<close>

lemma strtok_all_Cons:
  assumes "t \<noteq> []" and "sep \<notin> set t"
  shows "strtok_all sep (t @ sep # rest) = t # strtok_all sep rest" "strtok_all sep t = [t]"
proof -
  have "hd t \<noteq> sep" using assms by (metis list.set_sel(1))
  then have d: "dropWhile (\<lambda>c. c = sep) (t @ u) = t @ u" for u using assms(1) by (cases t) simp_all
  have tk: "takeWhile (\<lambda>c. c \<noteq> sep) (t @ sep # rest) = t" "dropWhile (\<lambda>c. c \<noteq> sep) (t @ sep # rest) = sep # rest"
    "takeWhile (\<lambda>c. c \<noteq> sep) t = t" "dropWhile (\<lambda>c. c \<noteq> sep) t = []"
    using assms(2) by (induction t) auto
  have "strtok_all sep (sep # rest) = strtok_all sep rest"
    by (subst (1 2) strtok_all.simps) simp
  then show "strtok_all sep (t @ sep # rest) = t # strtok_all sep rest"
    using d [of "sep # rest"] assms(1) tk by (subst strtok_all.simps) (simp add: Let_def)
  show "strtok_all sep t = [t]"
    using d [of "[]"] assms(1) by (subst strtok_all.simps) (simp add: Let_def tk strtok_all.simps [of sep "[]"])
qed

definition c_string :: "string \<Rightarrow> bool" where
  "c_string s \<longleftrightarrow> s \<noteq> [] \<and> CHR '','' \<notin> set s \<and> CHR 0x00 \<notin> set s"

lemma show_dec_c_string: "c_string (show_dec n)"
proof -
  have "\<not> is_digit (CHR 0x00)" by code_simp
  then have "CHR 0x00 \<notin> set (show_dec n)" using show_dec_digits [of n] by blast
  moreover have "CHR '','' \<notin> set (show_dec n)" using show_dec_no_comma by blast
  ultimately show ?thesis by (simp add: c_string_def)
qed

text \<open>
  A specification that is written as the usage text says is understood as meant, with and without
  the address filter, when it fits the buffer of 256 characters.
\<close>

lemma zmq_spec_parsed:
  assumes "c_string pub" and "c_string sub"
  shows "length (pub @ '','' @ sub) < 256 \<Longrightarrow>
      parse_iface_spec (''zmq:'' @ pub @ '','' @ sub) = Some (Zmq_Spec pub sub None)"
    and "length (pub @ '','' @ sub @ '','' @ show_dec (unat a)) < 256 \<Longrightarrow>
      parse_iface_spec (''zmq:'' @ pub @ '','' @ sub @ '','' @ show_dec (unat a)) = Some (Zmq_Spec pub sub (Some a))"
proof -
  let ?k = "CHR '',''" and ?z = "CHR 0x00" and ?n = "show_dec (unat a)"
  have cp: "strncpy 255 t = t" if "length t < 256" "?z \<notin> set t" for t
  proof -
    have "takeWhile (\<lambda>c. c \<noteq> ?z) t = t" unfolding takeWhile_eq_all_conv using that(2) by blast
    with that(1) show ?thesis by (simp only: strncpy_def) simp
  qed
  have P: "pub \<noteq> []" "?k \<notin> set pub" "?z \<notin> set pub" "sub \<noteq> []" "?k \<notin> set sub" "?z \<notin> set sub"
    and N: "?n \<noteq> []" "?k \<notin> set ?n" "?z \<notin> set ?n"
    using assms show_dec_c_string [of "unat a"] unfolding c_string_def by blast+
  have z: "?z \<noteq> ?k" by simp
  have t: "strtok_all ?k (pub @ ?k # sub) = [pub, sub]" "strtok_all ?k (pub @ ?k # sub @ ?k # ?n) = [pub, sub, ?n]"
    using P N by (simp_all only: strtok_all_Cons not_False_eq_True simp_thms)
  have p: "parse_iface_spec (''zmq:'' @ t) = (case strtok_all ?k (strncpy 255 t) of
      pub # sub # rest \<Rightarrow>
        Some (Zmq_Spec pub sub (case rest of [] \<Rightarrow> None | rxa # _ \<Rightarrow> Some (word_of_int (atoi rxa))))
    | _ \<Rightarrow> None)" for t
    by (simp add: parse_iface_spec_def)
  note p = p [unfolded append_Cons append_Nil]
  have c: "?z \<notin> set (pub @ ?k # sub)" "?z \<notin> set (pub @ ?k # sub @ ?k # ?n)" using P N z by auto
  show "length (pub @ '','' @ sub) < 256 \<Longrightarrow>
      parse_iface_spec (''zmq:'' @ pub @ '','' @ sub) = Some (Zmq_Spec pub sub None)"
    using cp [OF _ c(1)] t(1) by (simp only: p append_Cons append_Nil list.case simp_thms)
  show "length (pub @ '','' @ sub @ '','' @ ?n) < 256 \<Longrightarrow>
      parse_iface_spec (''zmq:'' @ pub @ '','' @ sub @ '','' @ ?n) = Some (Zmq_Spec pub sub (Some a))"
    using cp [OF _ c(2)] t(2) by (simp only: p append_Cons append_Nil list.case atoi_show_dec simp_thms) simp
qed

text \<open>
  The guard on the overhead: what it promises for an MTU that fits 16 bits, and what an MTU that
  does not fit makes of it, where every data packet gets the key 0.
\<close>

theorem bridge_overhead_guard:
  assumes "bridge_start drv log_ok sp args = Inr b" and "\<not> f_is_rdp f"
  shows "(atoi (args ! 3) < 65536 \<longrightarrow> data = le32_bytes_of off @ rest \<longrightarrow>
      unat (fst (ci_flow_index_body f (Some data) (i_tracker (b_shim b)))) =
        unat off div nat (atoi (args ! 3) - atoi (args ! 4))) \<and>
    (atoi (args ! 3) mod 65536 \<le> atoi (args ! 4) \<longrightarrow> atoi (args ! 4) < 65536 \<longrightarrow>
      fst (ci_flow_index_body f (Some data) (i_tracker (b_shim b))) = 0)"
proof -
  have g: "0 \<le> atoi (args ! 4)" "atoi (args ! 4) < atoi (args ! 3)"
    using assms(1) by (auto simp: bridge_start_def Let_def split: if_splits)
  obtain out_raw l where "b_shim b = bridge_shim args out_raw l sp" using bridge_start_fields(1) [OF assms(1)] by blast
  then have t: "t_dtp_mtu (i_tracker (b_shim b)) = word_of_int (atoi (args ! 3))"
    "t_dtp_overhead (i_tracker (b_shim b)) = word_of_int (atoi (args ! 4))"
    by (simp_all add: bridge_shim_fields ci_flow_tracker_init_ovh_def)
  show ?thesis using flow_index_int_args [OF assms(2) g t] by blast
qed

text \<open>
  The exit codes: 2 for a command line that cannot be right, 1 when an interface or the log cannot
  be opened.
\<close>

definition opens :: "iface_driver \<Rightarrow> string \<Rightarrow> string \<Rightarrow> bool" where
  "opens drv spec name \<longleftrightarrow> fst (open_iface_spec drv spec name) = CSP_ERR_NONE \<and> snd (open_iface_spec drv spec name) \<noteq> None"

lemma bridge_exit_codes:
  fixes args :: "string list"
  defines "sane \<equiv> 9 \<le> length args \<and> int CI_DTP_OFFSET_SIZE \<le> atoi (args ! 4) \<and> atoi (args ! 4) < atoi (args ! 3)"
  shows "bridge_start drv log_ok sp args = Inl 2 \<longleftrightarrow> \<not> sane"
    and "bridge_start drv log_ok sp args = Inl 1 \<longleftrightarrow>
      sane \<and> \<not> (opens drv (args ! 0) ''BRIN'' \<and> opens drv (args ! 1) ''BROUT'' \<and> (args ! 8 = ''-'' \<or> log_ok))"
    and "(\<exists>b. bridge_start drv log_ok sp args = Inr b) \<longleftrightarrow>
      sane \<and> opens drv (args ! 0) ''BRIN'' \<and> opens drv (args ! 1) ''BROUT'' \<and> (args ! 8 = ''-'' \<or> log_ok)"
  by (auto simp: sane_def opens_def bridge_start_def Let_def split: prod.split)

end
