(* ===== verification/CI_Bench.thy ===== *)
theory CI_Bench
  imports CI_Drop_Iface CI_Libc
begin

text \<open>
  The traffic sources of the two-oracle bench: \<open>src/tests/e2e/ci_gen.c\<close> and \<open>ci_gen_dtp.c\<close>, which
  publish a numbered RDP or DTP stream to the proxy, and \<open>src/tests/e2e/ci_inject_can.c\<close>, which sends
  such a stream through the drop shim onto a CAN interface. The properties say that the drop log of
  a bench run is a table of the rule's decisions on \<open>0, 1, 2, ...\<close>.
\<close>

section \<open>The streams\<close>

definition bench_packet :: "u16 \<Rightarrow> u16 \<Rightarrow> u16 \<Rightarrow> u8 \<Rightarrow> bytes \<Rightarrow> csp_packet" where
  "bench_packet src dst dport flags data = \<lparr>c_src = src, c_dst = dst, c_dport = dport, c_flags = flags, c_data = data\<rparr>"

text \<open>
  An argument, or the default. A generator returns its exit code and the packets that it sends;
  \<open>conn_ok\<close> and \<open>alloc\<close> are the results of \<open>zmq_connect\<close> and \<open>malloc\<close>.
\<close>

definition argv_or :: "string list \<Rightarrow> nat \<Rightarrow> (string \<Rightarrow> 'a) \<Rightarrow> 'a \<Rightarrow> 'a" where
  "argv_or args k conv dflt = (if k < length args then conv (args ! k) else dflt)"

definition ci_gen :: "bool \<Rightarrow> bool \<Rightarrow> string list \<Rightarrow> int \<times> csp_packet list" where
  "ci_gen conn_ok alloc args =
     (let count = argv_or args 0 atoi 500; dport = argv_or args 2 atoi 13
      in if \<not> conn_ok then (1, [])
         else if \<not> alloc then (1, [])
         else (0, map (\<lambda>i. bench_packet 10 20 (word_of_int dport) CI_CSP_FRDP (ci_gen_payload (word_of_nat i)))
                    [0..<nat count]))"

definition ci_gen_dtp :: "bool \<Rightarrow> bool \<Rightarrow> string list \<Rightarrow> int \<times> csp_packet list" where
  "ci_gen_dtp conn_ok alloc args =
     (let count = argv_or args 0 atoi 500; mtu = argv_or args 2 atoi 200;
          overhead = argv_or args 3 atoi (uint CI_DTP_OVERHEAD_DIPP)
      in if overhead < int CI_DTP_OFFSET_SIZE \<or> mtu \<le> overhead then (2, [])
         else let step = word_of_int (mtu - overhead)
              in if \<not> conn_ok then (1, [])
                 else if \<not> alloc then (1, [])
                 else (0, map (\<lambda>i. bench_packet 10 20 CI_DTP_DATA_PORT 0 (ci_gen_dtp_payload step (word_of_nat i)))
                            [0..<nat count]))"

section \<open>The injecting sender\<close>

text \<open>The packet of iteration \<open>i\<close>: a DTP fragment on the DTP port, an RDP packet on every other.\<close>

definition can_packet :: "u16 \<Rightarrow> u16 \<Rightarrow> int \<Rightarrow> int \<Rightarrow> nat \<Rightarrow> csp_packet" where
  "can_packet addr dst dport mtu i =
     (let step = word_of_int (mtu - 4)
      in if dport = uint CI_DTP_DATA_PORT
         then bench_packet addr dst (word_of_int dport) 0 (ci_gen_dtp_payload step (word_of_nat i))
         else bench_packet addr dst (word_of_int dport) CI_CSP_FRDP (ci_gen_payload (word_of_nat i)))"

definition can_rule :: "string list \<Rightarrow> ci_drop_rule" where
  "can_rule args =
     \<lparr>r_seed = argv_or args 7 strtoul 1, r_match_dport = argv_or args 3 atoi 13, r_match_rdp_syn = False,
      r_drop_probability = argv_or args 6 atof (d64_round (3 / 10)), r_replay_vector = None\<rparr>"

text \<open>
  \<open>main\<close> up to the loop. \<open>opened\<close> is the error code and the interface that the CAN driver returns,
  \<open>log_ok\<close> the success of \<open>fopen\<close>, \<open>sp\<close> the uninitialised shim.
\<close>

definition can_start :: "int \<times> csp_iface option \<Rightarrow> bool \<Rightarrow> ci_drop_iface \<Rightarrow> string list \<Rightarrow> int + ci_drop_iface" where
  "can_start opened log_ok sp args =
     (case opened of (rc, can_iface) \<Rightarrow>
      if rc \<noteq> CSP_ERR_NONE \<or> can_iface = None then Inl 1
      else let log = (if 8 < length args then Some (args ! 8) else None);
               mtu = argv_or args 5 atoi 200; loss = argv_or args 6 atof (d64_round (3 / 10));
               burst = argv_or args 9 atof 0
           in if log \<noteq> None \<and> \<not> log_ok then Inl 1
              else let (_, shim) = ci_drop_iface_init (Some ''CANDROP'') can_iface (Some (can_rule args))
                                     (word_of_int mtu) (map_option (\<lambda>_. []) log) (Some sp)
                   in if 0 < burst
                      then (let (p_g2b, p_b2g) = ci_ge_params loss burst
                            in Inr (the (ci_drop_iface_enable_ge p_g2b p_b2g shim)))
                      else Inr (the shim))"

text \<open>
  The loop, with \<open>n\<close> iterations to go. \<open>got c\<close> is whether call \<open>c\<close> of \<open>csp_buffer_get\<close> succeeds, \<open>buf\<close> whether
  \<open>p\<close> holds a buffer; the first buffer is taken before the loop. The result counts the packets sent.
\<close>

fun can_loop :: "'w csp_stack \<Rightarrow> (nat \<Rightarrow> bool) \<Rightarrow> (nat \<Rightarrow> u32) \<Rightarrow> u16 \<Rightarrow> (nat \<Rightarrow> csp_packet) \<Rightarrow> nat \<Rightarrow> nat \<Rightarrow> nat \<Rightarrow> bool \<Rightarrow>
    ci_drop_iface \<times> 'w \<Rightarrow> nat \<times> ci_drop_iface \<times> 'w" where
  "can_loop stk got ms dst pk 0 i c buf sw = (i, sw)"
| "can_loop stk got ms dst pk (Suc n) i c buf sw =
     (let (buf, c) = (if buf then (True, c) else (got c, c + 1))
      in if \<not> buf then (i, sw)
         else (let (_, sw) = ci_drop_iface_nexthop stk (ms i) dst (pk i) 1 sw
               in can_loop stk got ms dst pk n (i + 1) c False sw))"

definition ci_inject_can ::
  "'w csp_stack \<Rightarrow> (nat \<Rightarrow> bool) \<Rightarrow> (nat \<Rightarrow> u32) \<Rightarrow> string list \<Rightarrow> ci_drop_iface \<times> 'w \<Rightarrow> nat \<times> ci_drop_iface \<times> 'w" where
  "ci_inject_can stk got ms args sw =
     (let addr = argv_or args 1 (\<lambda>s. word_of_int (atoi s)) 10; dst = argv_or args 2 (\<lambda>s. word_of_int (atoi s)) 20;
          dport = argv_or args 3 atoi 13; count = argv_or args 4 atoi 500; mtu = argv_or args 5 atoi 200
      in can_loop stk got ms dst (can_packet addr dst dport mtu) (nat count) 0 1 (got 0) sw)"

section \<open>The keys of a numbered stream\<close>

lemma flow_ok_upt: "flow_ok [a..<b]"
proof (induction "b - a" arbitrary: a)
  case (Suc n)
  then show ?case
  proof (cases "Suc a < b")
    case True
    have "flow_ok [Suc a..<b]" using Suc.hyps(1) [of "Suc a"] Suc.hyps(2) by simp
    with True show ?thesis by (simp add: upt_conv_Cons flow_step_ok_def)
  next
    case False
    with Suc.hyps(2) have "b = Suc a" by simp
    then show ?thesis by simp
  qed
qed simp

text \<open>A stream of RDP packets numbered by 16-bit counters, across wraps.\<close>

lemma rdp_stream_keys:
  assumes "f_is_rdp f" and "flow_ok ks" and "ks \<noteq> [] \<longrightarrow> hd ks < 65536" and "\<forall>k \<in> set ks. k < 2 ^ 48"
  shows "map unat (flow_indices (ci_flow_tracker_init_ovh mtu ovh) (map (\<lambda>i. (f, ci_gen_payload (word_of_nat i))) ks)) = ks"
proof (cases ks)
  case (Cons q qs)
  let ?t = "ci_flow_tracker_init_ovh mtu ovh" and ?pk = "rdp_packet f [0xDE, 0xAD, 0xBE] CI_RDP_ACK 0"
  have p: "(f, ci_gen_payload (word_of_nat i)) = ?pk i" for i
    by (simp only: rdp_packet_def ci_gen_payload_eq seq_of_def)
  obtain i t' where s: "ci_flow_index_body f (Some ([0xDE, 0xAD, 0xBE] @ rdp_trailer CI_RDP_ACK (seq_of q) 0)) ?t = (i, t')"
    by fastforce
  from flow_index_first [OF assms(1) _ _ _ s] have i: "unat i = q \<and> tracks q t'"
    using assms(3) Cons by (simp add: ci_flow_tracker_init_ovh_def)
  have "map unat (flow_indices t' (map ?pk qs)) = qs"
    using assms i Cons by (intro flow_indices_tracked [of f q]) auto
  with i s show ?thesis unfolding p Cons by (simp add: rdp_packet_def [abs_def])
qed simp

text \<open>A stream of DTP fragments.\<close>

lemma dtp_stream_keys:
  assumes "\<not> f_is_rdp f" and "overhead < mtu" and "\<forall>i \<in> set ks. i * (unat mtu - unat overhead) < 2 ^ 32"
    and "t_dtp_mtu t = mtu" and "t_dtp_overhead t = overhead"
  shows "map unat (flow_indices t (map (\<lambda>i. (f, ci_gen_dtp_payload (ucast (mtu - overhead)) (word_of_nat i))) ks)) = ks"
  using assms(3)
proof (induction ks)
  case (Cons i ks)
  note k = dtp_fragment_key [OF assms(2) _ assms(1,4,5), of i]
  from Cons k show ?case by (simp add: case_prod_beta Let_def)
qed simp

lemma offsets_fit: "n * d \<le> 2 ^ 32 \<Longrightarrow> i < n \<Longrightarrow> 0 < d \<Longrightarrow> i * d < (2 ^ 32 :: nat)"
  using mult_less_mono1 [of i n d] by linarith

text \<open>The frames of the two streams.\<close>

lemma gen_payload_trailer:
  "ci_rdp_parse_trailer (Some (ci_gen_payload v)) = Some \<lparr>h_flags = CI_RDP_ACK AND CI_RDP_FLAG_MASK, h_seq = v, h_ack = 0\<rparr>"
  by (simp only: ci_gen_payload_eq parse_trailer_append)

lemma bench_frame:
  "packet_frame (bench_packet src dst dport 0 data) = ci_frame_from_fields dport 0 None"
  "packet_frame (bench_packet src dst dport CI_CSP_FRDP (ci_gen_payload v)) =
     ci_frame_from_fields dport CI_CSP_FRDP (Some (ci_gen_payload 0))"
  by (simp_all add: bench_packet_def packet_frame_def ci_frame_from_fields_def const_defs gen_payload_trailer)

lemma bench_frame_is_rdp:
  "\<not> f_is_rdp (ci_frame_from_fields dport 0 d)" "f_is_rdp (ci_frame_from_fields dport CI_CSP_FRDP d)"
  by (simp_all add: ci_frame_from_fields_def const_defs)

lemma bench_in_scope:
  "\<not> r_match_rdp_syn r \<Longrightarrow> r_match_dport r = dport \<Longrightarrow> in_scope r (bench_packet src dst (word_of_int dport) fl data)"
  by (simp add: in_scope_def packet_frame_def ci_rule_match_def bench_packet_def ci_frame_from_fields_def Let_def)

text \<open>The byte offset increment, computed in \<open>int\<close> by the senders and in 16 bits by the trackers.\<close>

lemma step_width:
  assumes "0 \<le> ovh" and "ovh < mtu" and "mtu < 65536"
  shows "unat (word_of_int mtu :: u16) = nat mtu" and "unat (word_of_int ovh :: u16) = nat ovh"
    and "(word_of_int ovh :: u16) < word_of_int mtu"
    and "(ucast (word_of_int mtu - word_of_int ovh :: u16) :: u32) = word_of_int (mtu - ovh)"
proof -
  let ?m = "word_of_int mtu :: u16" and ?o = "word_of_int ovh :: u16"
  have u: "uint ?m = mtu" "uint ?o = ovh" using assms by (simp_all add: unsigned_of_int take_bit_int_eq_self)
  then show "unat ?m = nat mtu" "unat ?o = nat ovh" by (metis nat_uint_eq)+
  show "?o < ?m" using u assms by (simp add: word_less_def)
  have "uint (?m - ?o) = mtu - ovh" using u assms by (simp add: uint_sub_lem [THEN iffD1])
  then show "(ucast (?m - ?o) :: u32) = word_of_int (mtu - ovh)" by (simp only: ucast_eq)
qed

text \<open>The reference rows for a selection of the packets of a stream.\<close>

lemma gen_dtp_keys:
  assumes "map snd es = map (\<lambda>i. bench_packet src dst 8 0 (ci_gen_dtp_payload (word_of_int (mtu - ovh)) (word_of_nat i))) ks"
    and "r_match_dport r = 8" and "\<not> r_match_rdp_syn r" and "0 \<le> ovh" and "ovh < mtu" and "mtu < 65536"
    and "\<forall>i \<in> set ks. i * nat (mtu - ovh) < 2 ^ 32"
  shows "map (unat \<circ> d_index) (drop_rows r (ci_flow_tracker_init_ovh (word_of_int mtu) (word_of_int ovh)) es) = ks"
proof (rule stream_rows_keys [OF assms(1)])
  let ?m = "word_of_int mtu :: u16" and ?o = "word_of_int ovh :: u16" and ?f = "ci_frame_from_fields 8 0 None"
  note w = step_width [OF assms(4-6)]
  let ?view = "\<lambda>i. (?f, ci_gen_dtp_payload (ucast (?m - ?o)) (word_of_nat i))"
  let ?pk = "\<lambda>i. bench_packet src dst 8 0 (ci_gen_dtp_payload (word_of_int (mtu - ovh)) (word_of_nat i))"
  show "\<forall>k \<in> set ks. in_scope r (?pk k)" using bench_in_scope [OF assms(3,2)] by simp
  show "\<forall>k \<in> set ks. (packet_frame (?pk k), c_data (?pk k)) = ?view k"
    by (simp add: w(4) bench_frame) (simp add: bench_packet_def)
  show "map unat (flow_indices (ci_flow_tracker_init_ovh ?m ?o) (map ?view ks)) = ks"
    using w assms(4-7)
    by (intro dtp_stream_keys) (simp_all add: bench_frame_is_rdp ci_flow_tracker_init_ovh_def nat_diff_distrib)
qed

lemma gen_rdp_keys:
  assumes "map snd es = map (\<lambda>i. bench_packet src dst (word_of_int dport) CI_CSP_FRDP (ci_gen_payload (word_of_nat i))) ks"
    and "r_match_dport r = dport" and "\<not> r_match_rdp_syn r"
    and "flow_ok ks" and "ks \<noteq> [] \<longrightarrow> hd ks < 65536" and "\<forall>k \<in> set ks. k < 2 ^ 48"
  shows "map (unat \<circ> d_index) (drop_rows r (ci_flow_tracker_init_ovh mtu ovh) es) = ks"
proof (rule stream_rows_keys [OF assms(1)])
  let ?f = "ci_frame_from_fields (word_of_int dport) CI_CSP_FRDP (Some (ci_gen_payload 0))"
  let ?pk = "\<lambda>i. bench_packet src dst (word_of_int dport) CI_CSP_FRDP (ci_gen_payload (word_of_nat i))"
  let ?view = "\<lambda>i. (?f, ci_gen_payload (word_of_nat i))"
  show "\<forall>k \<in> set ks. in_scope r (?pk k)" using bench_in_scope [OF assms(3,2)] by simp
  show "\<forall>k \<in> set ks. (packet_frame (?pk k), c_data (?pk k)) = ?view k"
    by (simp add: bench_frame) (simp add: bench_packet_def)
  show "map unat (flow_indices (ci_flow_tracker_init_ovh mtu ovh) (map ?view ks)) = ks"
    by (rule rdp_stream_keys [OF bench_frame_is_rdp(2) assms(4-6)])
qed

section \<open>A run of the sender\<close>

text \<open>The loop sends a prefix of the stream through the shim, all of it if no buffer is missing.\<close>

lemma can_loop_run:
  "\<exists>k \<le> n. ((\<forall>j \<ge> c. got j) \<longrightarrow> k = n) \<and>
    can_loop stk got ms dst pk n i c buf sw = (i + k, snd (shim_run stk (map (\<lambda>j. (ms j, pk j, dst, 1)) [i..<i + k]) sw))"
proof (induction n arbitrary: i c buf sw)
  case (Suc n)
  obtain rc sw1 where nx: "ci_drop_iface_nexthop stk (ms i) dst (pk i) 1 sw = (rc, sw1)" by (metis surj_pair)
  show ?case
  proof (cases "buf \<or> got c")
    case True
    let ?c = "if buf then c else c + 1"
    obtain k where k: "k \<le> n" "(\<forall>j \<ge> ?c. got j) \<longrightarrow> k = n"
      "can_loop stk got ms dst pk n (i + 1) ?c False sw1 =
         (i + 1 + k, snd (shim_run stk (map (\<lambda>j. (ms j, pk j, dst, 1)) [i + 1..<i + 1 + k]) sw1))"
      using Suc.IH [where c = ?c and buf = False and i = "i + 1" and sw = sw1] by auto
    have "[i..<i + Suc k] = i # [i + 1..<i + 1 + k]" by (simp add: upt_conv_Cons)
    with k True nx show ?thesis
      by (intro exI [of _ "Suc k"]) (auto simp: case_prod_beta Let_def)
  next
    case False
    then show ?thesis by (intro exI [of _ 0]) auto
  qed
qed simp

lemma can_start_fields:
  assumes "can_start opened log_ok sp args = Inr s" and "\<not> 0 < argv_or args 9 atof 0"
  shows "\<exists>ifc. ci_drop_iface_init (Some ''CANDROP'') ifc (Some (can_rule args)) (word_of_int (argv_or args 5 atoi 200))
      (map_option (\<lambda>_. []) (if 8 < length args then Some (args ! 8) else None)) (Some sp) = (0, Some s)"
  using assms
  by (auto simp: can_start_def ci_drop_iface_init_def Let_def split: if_splits prod.splits option.splits)

lemma can_in_scope: "in_scope (can_rule args) (can_packet addr dst (argv_or args 3 atoi 13) mtu i)"
proof -
  have "\<not> r_match_rdp_syn (can_rule args)" "r_match_dport (can_rule args) = argv_or args 3 atoi 13"
    by (simp_all add: can_rule_def)
  from bench_in_scope [OF this] show ?thesis unfolding can_packet_def Let_def by (simp only: if_split simp_thms)
qed

text \<open>The reference rows for the sender's stream.\<close>

lemma can_rows_keys:
  assumes "dport = argv_or args 3 atoi 13" and "mtu = argv_or args 5 atoi 200" and "k \<le> 2 ^ 48"
    and "dport = 8 \<longrightarrow> 4 < mtu \<and> mtu < 65536 \<and> k * nat (mtu - 4) \<le> 2 ^ 32"
  shows "map (unat \<circ> d_index) (drop_rows (can_rule args) (ci_flow_tracker_init (word_of_int mtu))
      (map (\<lambda>i. (ms i, can_packet addr dst dport mtu i)) [0..<k])) = [0..<k]"
proof (cases "dport = 8")
  case True
  with assms(4) have h: "4 < mtu" "mtu < 65536" "k * nat (mtu - 4) \<le> 2 ^ 32" by auto
  have "map (unat \<circ> d_index) (drop_rows (can_rule args) (ci_flow_tracker_init_ovh (word_of_int mtu) (word_of_int 4))
      (map (\<lambda>i. (ms i, can_packet addr dst dport mtu i)) [0..<k])) = [0..<k]"
    using True assms(1) h offsets_fit [OF h(3)]
    by (intro gen_dtp_keys [of _ addr dst]) (simp_all add: can_packet_def can_rule_def const_defs)
  then show ?thesis by (simp add: ci_flow_tracker_init_def const_defs)
next
  case False
  then show ?thesis unfolding ci_flow_tracker_init_def
    using assms(1,3) flow_ok_upt [of 0 k]
    by (intro gen_rdp_keys [of _ addr dst dport]) (simp_all add: can_packet_def can_rule_def const_defs)
qed

text \<open>A shim in the identity mode, over packets in scope that are keyed by their numbers.\<close>

lemma numbered_run:
  assumes s: "i_rule s = r" "i_drop_log s = Some []" "\<not> i_per_attempt s"
    and "\<forall>e \<in> set txs. in_scope r (fst (snd e))"
    and keys: "map (unat \<circ> d_index) (drop_rows r (i_tracker s) (map tx_view txs)) = [0..<k]"
  shows "\<exists>rows. snd (shim_run stk txs (s, w)) = (fold shim_step txs s,
      snd (wire_run stk (zip (map (\<lambda>i. ci_rule_decide (Some r) (word_of_nat i)) [0..<k]) txs) w)) \<and>
    i_drop_log (fold shim_step txs s) = Some rows \<and> map (unat \<circ> d_index) rows = [0..<k] \<and>
    map d_dropped rows = map (\<lambda>i. ci_rule_decide (Some r) (word_of_nat i)) [0..<k]"
proof -
  let ?rows = "drop_rows r (i_tracker s) (map tx_view txs)"
  note dec = drop_rows_numbered [OF keys]
  have log: "i_drop_log (fold shim_step txs s) = Some ?rows"
    using shim.run_rows [of s txs] shim.run_ok [of s txs] s by auto
  obtain rows where e: "shim_effect s txs rows" using shim_effect_ex by blast
  then have rows: "rows = ?rows" using log s by (simp add: shim_effect_def Let_def)
  have "length ?rows = length txs" using e s assms(4) unfolding rows by (simp add: shim_effect_def Let_def n_scope_def)
  then have "shim_verdicts txs s = map d_dropped ?rows"
    using e s assms(4) scope_verdicts_all [of "map d_dropped ?rows" "map (fst \<circ> snd) txs" r] unfolding rows
    by (simp add: shim_effect_def Let_def)
  then have "snd (shim_run stk txs (s, w)) = (fold shim_step txs s, snd (wire_run stk (zip (map d_dropped ?rows) txs) w))"
    by (simp add: shim_run_eq split: prod.split)
  with dec log keys show ?thesis by auto
qed

section \<open>Properties\<close>

text \<open>
  Property C19. The drop log of a CAN bench run is a function of the command line. Without a burst
  length, the sender sends the packets \<open>0, 1, ..., k - 1\<close>, all of them unless the pool runs out of
  buffers; the keys in the log are exactly these numbers, for RDP across every wrap of the sequence
  number and for DTP as long as the byte offsets fit 32 bits; the decision in row \<open>i\<close> is the rule's
  decision on \<open>i\<close>; and the CAN interface is driven as by a sender that skips exactly the packets
  that the log calls dropped.
\<close>

theorem can_bench_log:
  assumes "can_start opened log_ok sp args = Inr s" and "8 < length args" and "\<not> 0 < argv_or args 9 atof 0"
    and "dport = argv_or args 3 atoi 13" and "mtu = argv_or args 5 atoi 200" and "count = nat (argv_or args 4 atoi 500)"
    and "count \<le> 2 ^ 31" and "dport = 8 \<longrightarrow> 4 < mtu \<and> mtu < 65536 \<and> count * nat (mtu - 4) \<le> 2 ^ 32"
  shows "\<exists>k rows s' txs. k \<le> count \<and> ((\<forall>c. got c) \<longrightarrow> k = count) \<and>
    ci_inject_can stk got ms args (s, w) =
      (k, s', snd (wire_run stk (zip (map (\<lambda>i. ci_rule_decide (Some (can_rule args)) (word_of_nat i)) [0..<k]) txs) w)) \<and>
    map (fst \<circ> snd) txs = map (can_packet (argv_or args 1 (\<lambda>a. word_of_int (atoi a)) 10)
      (argv_or args 2 (\<lambda>a. word_of_int (atoi a)) 20) dport mtu) [0..<k] \<and>
    i_drop_log s' = Some rows \<and> map (unat \<circ> d_index) rows = [0..<k] \<and>
    map d_dropped rows = map (\<lambda>i. ci_rule_decide (Some (can_rule args)) (word_of_nat i)) [0..<k]"
proof -
  let ?addr = "argv_or args 1 (\<lambda>a. word_of_int (atoi a)) 10 :: u16"
    and ?dst = "argv_or args 2 (\<lambda>a. word_of_int (atoi a)) 20 :: u16"
  let ?pk = "can_packet ?addr ?dst dport mtu" and ?r = "can_rule args"
  obtain k where k: "k \<le> count" "(\<forall>j \<ge> 1. got j) \<longrightarrow> k = count"
    "ci_inject_can stk got ms args (s, w) = (k, snd (shim_run stk (map (\<lambda>j. (ms j, ?pk j, ?dst, 1)) [0..<k]) (s, w)))"
    using can_loop_run [where n = count and c = 1 and got = got and i = 0 and buf = "got 0" and stk = stk and ms = ms
        and dst = ?dst and pk = ?pk and sw = "(s, w)"]
    by (auto simp: ci_inject_can_def assms(4-6) Let_def)
  define txs where "txs = map (\<lambda>j. (ms j, ?pk j, ?dst, 1 :: int)) [0..<k]"
  obtain ifc where init: "ci_drop_iface_init (Some ''CANDROP'') ifc (Some ?r) (word_of_int mtu) (Some []) (Some sp) = (0, Some s)"
    using can_start_fields [OF assms(1,3)] assms(2,5) by auto
  then have s: "i_rule s = ?r" "i_drop_log s = Some []" "\<not> i_per_attempt s" "i_tracker s = ci_flow_tracker_init (word_of_int mtu)"
    by (auto simp: ci_drop_iface_init_def split: option.splits)
  have "map tx_view txs = map (\<lambda>i. (ms i, ?pk i)) [0..<k]" by (simp add: txs_def tx_view_def)
  moreover have "dport = 8 \<longrightarrow> 4 < mtu \<and> mtu < 65536 \<and> k * nat (mtu - 4) \<le> 2 ^ 32"
    using assms(8) k(1) mult_le_mono1 [OF k(1), of "nat (mtu - 4)"] by linarith
  ultimately have keys: "map (unat \<circ> d_index) (drop_rows ?r (i_tracker s) (map tx_view txs)) = [0..<k]"
    using can_rows_keys [OF assms(4,5), of k ms ?addr ?dst] k(1) assms(7) s(4) by simp
  have sc: "\<forall>e \<in> set txs. in_scope ?r (fst (snd e))" using can_in_scope by (auto simp: txs_def assms(4))
  note run = numbered_run [OF s(1-3) sc keys, of stk w]
  have "map (fst \<circ> snd) txs = map ?pk [0..<k]" by (simp add: txs_def)
  with k run show ?thesis unfolding txs_def [symmetric] by fastforce
qed

definition demo_can_args :: "string list" where
  "demo_can_args = [''vcan0'', ''10'', ''20'', ''8'', ''3'', ''200'', ''0.5'', ''1'', ''d.csv'']"

definition demo_can_shim :: ci_drop_iface where
  "demo_can_shim = (case can_start (0, Some plain_iface) True (fresh_shim (can_rule [])) demo_can_args of
     Inr s \<Rightarrow> s | Inl rc \<Rightarrow> fresh_shim (can_rule []))"

theorem can_bench_log_witness:
  "\<exists>s' w rows. ci_inject_can recorder (\<lambda>c. True) (\<lambda>i. 5) demo_can_args (demo_can_shim, [], []) = (3, s', w) \<and>
    i_drop_log s' = Some rows \<and> map (unat \<circ> d_index) rows = [0, 1, 2] \<and>
    map d_dropped rows = map (\<lambda>i. ci_rule_decide (Some (can_rule demo_can_args)) (word_of_nat i)) [0, 1, 2]"
proof -
  have st: "can_start (0, Some plain_iface) True (fresh_shim (can_rule [])) demo_can_args = Inr demo_can_shim" by code_simp
  have a: "8 < length demo_can_args" "\<not> 0 < argv_or demo_can_args 9 atof 0" "argv_or demo_can_args 3 atoi 13 = 8"
    "argv_or demo_can_args 5 atoi 200 = 200" "nat (argv_or demo_can_args 4 atoi 500) = 3"
    by code_simp+
  have u: "[0..<3] = [0, 1, 2 :: nat]" by code_simp
  from can_bench_log [OF st a(1,2) refl refl refl, of "\<lambda>c. True" recorder "\<lambda>i. 5" "([], [])"]
  show ?thesis unfolding a using u by fastforce
qed

section \<open>The generators\<close>

text \<open>
  The reference rows for the stream of a generator: the keys are the packet numbers for a log that
  is set up with the same MTU and overhead (DTP), and for every set-up (RDP).
\<close>

lemma ci_gen_dtp_rows:
  assumes "ci_gen_dtp conn_ok alloc args = (0, ps)" and "map snd es = ps"
    and "r_match_dport r = 8" and "\<not> r_match_rdp_syn r"
    and "mtu = argv_or args 2 atoi 200" and "ovh = argv_or args 3 atoi 4" and "mtu < 65536"
    and "length ps * nat (mtu - ovh) \<le> 2 ^ 32"
  shows "map (unat \<circ> d_index) (drop_rows r (ci_flow_tracker_init_ovh (word_of_int mtu) (word_of_int ovh)) es) = [0..<length ps]"
proof -
  let ?m = "word_of_int mtu :: u16" and ?o = "word_of_int ovh :: u16" and ?f = "ci_frame_from_fields 8 0 None"
  let ?pk = "\<lambda>i. bench_packet 10 20 8 0 (ci_gen_dtp_payload (word_of_int (mtu - ovh)) (word_of_nat i))"
  have h: "4 \<le> ovh" "ovh < mtu" "ps = map ?pk [0..<length ps]"
    using assms(1) unfolding assms(5,6) by (auto simp: ci_gen_dtp_def Let_def const_defs split: if_splits)
  show ?thesis
    by (rule gen_dtp_keys) (use assms h offsets_fit [OF assms(8)] in auto)
qed

end
