(* ===== verification/CI_Text.thy ===== *)
theory CI_Text
  imports CI_Libc
begin

text \<open>
  The text of comma-separated files: numbers as \<open>printf\<close> prints them, rows joined from fields, and
  splitting at a character.
\<close>

section \<open>Numbers and rows\<close>

function show_hex :: "nat \<Rightarrow> string" where
  "show_hex n = (if n < 16 then [digit_char n] else show_hex (n div 16) @ [digit_char (n mod 16)])"
  by pat_completeness auto
termination by (relation "measure (\<lambda>n. n)") auto

declare show_hex.simps [simp del]

definition show_int :: "int \<Rightarrow> string" where
  "show_int i = (if i < 0 then CHR ''-'' # show_dec (nat (- i)) else show_dec (nat i))"

text \<open>The fields of a row, joined by commas.\<close>

fun join_fields :: "string list \<Rightarrow> string" where
  "join_fields [] = []"
| "join_fields [f] = f"
| "join_fields (f # fs) = f @ CHR '','' # join_fields fs"

section \<open>Splitting\<close>

fun split_on :: "char \<Rightarrow> string \<Rightarrow> string list" where
  "split_on c [] = [[]]"
| "split_on c (x # xs) =
     (if x = c then [] # split_on c xs
      else case split_on c xs of y # ys \<Rightarrow> (x # y) # ys | [] \<Rightarrow> [[x]])"

lemma split_on_not_Nil [simp]: "split_on c s \<noteq> []"
  by (induction c s rule: split_on.induct) (auto split: list.split)

lemma split_on_plain: "c \<notin> set s \<Longrightarrow> split_on c s = [s]"
  by (induction c s rule: split_on.induct) auto

lemma split_on_append: "c \<notin> set s \<Longrightarrow> split_on c (s @ c # t) = s # split_on c t"
  by (induction s) auto

lemma split_join_fields:
  "fs \<noteq> [] \<Longrightarrow> \<forall>f \<in> set fs. CHR '','' \<notin> set f \<Longrightarrow> split_on (CHR '','') (join_fields fs) = fs"
  by (induction fs rule: join_fields.induct) (simp_all add: split_on_plain split_on_append)

lemma split_lines:
  "\<forall>l \<in> set ls. CHR 0x0A \<notin> set l \<Longrightarrow> split_on (CHR 0x0A) (concat (map (\<lambda>l. l @ [CHR 0x0A]) ls)) = ls @ [[]]"
  by (induction ls) (simp_all add: split_on_append)

lemma set_join_fields: "set (join_fields fs) \<subseteq> insert (CHR '','') (\<Union>f \<in> set fs. set f)"
  by (induction fs rule: join_fields.induct) auto

text \<open>Fields hold neither commas nor newlines.\<close>

definition plain :: "string \<Rightarrow> bool" where
  "plain f \<longleftrightarrow> CHR '','' \<notin> set f \<and> CHR 0x0A \<notin> set f"

lemma plain_simps [simp]:
  "plain []" "plain (x @ y) \<longleftrightarrow> plain x \<and> plain y"
  "plain (c # y) \<longleftrightarrow> c \<noteq> CHR '','' \<and> c \<noteq> CHR 0x0A \<and> plain y"
  by (auto simp: plain_def)

lemma plain_digit_char: "d < 16 \<Longrightarrow> plain [digit_char d]"
proof -
  have "\<forall>c \<in> set ''0123456789ABCDEF''. plain [c]" by simp
  then show "d < 16 \<Longrightarrow> plain [digit_char d]" using digit_char_cases by blast
qed

lemma plain_show_dec [simp]: "plain (show_dec n)"
proof (induction n rule: show_dec.induct)
  case (1 n)
  have "n mod 10 < 16" using mod_less_divisor [of 10 n] by linarith
  with 1 show ?case using plain_digit_char [of n] plain_digit_char [of "n mod 10"]
    by (subst show_dec.simps) simp
qed

lemma plain_show_hex [simp]: "plain (show_hex n)"
proof (induction n rule: show_hex.induct)
  case (1 n)
  then show ?case using plain_digit_char [of n] plain_digit_char [of "n mod 16"]
    by (subst show_hex.simps) simp
qed

lemma plain_show_hex2 [simp]: "plain (show_hex2 b)"
proof -
  have "unat b < 256" by simp
  then have "unat b div 16 < 16" by linarith
  then show ?thesis
    using plain_digit_char [of "unat b div 16"] plain_digit_char [of "unat b mod 16"] by (simp add: show_hex2_def)
qed

lemma plain_show_int [simp]: "plain (show_int i)"
  by (simp add: show_int_def)

lemma join_fields_newline: "\<forall>f \<in> set fs. plain f \<Longrightarrow> CHR 0x0A \<notin> set (join_fields fs)"
  by (induction fs rule: join_fields.induct) (auto simp: plain_def)

end
