(* ===== verification/CI_Two_Oracle.thy ===== *)
theory CI_Two_Oracle
  imports CI_Text CI_Bench CI_Monitor PX_Proxy "HOL-Library.Sublist" "HOL-Library.Multiset"
begin

text \<open>
  The two-oracle loop: a generator publishes a numbered stream through the lossy proxy, the monitor
  captures what the proxy forwards, and \<open>src/tests/e2e/two_oracle.sh\<close> (for DTP: \<open>two_oracle_dtp.sh\<close>)
  joins the text of the proxy's drop log with the text of the monitor's CSV. The theory adds the CSV
  text that \<open>src/apm/csp_monitor_apm.c\<close> prints and the join, and shows what verdict a run gets.
\<close>

section \<open>The text of the monitor's CSV\<close>

definition mon_header_lines :: "string list" where
  "mon_header_lines =
     [''# per-packet: t_ms,src,dst,dport,csp_flags,is_rdp,rdp_flags,rdp_seq,rdp_ack,dtp_offset,dtp_frag,rtt_paired,rtt_ms'',
      ''# window: #WINDOW,t_ms,conn_ovf_delta,buffer_out_delta,buffer_remaining,inferred_loss,dups,reorders,suspect,suspect_flags'',
      ''#   note: *_delta are per-window; inferred_loss/dups/reorders are cumulative run totals'']"

fun mon_row_lines :: "mon_row \<Rightarrow> string list" where
  "mon_row_lines Header = mon_header_lines"
| "mon_row_lines (Rdp_Row t src dst dport fl hfl sq ack paired rtt) =
     [join_fields [show_dec (unat t), show_dec (unat src), show_dec (unat dst), show_dec (unat dport),
        ''0x'' @ show_hex2 fl, ''1'', ''0x'' @ show_hex2 hfl, show_dec (unat sq), show_dec (unat ack), [], [],
        show_dec (of_bool paired), show_dec (unat rtt)]]"
| "mon_row_lines (Dtp_Row t src dst dport fl off frag) =
     [join_fields [show_dec (unat t), show_dec (unat src), show_dec (unat dst), show_dec (unat dport),
        ''0x'' @ show_hex2 fl, ''0'', [], [], [], show_dec (unat off), show_dec (unat frag), [], []]]"
| "mon_row_lines (Window_Row now ovf bout left loss dup ro suspect flags) =
     [join_fields [''#WINDOW'', show_dec (unat now), show_dec (unat ovf), show_dec (unat bout), show_int left,
        show_dec (unat loss), show_dec (unat dup), show_dec (unat ro), show_dec (of_bool suspect),
        ''0x'' @ show_hex (unat flags)]]"

definition mon_csv_text :: "mon_row list \<Rightarrow> string" where
  "mon_csv_text rows = concat (map (\<lambda>l. l @ [CHR 0x0A]) (concat (map mon_row_lines rows)))"

definition drop_log_text :: "drop_row list \<Rightarrow> string" where
  "drop_log_text rows =
     ''# t_ms,src,dport,csp_flags,is_rdp,index,epoch,dropped'' @ [CHR 0x0A] @ concat (map drop_log_line rows)"

section \<open>awk\<close>

text \<open>The records of a file are its lines; a file that ends with a newline has no record after it.\<close>

definition awk_records :: "string \<Rightarrow> string list" where
  "awk_records s = (let ls = split_on (CHR 0x0A) s in if last ls = [] then butlast ls else ls)"

text \<open>
  Field \<open>k\<close> of a record with \<open>-F,\<close>, and its comparison with a number: as numbers if the field looks
  like one (here: digits), as strings otherwise; a field that does not exist counts as 0.
\<close>

definition awk_field :: "nat \<Rightarrow> string \<Rightarrow> string option" where
  "awk_field k s = (let fs = split_on (CHR '','') s in if k \<le> length fs then Some (fs ! (k - 1)) else None)"

definition awk_eq :: "string option \<Rightarrow> nat \<Rightarrow> bool" where
  "awk_eq f n = (case f of None \<Rightarrow> n = 0
     | Some s \<Rightarrow> if s \<noteq> [] \<and> list_all is_digit s then digits_val s = int n else s = show_dec n)"

text \<open>\<open>awk -F, '$a==n {print $b}'\<close>, where a field that does not exist is printed empty.\<close>

definition awk_select :: "nat \<Rightarrow> nat \<Rightarrow> nat \<Rightarrow> string list \<Rightarrow> string list" where
  "awk_select a n b recs = map (\<lambda>s. case awk_field b s of Some f \<Rightarrow> f | None \<Rightarrow> []) (filter (\<lambda>s. awk_eq (awk_field a s) n) recs)"

section \<open>The join\<close>

datatype join_verdict = Dropped_Nothing | Observed_Nothing | Disagree nat | Too_Few nat | Missed nat nat | Loop_Pass

text \<open>
  The first awk program over two files: \<open>FNR == NR\<close> holds for the records of the first file, and for
  those of the second if the first is empty.
\<close>

definition join_overlap :: "string list \<Rightarrow> string list \<Rightarrow> join_verdict option" where
  "join_overlap dropped_idx observed_idx =
     (let (dropped, observed) = (if dropped_idx = [] then (observed_idx, []) else (dropped_idx, observed_idx));
          nd = length dropped; no = length observed;
          overlap = length (filter (\<lambda>s. s \<in> set observed) (remdups dropped))
      in if nd = 0 then Some Dropped_Nothing
         else if no = 0 then Some Observed_Nothing
         else if overlap > 0 then Some (Disagree overlap)
         else None)"

definition join_common :: "string list \<Rightarrow> string list \<Rightarrow> nat" where
  "join_common kept_idx observed_idx =
     (if kept_idx = [] then 0 else length (filter (\<lambda>s. s \<in> set kept_idx) observed_idx))"

text \<open>
  The whole join: \<open>sortn\<close> is \<open>sort -n\<close>, \<open>col\<close> and \<open>rdp\<close> are the column that is compared in the capture
  and the value of its column \<open>is_rdp\<close> (8 and 1 in \<open>two_oracle.sh\<close>, 11 and 0 in \<open>two_oracle_dtp.sh\<close>).
\<close>

definition two_oracle_join :: "(string list \<Rightarrow> string list) \<Rightarrow> nat \<Rightarrow> nat \<Rightarrow> string \<Rightarrow> string \<Rightarrow> join_verdict" where
  "two_oracle_join sortn rdp col drop_csv apm_csv =
     (let dropped_idx = sortn (awk_select 8 1 6 (awk_records drop_csv));
          kept_idx = sortn (awk_select 8 0 6 (awk_records drop_csv));
          observed_idx = sortn (awk_select 6 rdp col (filter (\<lambda>s. \<not> (s \<noteq> [] \<and> hd s = CHR ''#'')) (awk_records apm_csv)))
      in case join_overlap dropped_idx observed_idx of
           Some v \<Rightarrow> v
         | None \<Rightarrow>
             (let common = join_common kept_idx observed_idx; kept = length kept_idx
              in if kept < 100 then Too_Few kept
                 else if common < kept * 90 div 100 then Missed common kept
                 else Loop_Pass))"

section \<open>Lemmas on the text\<close>

lemma awk_records_lines:
  "\<forall>l \<in> set ls. CHR 0x0A \<notin> set l \<Longrightarrow> awk_records (concat (map (\<lambda>l. l @ [CHR 0x0A]) ls)) = ls"
  by (simp add: awk_records_def split_lines Let_def)

lemma awk_field_join:
  assumes "\<forall>f \<in> set fs. plain f" and "1 \<le> k" and "k \<le> length fs"
  shows "awk_field k (join_fields fs) = Some (fs ! (k - 1))"
proof -
  have "fs \<noteq> []" using assms(2,3) by auto
  then have "split_on (CHR '','') (join_fields fs) = fs" using assms(1) by (intro split_join_fields) (auto simp: plain_def)
  then show ?thesis using assms(3) by (simp add: awk_field_def)
qed

lemma awk_eq_show_dec [simp]: "awk_eq (Some (show_dec k)) n \<longleftrightarrow> k = n"
  using show_dec_digits [of k] by (auto simp: awk_eq_def list_all_iff)

lemma awk_eq_digit [simp]: "awk_eq (Some ''0'') n \<longleftrightarrow> n = 0" "awk_eq (Some ''1'') n \<longleftrightarrow> n = 1"
proof -
  have d: "show_dec 0 = ''0''" "show_dec 1 = ''1''" by (simp_all add: show_dec.simps digit_char_def)
  show "awk_eq (Some ''0'') n \<longleftrightarrow> n = 0" using awk_eq_show_dec [of 0 n] unfolding d by auto
  show "awk_eq (Some ''1'') n \<longleftrightarrow> n = 1" using awk_eq_show_dec [of 1 n] unfolding d by auto
qed

subsection \<open>The columns of the drop log\<close>

definition drop_fields :: "drop_row \<Rightarrow> string list" where
  "drop_fields d = [show_dec (unat (d_ms d)), show_dec (unat (d_src d)), show_dec (unat (d_dport d)),
     ''0x'' @ show_hex2 (d_csp_flags d), show_dec (of_bool (d_is_rdp d)), show_dec (unat (d_index d)),
     show_dec (unat (d_epoch d)), show_dec (of_bool (d_dropped d))]"

lemma drop_fields_plain: "\<forall>f \<in> set (drop_fields d). plain f"
  by (simp add: drop_fields_def)

lemma drop_log_records:
  "awk_records (drop_log_text rows) =
     ''# t_ms,src,dport,csp_flags,is_rdp,index,epoch,dropped'' # map (join_fields \<circ> drop_fields) rows"
proof -
  let ?h = "''# t_ms,src,dport,csp_flags,is_rdp,index,epoch,dropped''"
  have "drop_log_text rows = concat (map (\<lambda>l. l @ [CHR 0x0A]) (?h # map (join_fields \<circ> drop_fields) rows))"
    by (simp add: drop_log_text_def drop_log_line_def [abs_def] drop_fields_def comp_def)
  moreover have "\<forall>l \<in> set (?h # map (join_fields \<circ> drop_fields) rows). CHR 0x0A \<notin> set l"
    using join_fields_newline [OF drop_fields_plain] by auto
  ultimately show ?thesis by (simp only: awk_records_lines)
qed

lemma drop_log_header: "\<not> awk_eq (awk_field 8 ''# t_ms,src,dport,csp_flags,is_rdp,index,epoch,dropped'') 1"
  "\<not> awk_eq (awk_field 8 ''# t_ms,src,dport,csp_flags,is_rdp,index,epoch,dropped'') 0"
  by code_simp+

lemma drop_log_columns:
  "awk_select 8 1 6 (awk_records (drop_log_text rows)) = map (show_dec \<circ> unat \<circ> d_index) (filter d_dropped rows)"
  "awk_select 8 0 6 (awk_records (drop_log_text rows)) = map (show_dec \<circ> unat \<circ> d_index) (filter (\<lambda>d. \<not> d_dropped d) rows)"
proof -
  have f: "awk_field 8 (join_fields (drop_fields d)) = Some (show_dec (of_bool (d_dropped d)))"
    "awk_field 6 (join_fields (drop_fields d)) = Some (show_dec (unat (d_index d)))" for d
    using awk_field_join [OF drop_fields_plain, of 8 d] awk_field_join [OF drop_fields_plain, of 6 d]
    by (simp_all add: drop_fields_def)
  show "awk_select 8 1 6 (awk_records (drop_log_text rows)) = map (show_dec \<circ> unat \<circ> d_index) (filter d_dropped rows)"
    "awk_select 8 0 6 (awk_records (drop_log_text rows)) = map (show_dec \<circ> unat \<circ> d_index) (filter (\<lambda>d. \<not> d_dropped d) rows)"
    by (simp_all add: awk_select_def drop_log_records drop_log_header drop_log_header(1) [unfolded One_nat_def] filter_map comp_def f)
qed

subsection \<open>The columns of the capture\<close>

definition observed_idx :: "nat \<Rightarrow> nat \<Rightarrow> string list \<Rightarrow> string list" where
  "observed_idx rdp col recs = awk_select 6 rdp col (filter (\<lambda>s. \<not> (s \<noteq> [] \<and> hd s = CHR ''#'')) recs)"

lemma observed_append [simp]:
  "observed_idx rdp col [] = []" "observed_idx rdp col (xs @ ys) = observed_idx rdp col xs @ observed_idx rdp col ys"
  by (simp_all add: observed_idx_def awk_select_def)

lemma mon_row_newline: "l \<in> set (mon_row_lines r) \<Longrightarrow> CHR 0x0A \<notin> set l"
proof (cases r)
  case Header
  have "\<forall>l \<in> set mon_header_lines. CHR 0x0A \<notin> set l" by code_simp
  then show "l \<in> set (mon_row_lines r) \<Longrightarrow> CHR 0x0A \<notin> set l" using Header by simp
qed (auto simp del: join_fields.simps simp: join_fields_newline)

lemma observed_rows:
  "observed_idx rdp col (awk_records (mon_csv_text rows)) = concat (map (observed_idx rdp col \<circ> mon_row_lines) rows)"
proof -
  have "awk_records (mon_csv_text rows) = concat (map mon_row_lines rows)"
    unfolding mon_csv_text_def using mon_row_newline by (intro awk_records_lines) auto
  moreover have "observed_idx rdp col (concat (map mon_row_lines rows)) =
      concat (map (observed_idx rdp col \<circ> mon_row_lines) rows)" by (induction rows) simp_all
  ultimately show ?thesis by simp
qed

text \<open>What each row contributes to the two kinds of join.\<close>

lemma observed_row:
  "observed_idx rdp col (mon_row_lines Header) = []"
  "observed_idx rdp col (mon_row_lines (Window_Row now ovf bout left loss dup ro suspect flags)) = []"
  "observed_idx 1 8 (mon_row_lines (Rdp_Row t src dst dport fl hfl sq ack paired rtt)) = [show_dec (unat sq)]"
  "observed_idx 0 11 (mon_row_lines (Rdp_Row t src dst dport fl hfl sq ack paired rtt)) = []"
  "observed_idx 1 8 (mon_row_lines (Dtp_Row t src dst dport fl off frag)) = []"
  "observed_idx 0 11 (mon_row_lines (Dtp_Row t src dst dport fl off frag)) = [show_dec (unat frag)]"
proof -
  show "observed_idx rdp col (mon_row_lines Header) = []"
    by (simp add: mon_header_lines_def observed_idx_def awk_select_def)
  show "observed_idx rdp col (mon_row_lines (Window_Row now ovf bout left loss dup ro suspect flags)) = []"
    by (simp add: observed_idx_def awk_select_def)
  have h: "hd (join_fields (show_dec n # f # fs)) \<noteq> CHR ''#''" "join_fields (show_dec n # f # fs) \<noteq> []" for n f fs
  proof -
    obtain c cs where c: "show_dec n = c # cs" by (cases "show_dec n") simp_all
    then have "is_digit c" using show_dec_digits [of n] by auto
    with c show "hd (join_fields (show_dec n # f # fs)) \<noteq> CHR ''#''" by (auto simp: is_digit_def)
    show "join_fields (show_dec n # f # fs) \<noteq> []" by simp
  qed
  let ?r = "[show_dec (unat t), show_dec (unat src), show_dec (unat dst), show_dec (unat dport),
        ''0x'' @ show_hex2 fl, ''1'', ''0x'' @ show_hex2 hfl, show_dec (unat sq), show_dec (unat ack), [], [],
        show_dec (of_bool paired), show_dec (unat rtt)]"
  have r: "awk_field 6 (join_fields ?r) = Some ''1''" "awk_field 8 (join_fields ?r) = Some (show_dec (unat sq))"
    using awk_field_join [of ?r 6] awk_field_join [of ?r 8] by (simp_all del: join_fields.simps)
  let ?d = "[show_dec (unat t), show_dec (unat src), show_dec (unat dst), show_dec (unat dport),
        ''0x'' @ show_hex2 fl, ''0'', [], [], [], show_dec (unat off), show_dec (unat frag), [], []]"
  have d: "awk_field 6 (join_fields ?d) = Some ''0''" "awk_field 11 (join_fields ?d) = Some (show_dec (unat frag))"
    using awk_field_join [of ?d 6] awk_field_join [of ?d 11] by (simp_all del: join_fields.simps)
  have o: "observed_idx rdp col [join_fields (show_dec n # f # fs)] =
      (let s = join_fields (show_dec n # f # fs)
       in if awk_eq (awk_field 6 s) rdp then [case awk_field col s of Some x \<Rightarrow> x | None \<Rightarrow> []] else [])" for rdp col n f fs
    using h by (simp add: observed_idx_def awk_select_def del: join_fields.simps)
  show "observed_idx 1 8 (mon_row_lines (Rdp_Row t src dst dport fl hfl sq ack paired rtt)) = [show_dec (unat sq)]"
    "observed_idx 0 11 (mon_row_lines (Rdp_Row t src dst dport fl hfl sq ack paired rtt)) = []"
    "observed_idx 1 8 (mon_row_lines (Dtp_Row t src dst dport fl off frag)) = []"
    "observed_idx 0 11 (mon_row_lines (Dtp_Row t src dst dport fl off frag)) = [show_dec (unat frag)]"
    unfolding mon_row_lines.simps o by (simp_all only: r d Let_def awk_eq_digit option.case if_True if_False simp_thms zero_neq_one one_neq_zero)
qed

declare mon_row_lines.simps [simp del]

section \<open>The join of numbered records\<close>

text \<open>The verdict for \<open>nd\<close> dropped, \<open>nk\<close> kept and \<open>no\<close> observed frames when the two records agree.\<close>

definition join_outcome :: "nat \<Rightarrow> nat \<Rightarrow> nat \<Rightarrow> join_verdict" where
  "join_outcome nd nk no =
     (if nd = 0 then (if no = 0 then Dropped_Nothing else Observed_Nothing)
      else if no = 0 then Observed_Nothing
      else if nk < 100 then Too_Few nk
      else if no < nk * 90 div 100 then Missed no nk
      else Loop_Pass)"

lemma show_dec_inj_on: "inj_on show_dec A"
  by (simp add: inj_on_def show_dec_inj)

lemma join_numbers:
  assumes sort: "\<forall>xs. mset (sortn xs) = mset xs"
    and cols: "awk_select 8 1 6 (awk_records drop_csv) = map show_dec ds" "awk_select 8 0 6 (awk_records drop_csv) = map show_dec ks"
      "observed_idx rdp col (awk_records apm_csv) = map show_dec os"
    and sets: "set ds \<inter> set ks = {}" "set os \<subseteq> set ks"
  shows "two_oracle_join sortn rdp col drop_csv apm_csv = join_outcome (length ds) (length ks) (length os)"
proof -
  have st: "set (sortn xs) = set xs" "length (sortn xs) = length xs" for xs
    using sort by (metis set_mset_mset, metis size_mset)
  have len: "sortn xs = [] \<longleftrightarrow> xs = []" for xs using st(2) [of xs] by auto
  have ov: "filter (\<lambda>s. s \<in> show_dec ` set os) (remdups (sortn (map show_dec ds))) = []"
    using sets st(1) [of "map show_dec ds"] by (auto simp: filter_empty_conv show_dec_inj)
  have co: "filter (\<lambda>s. s \<in> show_dec ` set ks) (sortn (map show_dec os)) = sortn (map show_dec os)"
    using sets st(1) [of "map show_dec os"] by (auto simp: filter_id_conv)
  have ks: "ks = [] \<Longrightarrow> os = []" using sets by auto
  show ?thesis
    unfolding two_oracle_join_def cols observed_idx_def [symmetric]
    using ov co ks by (simp add: join_overlap_def join_common_def join_outcome_def st len Let_def)
qed

lemma subseq_map_obtain:
  assumes "subseq xs (map f ys)"
  obtains zs where "xs = map f zs" "subseq zs ys"
proof -
  have "\<exists>zs. xs = map f zs \<and> subseq zs ys" using assms
  proof (induction ys arbitrary: xs)
    case (Cons y ys)
    show ?case
    proof (cases "subseq xs (map f ys)")
      case True
      with Cons.IH obtain zs where "xs = map f zs" "subseq zs ys" by blast
      then show ?thesis by (auto intro: list_emb_Cons)
    next
      case False
      with Cons.prems obtain xs' where x: "xs = f y # xs'" "subseq xs' (map f ys)" by (auto elim: list_emb.cases)
      with Cons.IH obtain zs where "xs' = map f zs" "subseq zs ys" by blast
      with x show ?thesis by (intro exI [of _ "y # zs"]) auto
    qed
  qed (auto dest: list_emb_Nil2)
  with that show thesis by blast
qed

lemma subseq_subset: "subseq xs ys \<Longrightarrow> set xs \<subseteq> set ys"
  by (induction rule: list_emb.induct) auto

lemma subseq_sorted: "subseq xs ys \<Longrightarrow> sorted_wrt R ys \<Longrightarrow> sorted_wrt R xs"
  by (induction rule: list_emb.induct) (auto dest: list_emb_set)

text \<open>A proxy with \<open>-M\<close> and a drop log and without the simulations that draw from \<open>rand\<close>.\<close>

definition deterministic_opts :: "proxy_opts \<Rightarrow> bool" where
  "deterministic_opts opt \<longleftrightarrow> o_match_dport opt \<ge> 0 \<and> o_hdx_node opt = 0 \<and> o_corr_prob opt \<le> 0 \<and> o_delay_prob opt \<le> 0 \<and>
     o_drop_log_name opt \<noteq> None"

section \<open>A numbered stream seen by both oracles\<close>

text \<open>
  The contract between an injector and the monitor on a stream of packets \<open>pk 0, pk 1, ...\<close>: all are in
  the rule's scope, the drop log keys any increasing selection of them by their numbers, and the
  monitor writes one row per packet, in whose compared column the join finds its number.
\<close>

locale oracle_pair =
  fixes r :: ci_drop_rule and t0 :: ci_flow_tracker and pk :: "nat \<Rightarrow> csp_packet" and n :: nat
    and rdp col :: nat and m_ok :: "monitor \<Rightarrow> bool"
  assumes scope: "i < n \<Longrightarrow> in_scope r (pk i)"
    and keys: "sorted_wrt (<) ks \<Longrightarrow> set ks \<subseteq> {..<n} \<Longrightarrow> map snd es = map pk ks \<Longrightarrow>
      map (unat \<circ> d_index) (drop_rows r t0 es) = ks"
    and capture: "m_ok m \<Longrightarrow> i < n \<Longrightarrow> m_ok (mon_packet t (pk i) m) \<and>
      (\<exists>row. m_csv (mon_packet t (pk i) m) = map_option (\<lambda>rows. rows @ [row]) (m_csv m) \<and>
        observed_idx rdp col (mon_row_lines row) = [show_dec i])"
    and window: "m_ok m \<Longrightarrow> m_ok (fst (mon_window inp (m, dr)))"
begin

definition observed :: "monitor \<Rightarrow> string list" where
  "observed m = observed_idx rdp col (awk_records (mon_csv_text (the (m_csv m))))"

lemma observed_window:
  assumes "m_csv m \<noteq> None"
  shows "observed (fst (mon_window inp (m, dr))) = observed m \<and> m_csv (fst (mon_window inp (m, dr))) \<noteq> None"
  using assms by (auto simp: observed_def mon_window_def observed_rows observed_row Let_def case_prod_beta)

lemma observed_packet:
  assumes "m_ok m" and "m_csv m \<noteq> None" and "i < n"
  shows "observed (mon_packet t (pk i) m) = observed m @ [show_dec i] \<and> m_csv (mon_packet t (pk i) m) \<noteq> None"
  using capture [OF assms(1,3), of t] assms(2) by (auto simp: observed_def observed_rows)

lemma capture_run:
  "m_ok m \<Longrightarrow> m_csv m \<noteq> None \<Longrightarrow> List.map_filter in_packet inps = map pk os \<Longrightarrow> set os \<subseteq> {..<n} \<Longrightarrow>
     observed (fst (mon_drainer inps (m, dr))) = observed m @ map show_dec os"
proof (induction inps arbitrary: m dr os)
  case Nil
  then show ?case by (simp add: mon_drainer_def List.map_filter_def)
next
  case (Cons inp inps)
  obtain m' dr' where p: "mon_pass inp (m, dr) = (m', dr')" by fastforce
  define m1 where "m1 = (case in_packet inp of Some pk \<Rightarrow> mon_packet (in_t inp) pk m | None \<Rightarrow> m)"
  have w: "m' = fst (mon_window inp (m1, dr))" using p by (simp add: mon_pass_def m1_def fst_def)
  obtain pre os' where o: "os = pre @ os'" "List.map_filter in_packet inps = map pk os'"
    "m_ok m1 \<and> m_csv m1 \<noteq> None \<and> observed m1 = observed m @ map show_dec pre"
  proof (cases "in_packet inp")
    case None
    then show ?thesis using that [of "[]" os] Cons.prems by (simp add: m1_def map_filter_Cons)
  next
    case (Some a)
    with Cons.prems(3) obtain i os' where i: "os = i # os'" "a = pk i" "List.map_filter in_packet inps = map pk os'"
      by (cases os) (simp_all add: map_filter_Cons)
    then have "i < n" using Cons.prems(4) by simp
    with capture [OF Cons.prems(1)] observed_packet [OF Cons.prems(1,2)] i Some show ?thesis
      using that [of "[i]" os'] by (simp add: m1_def)
  qed
  have m': "m_ok m'" "m_csv m' \<noteq> None" "observed m' = observed m @ map show_dec pre"
    using o(3) window [of m1 inp dr] observed_window [of m1 inp dr] unfolding w by auto
  from Cons.IH [OF m'(1,2) o(2)] o(1) Cons.prems(4) m'(3) show ?case by (simp add: mon_drainer_def p)
qed

text \<open>The verdict of the join, for a log and a capture of such a stream.\<close>

lemma verdict:
  assumes "sorted_wrt (<) ks" and "set ks \<subseteq> {..<n}" and "map snd es = map pk ks"
    and "subseq os (filter (\<lambda>k. \<not> ci_rule_decide (Some r) (word_of_nat k)) ks)"
    and "m_ok m" and "m_csv m = Some [Header]" and "List.map_filter in_packet inps = map pk os"
    and "\<forall>xs. mset (sortn xs) = mset xs" and "rows = drop_rows r t0 es"
  shows "two_oracle_join sortn rdp col (drop_log_text rows) (mon_csv_text (the (m_csv (fst (mon_drainer inps (m, dr)))))) =
    join_outcome (length (filter d_dropped rows)) (length (filter (\<lambda>d. \<not> d_dropped d) rows)) (length os)"
proof -
  let ?D = "\<lambda>k. ci_rule_decide (Some r) (word_of_nat k)"
  have k: "map (unat \<circ> d_index) rows = ks" unfolding assms(9) by (rule keys [OF assms(1-3)])
  have d: "map d_dropped rows = map ?D ks" using drop_rows_numbered [of r t0 es ks] k assms(9) by simp
  have sel: "map (unat \<circ> d_index) (filter (\<lambda>x. P (d_dropped x)) rows) = filter (\<lambda>k. P (?D k)) ks" for P
    using k d by (induction rows arbitrary: ks) auto
  have sub: "set os \<subseteq> set (filter (\<lambda>k. \<not> ?D k) ks)" using assms(4) by (rule subseq_subset)
  then have "set os \<subseteq> {..<n}" using assms(2) by auto
  then have "observed (fst (mon_drainer inps (m, dr))) = map show_dec os"
    using capture_run [OF assms(5) _ assms(7)] assms(6) by (simp add: observed_def observed_rows observed_row)
  moreover have c: "awk_select 8 1 6 (awk_records (drop_log_text rows)) = map show_dec (filter ?D ks)"
    "awk_select 8 0 6 (awk_records (drop_log_text rows)) = map show_dec (filter (\<lambda>k. \<not> ?D k) ks)"
    unfolding drop_log_columns sel [of "\<lambda>b. b", symmetric] sel [of Not, symmetric] by simp_all
  ultimately have "two_oracle_join sortn rdp col (drop_log_text rows) (mon_csv_text (the (m_csv (fst (mon_drainer inps (m, dr)))))) =
      join_outcome (length (filter ?D ks)) (length (filter (\<lambda>k. \<not> ?D k) ks)) (length os)"
    using sub by (intro join_numbers [OF assms(8) c]) (auto simp: observed_def)
  then show ?thesis using sel [of "\<lambda>b. b", THEN arg_cong, of length] sel [of Not, THEN arg_cong, of length] by simp
qed

text \<open>The proxy as the injector: what it forwards is what it logs as kept, parsed again by the monitor's node.\<close>

lemma proxy_verdict:
  assumes x: "proxy_lossy_setup opt log_ok pk0 q = Inr x" "px_det v x" "o_delay_prob opt \<le> 0"
      "x_rule x = r" "x_tracker x = t0"
    and es: "\<forall>e \<in> set es. px_good lib v e" "subseq (map px_packet es) (map pk [0..<k])" "k \<le> n" "k < 2 ^ 64"
    and x': "x' = fold (px_step lib) es x"
    and m: "m_ok m" "m_csv m = Some [Header]"
      "subseq (List.map_filter in_packet inps) (map (\<lambda>msg. pl_strip lib (take (nat (msg_datalen msg)) msg) old) (x_backend x'))"
    and sort: "\<forall>xs. mset (sortn xs) = mset xs"
  shows "\<exists>rows. x_drop_log x' = Some rows \<and>
    two_oracle_join sortn rdp col (drop_log_text rows) (mon_csv_text (the (m_csv (fst (mon_drainer inps (m, dr)))))) =
      join_outcome (unat (x_drops x')) (unat (x_kept x')) (length (List.map_filter in_packet inps))"
proof -
  let ?D = "\<lambda>k. ci_rule_decide (Some r) (word_of_nat k)"
  note f = proxy_setup_fields [OF x(1)]
  obtain ks where ks: "map px_packet es = map pk ks" "subseq ks [0..<k]"
    using subseq_map_obtain [OF es(2)] .
  have sorted: "sorted_wrt (<) ks" using subseq_sorted [OF ks(2)] by simp
  have sub: "set ks \<subseteq> {..<n}" using subseq_subset [OF ks(2)] es(3) by auto
  have v: "map snd (map px_view es) = map pk ks" using ks(1) by (simp add: px_packet_def [abs_def] comp_def)
  have rk: "map (unat \<circ> d_index) (px_rows x es) = ks" unfolding px_rows_def x(4,5) by (rule keys [OF sorted sub v])
  have rd: "map d_dropped (px_rows x es) = map ?D ks"
    using drop_rows_numbered [of r t0 "map px_view es" ks] rk by (simp add: px_rows_def x(4,5))
  have vs: "px_verdicts x es = map ?D ks"
    unfolding px_verdicts_def rd ks(1) x(4) using scope sub by (intro scope_verdicts_all) auto
  have log: "x_drop_log x' = Some (px_rows x es)"
    using proxy.run_rows [OF x(2) es(1)] proxy.run_ok [OF x(2) es(1)] x(2) f
    by (auto simp: x' px_rows_def px_det_def split: if_splits)
  note run = px_run_backend [OF x(2) _ es(1)]
  have parsed: "map (\<lambda>msg. pl_strip lib (take (nat (msg_datalen msg)) msg) old) (x_backend x') = map pk (filter (\<lambda>k. \<not> ?D k) ks)"
    using run f x(3) kept_parsed [OF es(1) ks(1), of old ?D] unfolding x' vs by simp
  obtain os where os: "List.map_filter in_packet inps = map pk os" "subseq os (filter (\<lambda>k. \<not> ?D k) ks)"
    using subseq_map_obtain [OF m(3) [unfolded parsed]] .
  have len: "length ks \<le> k" using list_emb_length [OF ks(2)] by simp
  have cnt: "length (filter d_dropped (px_rows x es)) = length (filter ?D ks)"
    "length (filter (\<lambda>d. \<not> d_dropped d) (px_rows x es)) = length (filter (\<lambda>k. \<not> ?D k) ks)"
    using filter_count [OF rd, of "\<lambda>b. b"] filter_count [OF rd, of Not] by simp_all
  have kept: "length (kept_msgs es (map ?D ks)) = length (filter (\<lambda>k. \<not> ?D k) ks)"
    using arg_cong [OF kept_parsed [OF es(1) ks(1), of old ?D], of length] by simp
  have small: "length (filter P ks) < 2 ^ 64" for P using len es(4) length_filter_le [of P ks] by linarith
  have c: "unat (x_drops x') = length (filter d_dropped (px_rows x es))"
    "unat (x_kept x') = length (filter (\<lambda>d. \<not> d_dropped d) (px_rows x es))"
    using run f x(3) kept cnt small [of ?D] small [of "\<lambda>k. \<not> ?D k"]
    unfolding x' vs by (simp_all add: unat_of_nat take_bit_nat_eq_self)
  show ?thesis
    using verdict [OF sorted sub v os(2) m(1,2) os(1) sort refl, of dr] log c os(1)
    by (simp add: px_rows_def x(4,5))
qed

text \<open>The same for a run of the proxy from its start to Ctrl-C.\<close>

lemma lossy_verdict:
  assumes run: "zmq_proxy_lossy lib opt log_ok (Some pk0) q (evs @ Sigint # rest) = Inr (b, Lossy_Ended dlog x'' kept drops dd mal)"
    and opt: "deterministic_opts opt"
    and x: "\<And>x. proxy_lossy_setup opt log_ok pk0 q = Inr x \<Longrightarrow> x_rule x = r \<and> x_tracker x = t0"
    and evs: "\<forall>ev \<in> set evs. ev \<noteq> Sigint \<and> ev \<noteq> Poll_Error" "es = List.map_filter (front_event lib old) evs"
    and es: "\<forall>e \<in> set es. px_good lib (o_version opt) e" "subseq (map px_packet es) (map pk [0..<k])" "k \<le> n" "k < 2 ^ 64"
    and m: "m_ok m" "m_csv m = Some [Header]"
      "subseq (List.map_filter in_packet inps) (map (\<lambda>msg. pl_strip lib (take (nat (msg_datalen msg)) msg) old) (x_backend x''))"
    and sort: "\<forall>xs. mset (sortn xs) = mset xs"
  shows "\<exists>rows. dlog = Some rows \<and>
    two_oracle_join sortn rdp col (drop_log_text rows) (mon_csv_text (the (m_csv (fst (mon_drainer inps (m, dr)))))) =
      join_outcome (unat drops) (unat kept) (length (List.map_filter in_packet inps))"
proof -
  obtain x where s: "proxy_lossy_setup opt log_ok pk0 q = Inr x" using run by (auto simp: zmq_proxy_lossy_def split: sum.splits)
  note f = proxy_setup_fields [OF s] and x = x [OF s]
  have det: "px_det (o_version opt) x" and d: "o_delay_prob opt \<le> 0"
    using opt f(1,2) by (auto simp: deterministic_opts_def px_det_def)
  define x' where "x' = fold (px_step lib) es x"
  have e: "dlog = x_drop_log x'" "x_backend x'' = x_backend x'" "kept = x_kept x'" "drops = x_drops x'"
    using lossy_run_ended [OF s det d evs es(1) x'_def, of rest] run by auto
  show ?thesis
    using proxy_verdict [OF s det d conjunct1 [OF x] conjunct2 [OF x] es x'_def m(1,2) m(3) [unfolded e(2)] sort, of dr]
    unfolding e .
qed

end

section \<open>The streams of the two generators\<close>

definition bench_rule :: "u64 \<Rightarrow> double \<Rightarrow> int \<Rightarrow> ci_drop_rule" where
  "bench_rule seed prob dport =
     \<lparr>r_seed = seed, r_match_dport = dport, r_match_rdp_syn = False, r_drop_probability = prob, r_replay_vector = None\<rparr>"

lemma bench_rule_fields [simp]: "r_match_dport (bench_rule seed prob dport) = dport" "\<not> r_match_rdp_syn (bench_rule seed prob dport)"
  by (simp_all add: bench_rule_def)

definition gen_rdp :: "int \<Rightarrow> nat \<Rightarrow> csp_packet" where
  "gen_rdp dport i = bench_packet 10 20 (word_of_int dport) CI_CSP_FRDP (ci_gen_payload (word_of_nat i))"

definition gen_dtp :: "int \<Rightarrow> int \<Rightarrow> nat \<Rightarrow> csp_packet" where
  "gen_dtp mtu ovh i = bench_packet 10 20 8 0 (ci_gen_dtp_payload (word_of_int (mtu - ovh)) (word_of_nat i))"

text \<open>An increasing list of numbers below 32768 takes only steps that the tracker follows.\<close>

lemma flow_ok_sorted: "sorted_wrt (<) ks \<Longrightarrow> set ks \<subseteq> {..<32768} \<Longrightarrow> flow_ok ks"
  by (induction ks rule: flow_ok.induct) (auto simp: flow_step_ok_def)

lemma mon_rdp_row:
  assumes "ci_rdp_parse_trailer (Some (c_data pk)) = Some h"
  shows "\<exists>paired rtt m'. mon_rdp t pk m = mon_write (Rdp_Row t (c_src pk) (c_dst pk) (c_dport pk) (c_flags pk) (h_flags h)
      (h_seq h) (h_ack h) paired rtt) m' \<and> m_csv m' = m_csv m \<and> m_match_dport m' = m_match_dport m"
  unfolding mon_rdp_def assms option.case Let_def case_prod_beta by (intro exI conjI, rule refl) simp_all

lemma mon_packet_rdp:
  assumes "m_match_dport m = dport" and "i < 65536"
  shows "m_match_dport (mon_packet t (gen_rdp dport i) m) = dport \<and>
    (\<exists>row. m_csv (mon_packet t (gen_rdp dport i) m) = map_option (\<lambda>rows. rows @ [row]) (m_csv m) \<and>
      observed_idx 1 8 (mon_row_lines row) = [show_dec i])"
proof -
  let ?p = "gen_rdp dport i"
  have i: "unat (word_of_nat i :: u16) = i" using assms(2) by (simp add: unat_of_nat take_bit_nat_eq_self)
  have "mon_packet t ?p m = mon_rdp t ?p m"
    using assms(1) by (simp add: mon_packet_def mon_in_scope_def gen_rdp_def bench_packet_def bench_frame_is_rdp)
  moreover have "c_data ?p = ci_gen_payload (word_of_nat i)" by (simp add: gen_rdp_def bench_packet_def)
  ultimately obtain row m' where r: "mon_packet t ?p m = mon_write row m'" "m_csv m' = m_csv m" "m_match_dport m' = m_match_dport m"
    "observed_idx 1 8 (mon_row_lines row) = [show_dec i]"
    using mon_rdp_row [of ?p _ t m] gen_payload_trailer [of "word_of_nat i"] observed_row(3) i
    by (metis (no_types, lifting) ci_rdp_header.select_convs(2))
  then show ?thesis using assms(1) by (auto simp: mon_write_def)
qed

lemma mon_packet_dtp:
  assumes m: "m_match_dport m = 8" "m_mtu m = word_of_int mtu" "m_dtp_overhead m = word_of_int ovh"
    and "0 \<le> ovh" "ovh < mtu" "mtu < 65536" and "i * nat (mtu - ovh) < 2 ^ 32"
  shows "\<exists>row. mon_packet t (gen_dtp mtu ovh i) m = mon_write row m \<and> observed_idx 0 11 (mon_row_lines row) = [show_dec i]"
proof -
  note w = step_width [OF assms(4-6)]
  let ?off = "word_of_nat i * word_of_int (mtu - ovh) :: u32"
  have "?off = word_of_nat (i * nat (mtu - ovh))" using assms(5) by (simp add: of_nat_nat)
  then have off: "unat ?off = i * nat (mtu - ovh)" using assms(7) by (simp only: unat_of_nat) (simp add: take_bit_nat_eq_self)
  obtain k where k: "ci_dtp_fragment_index_ovh ?off (word_of_int mtu) (word_of_int ovh) = Some k"
    "unat k = unat ?off div (unat (word_of_int mtu :: u16) - unat (word_of_int ovh :: u16))"
    using unat_fragment_index [OF w(3)] by blast
  have "unat k = i" using k(2) off w(1,2) assms(4,5) by (simp add: nat_diff_distrib)
  moreover have "mon_packet t (gen_dtp mtu ovh i) m = mon_dtp t (gen_dtp mtu ovh i) m"
    using m(1) by (simp add: mon_packet_def mon_in_scope_def gen_dtp_def bench_packet_def bench_frame_is_rdp const_defs)
  ultimately show ?thesis using k(1) m(2,3)
    by (intro exI [of _ "Dtp_Row t 10 20 8 0 ?off k"])
      (simp add: mon_dtp_def gen_dtp_def bench_packet_def ci_gen_dtp_payload_eq wire_simps observed_row)
qed

interpretation rdp_pair: oracle_pair "bench_rule seed prob dport" "ci_flow_tracker_init_ovh mtu ovh" "gen_rdp dport" 32768 1 8
  "\<lambda>m. m_match_dport m = dport" for seed prob dport mtu ovh
proof (unfold_locales, goal_cases)
  case (1 i)
  show ?case unfolding gen_rdp_def by (rule bench_in_scope) simp_all
next
  case (2 ks es)
  have "\<forall>k \<in> set ks. k < 32768" using 2(2) by auto
  then have "ks \<noteq> [] \<longrightarrow> hd ks < 65536" "\<forall>k \<in> set ks. k < 2 ^ 48" by (fastforce dest: hd_in_set)+
  with 2 show ?case by (intro gen_rdp_keys [of _ 10 20 dport]) (simp_all add: gen_rdp_def flow_ok_sorted)
next
  case (3 m i t)
  then show ?case using mon_packet_rdp [of m dport i t] by simp
qed simp

text \<open>The number of fragments whose byte offsets fit 32 bits.\<close>

definition dtp_limit :: "int \<Rightarrow> int \<Rightarrow> nat" where
  "dtp_limit mtu ovh = (if 0 \<le> ovh \<and> ovh < mtu \<and> mtu < 65536 then 2 ^ 32 div nat (mtu - ovh) else 0)"

lemma dtp_limitD:
  assumes "i < dtp_limit mtu ovh"
  shows "0 \<le> ovh" "ovh < mtu" "mtu < 65536" "i * nat (mtu - ovh) < 2 ^ 32"
proof -
  show h: "0 \<le> ovh" "ovh < mtu" "mtu < 65536" using assms by (auto simp: dtp_limit_def split: if_splits)
  then have "i < 2 ^ 32 div nat (mtu - ovh)" using assms by (simp add: dtp_limit_def)
  then show "i * nat (mtu - ovh) < 2 ^ 32" using offsets_fit [OF div_times_less_eq_dividend] h by simp
qed

interpretation dtp_pair: oracle_pair "bench_rule seed prob 8" "ci_flow_tracker_init_ovh (word_of_int mtu) (word_of_int ovh)"
  "gen_dtp mtu ovh" "dtp_limit mtu ovh" 0 11
  "\<lambda>m. m_match_dport m = 8 \<and> m_mtu m = word_of_int mtu \<and> m_dtp_overhead m = word_of_int ovh" for seed prob mtu ovh
proof (unfold_locales, goal_cases)
  case (1 i)
  show ?case using bench_in_scope [of "bench_rule seed prob 8" 8] by (simp add: gen_dtp_def)
next
  case (2 ks es)
  show ?case
  proof (cases ks)
    case Nil
    with 2(3) show ?thesis by simp
  next
    case (Cons k ks')
    then have k: "k < dtp_limit mtu ovh" using 2(2) by simp
    show ?thesis
      by (rule gen_dtp_keys [of _ 10 20]) (use 2 dtp_limitD dtp_limitD(1-3) [OF k] in \<open>auto simp: gen_dtp_def\<close>)
  qed
next
  case (3 m i t)
  then obtain row where "mon_packet t (gen_dtp mtu ovh i) m = mon_write row m" "observed_idx 0 11 (mon_row_lines row) = [show_dec i]"
    using mon_packet_dtp [of m mtu ovh i t] dtp_limitD [of i mtu ovh] by blast
  with 3 show ?case by (auto simp: mon_write_def)
qed simp

lemma setup_rule:
  assumes "proxy_lossy_setup opt log_ok pk q = Inr x" and "\<not> o_match_rdp_syn opt"
  shows "x_rule x = bench_rule (word_of_int (o_seed opt)) (o_loss_prob opt) (o_match_dport opt)"
  using assms by (auto simp: proxy_lossy_setup_def bench_rule_def split: if_splits)

section \<open>Properties\<close>

text \<open>
  Property C3. The two oracles agree on RDP traffic. \<open>ci_gen\<close> sends its stream to a proxy in the
  deterministic mode that watches its port and runs until Ctrl-C; the proxy receives some of the
  packets in order (\<open>es\<close>, late subscription), with interrupts and subscriptions in between, and the
  monitor some of the messages that it forwards (\<open>inps\<close>), at any times and with any windows in between.
  For at most 32768 packets the script that joins the text of the drop log with the text of the
  capture never finds a frame that was both dropped and observed: its verdict is determined by the
  proxy's counters and the number of frames observed, and it passes if the proxy dropped something
  and kept at least 100 frames of which 90 per cent were observed.
\<close>

theorem two_oracle_rdp:
  assumes "zmq_proxy_lossy lib opt log_ok (Some pk) q (evs @ Sigint # rest) = Inr (b, Lossy_Ended dlog x' kept drops dd mal)"
    and "deterministic_opts opt" and "\<not> o_match_rdp_syn opt"
    and "ci_gen conn_ok alloc args = (0, ps)" and "argv_or args 2 atoi 13 = o_match_dport opt" and "length ps \<le> 32768"
    and "\<forall>ev \<in> set evs. ev \<noteq> Sigint \<and> ev \<noteq> Poll_Error" and "es = List.map_filter (front_event lib old) evs"
    and "\<forall>e \<in> set es. px_good lib (o_version opt) e" and "subseq (map px_packet es) ps"
    and "m_csv m = Some [Header]" and "m_match_dport m = o_match_dport opt"
    and "subseq (List.map_filter in_packet inps) (map (\<lambda>msg. pl_strip lib (take (nat (msg_datalen msg)) msg) old) (x_backend x'))"
    and "\<forall>xs. mset (sortn xs) = mset xs"
  shows "\<exists>rows. dlog = Some rows \<and>
    two_oracle_join sortn 1 8 (drop_log_text rows) (mon_csv_text (the (m_csv (fst (mon_drainer inps (m, dr)))))) =
      join_outcome (unat drops) (unat kept) (length (List.map_filter in_packet inps))"
proof -
  have ps: "ps = map (gen_rdp (o_match_dport opt)) [0..<length ps]"
    using assms(4) unfolding assms(5) [symmetric]
    by (auto simp: ci_gen_def Let_def gen_rdp_def [abs_def] split: if_splits)
  show ?thesis
    by (rule rdp_pair.lossy_verdict [OF assms(1,2) _ assms(7-9) _ assms(6) _ assms(12,11,13,14)])
      (use assms(6,10) ps setup_rule [OF _ assms(3)] proxy_setup_fields(9) in \<open>auto simp flip: ps\<close>)
qed

definition oracle_opts :: "int \<Rightarrow> proxy_opts" where
  "oracle_opts dport = demo_opts\<lparr>o_match_dport := dport, o_loss_prob := 1 / 2\<rparr>"

definition seen :: "csp_packet \<Rightarrow> mon_input" where
  "seen p = \<lparr>in_packet = Some p, in_t = 7, in_now = 7, in_ovf = 0, in_bout = 0, in_remaining = 500, in_ovf2 = 0, in_bout2 = 0\<rparr>"

definition idle_drainer :: drainer where
  "idle_drainer = \<lparr>dr_prev_ovf = 0, dr_prev_bout = 0, dr_window_start = 0\<rparr>"

text \<open>
  Four packets of which the proxy misses the first two, forwards the third to the monitor and drops
  the last: too few for a verdict on the coverage.
\<close>

definition oracle_polls :: "csp_packet list \<Rightarrow> poll_event list" where
  "oracle_polls ps = [Poll_Ready None (Some [1]) (\<lambda>k. 40) (\<lambda>k. 1), Poll_Eintr] @
     map (\<lambda>p. Poll_Ready (Some (fst (wire_event p))) None (\<lambda>k. 50) (\<lambda>k. 1)) ps"

definition oracle_run :: "int \<Rightarrow> csp_packet list \<Rightarrow> proxy_exit + (loss_banner option \<times> delayed_msg list lossy_run)" where
  "oracle_run dport ps = zmq_proxy_lossy demo_lib (oracle_opts dport) True (Some demo_packet) [] (oracle_polls ps @ Sigint # [])"

fun run_log :: "proxy_exit + (loss_banner option \<times> delayed_msg list lossy_run) \<Rightarrow> drop_row list option" where
  "run_log (Inr (b, Lossy_Ended dlog x kept drops dd mal)) = dlog"
| "run_log r = None"

lemma oracle_polls_fine: "\<forall>ev \<in> set (oracle_polls ps). ev \<noteq> Sigint \<and> ev \<noteq> Poll_Error"
  by (auto simp: oracle_polls_def)

lemma oracle_polls_fronts:
  assumes "\<forall>p \<in> set ps. px_good demo_lib 2 (wire_event p)"
  shows "List.map_filter (front_event demo_lib old) (oracle_polls ps) = map wire_event ps"
proof -
  have "front_event demo_lib old (Poll_Ready (Some (fst (wire_event p))) None (\<lambda>k. 50) (\<lambda>k. 1)) = Some (wire_event p)" if "p \<in> set ps" for p
    using assms that by (auto simp: front_event_def px_good_def wire_event_def)
  then have "List.map_filter (front_event demo_lib old) (map (\<lambda>p. Poll_Ready (Some (fst (wire_event p))) None (\<lambda>k. 50) (\<lambda>k. 1)) ps) =
      map wire_event ps"
    by (induction ps) (simp_all add: List.map_filter_simps)
  then show ?thesis by (simp add: oracle_polls_def List.map_filter_simps front_event_def)
qed

lemma oracle_run_rdp:
  obtains dlog x where "oracle_run 13 (map (gen_rdp 13) [2, 3]) = Inr (Some Deterministic_Loss, Lossy_Ended dlog x 1 1 0 0)"
    "x_backend x = map (fst \<circ> wire_event \<circ> gen_rdp 13) [2]"
proof -
  let ?r = "oracle_run 13 (map (gen_rdp 13) [2, 3])"
  have "(case ?r of Inr (b, Lossy_Ended dlog x kept drops dd mal) \<Rightarrow> (b, kept, drops, dd, mal) = (Some Deterministic_Loss, 1, 1, 0, 0) \<and>
      x_backend x = map (fst \<circ> wire_event \<circ> gen_rdp 13) [2] | _ \<Rightarrow> False)"
    by code_simp
  then show thesis using that by (auto split: sum.splits prod.splits lossy_run.splits)
qed

theorem two_oracle_rdp_witness:
  "\<exists>rows. run_log (oracle_run 13 (map (gen_rdp 13) [2, 3])) = Some rows \<and>
    two_oracle_join (sort_key digits_val) 1 8 (drop_log_text rows)
      (mon_csv_text (the (m_csv (fst (mon_drainer [seen (gen_rdp 13 2)] (running_monitor, idle_drainer)))))) = Too_Few 1"
proof -
  let ?ps = "map (gen_rdp 13) [2, 3]"
  have good: "\<forall>p \<in> set ?ps. px_good demo_lib 2 (wire_event p)"
    by (simp add: wire_event_good gen_rdp_def bench_packet_def ci_gen_payload_eq rdp_trailer_def)
  obtain dlog x where run: "oracle_run 13 ?ps = Inr (Some Deterministic_Loss, Lossy_Ended dlog x 1 1 0 0)"
    and b: "x_backend x = map (fst \<circ> wire_event \<circ> gen_rdp 13) [2]"
    by (rule oracle_run_rdp)
  have d: "deterministic_opts (oracle_opts 13)" "\<not> o_match_rdp_syn (oracle_opts 13)"
    "ci_gen True True [''4''] = (0, map (gen_rdp 13) [0, 1, 2, 3])" "argv_or [''4''] 2 atoi 13 = o_match_dport (oracle_opts 13)"
    by code_simp+
  have v: "o_version (oracle_opts 13) = 2" by code_simp
  have m: "m_csv running_monitor = Some [Header]" "m_match_dport running_monitor = o_match_dport (oracle_opts 13)"
    by code_simp+
  have o: "List.map_filter in_packet [seen (gen_rdp 13 2)] = [gen_rdp 13 2]" by (simp add: List.map_filter_def seen_def)
  have p: "map (\<lambda>msg. pl_strip demo_lib (take (nat (msg_datalen msg)) msg) demo_packet) (x_backend x) = map (gen_rdp 13) [2]"
    using good unfolding b by (auto simp: px_good_def wire_event_def)
  note f = oracle_polls_fronts [OF good, of demo_packet]
  have h: "\<forall>e \<in> set (List.map_filter (front_event demo_lib demo_packet) (oracle_polls ?ps)). px_good demo_lib (o_version (oracle_opts 13)) e"
    "subseq (map px_packet (List.map_filter (front_event demo_lib demo_packet) (oracle_polls ?ps))) (map (gen_rdp 13) [0, 1, 2, 3])"
    unfolding f v using good by simp_all
  have s: "subseq (List.map_filter in_packet [seen (gen_rdp 13 2)])
      (map (\<lambda>msg. pl_strip demo_lib (take (nat (msg_datalen msg)) msg) demo_packet) (x_backend x))"
    unfolding o p by simp
  have "\<exists>rows. dlog = Some rows \<and> two_oracle_join (sort_key digits_val) 1 8 (drop_log_text rows)
      (mon_csv_text (the (m_csv (fst (mon_drainer [seen (gen_rdp 13 2)] (running_monitor, idle_drainer)))))) =
      join_outcome (unat (1 :: u64)) (unat (1 :: u64)) (length (List.map_filter in_packet [seen (gen_rdp 13 2)]))"
    by (rule two_oracle_rdp [OF run [unfolded oracle_run_def] d _ oracle_polls_fine refl h m s]) simp_all
  moreover have "join_outcome (unat (1 :: u64)) (unat (1 :: u64)) (length (List.map_filter in_packet [seen (gen_rdp 13 2)])) = Too_Few 1"
    unfolding o by code_simp
  ultimately show ?thesis unfolding run by simp
qed

text \<open>
  Property C20. The same for DTP: \<open>ci_gen_dtp\<close>, a proxy and a monitor that are started with the same
  MTU (below 65536) and overhead, and as many fragments as have byte offsets of 32 bits.
\<close>

theorem two_oracle_dtp:
  assumes "zmq_proxy_lossy lib opt log_ok (Some pk) q (evs @ Sigint # rest) = Inr (b, Lossy_Ended dlog x' kept drops dd mal)"
    and "deterministic_opts opt" and "\<not> o_match_rdp_syn opt"
    and "o_match_dport opt = 8" and "mtu = o_mtu_arg opt" and "ovh = o_overhead_arg opt" and "mtu < 65536"
    and "ci_gen_dtp conn_ok alloc args = (0, ps)" and "argv_or args 2 atoi 200 = mtu" and "argv_or args 3 atoi 4 = ovh"
    and "length ps * nat (mtu - ovh) \<le> 2 ^ 32"
    and "\<forall>ev \<in> set evs. ev \<noteq> Sigint \<and> ev \<noteq> Poll_Error" and "es = List.map_filter (front_event lib old) evs"
    and "\<forall>e \<in> set es. px_good lib (o_version opt) e" and "subseq (map px_packet es) ps"
    and "m_csv m = Some [Header]" and "m_match_dport m = 8" and "m_mtu m = word_of_int mtu" and "m_dtp_overhead m = word_of_int ovh"
    and "subseq (List.map_filter in_packet inps) (map (\<lambda>msg. pl_strip lib (take (nat (msg_datalen msg)) msg) old) (x_backend x'))"
    and "\<forall>xs. mset (sortn xs) = mset xs"
  shows "\<exists>rows. dlog = Some rows \<and>
    two_oracle_join sortn 0 11 (drop_log_text rows) (mon_csv_text (the (m_csv (fst (mon_drainer inps (m, dr)))))) =
      join_outcome (unat drops) (unat kept) (length (List.map_filter in_packet inps))"
proof -
  have ps: "ps = map (gen_dtp mtu ovh) [0..<length ps]" and o: "0 \<le> ovh" "ovh < mtu"
    using assms(8) unfolding assms(9,10) [symmetric]
    by (auto simp: ci_gen_dtp_def Let_def gen_dtp_def [abs_def] const_defs split: if_splits)
  have "length ps \<le> 2 ^ 32 div nat (mtu - ovh)" using assms(11) o by (simp add: less_eq_div_iff_mult_less_eq)
  then have lim: "length ps \<le> dtp_limit mtu ovh" using o assms(7) by (simp add: dtp_limit_def)
  also have "dtp_limit mtu ovh \<le> 2 ^ 32" by (simp add: dtp_limit_def)
  finally have small: "length ps < 2 ^ 64" by simp
  show ?thesis
    by (rule dtp_pair.lossy_verdict [OF assms(1,2) _ assms(12-14) _ lim small _ assms(16,20,21)])
      (use assms(4-6,15,17-19) ps setup_rule [OF _ assms(3)] proxy_setup_fields(9) in \<open>auto simp flip: ps\<close>)
qed

lemma oracle_run_dtp:
  obtains dlog x where "oracle_run 8 (map (gen_dtp 200 4) [2, 3]) = Inr (Some Deterministic_Loss, Lossy_Ended dlog x 1 1 0 0)"
    "x_backend x = map (fst \<circ> wire_event \<circ> gen_dtp 200 4) [2]"
proof -
  let ?r = "oracle_run 8 (map (gen_dtp 200 4) [2, 3])"
  have "(case ?r of Inr (b, Lossy_Ended dlog x kept drops dd mal) \<Rightarrow> (b, kept, drops, dd, mal) = (Some Deterministic_Loss, 1, 1, 0, 0) \<and>
      x_backend x = map (fst \<circ> wire_event \<circ> gen_dtp 200 4) [2] | _ \<Rightarrow> False)"
    by code_simp
  then show thesis using that by (auto split: sum.splits prod.splits lossy_run.splits)
qed

theorem two_oracle_dtp_witness:
  "\<exists>rows. run_log (oracle_run 8 (map (gen_dtp 200 4) [2, 3])) = Some rows \<and>
    two_oracle_join (sort_key digits_val) 0 11 (drop_log_text rows)
      (mon_csv_text (the (m_csv (fst (mon_drainer [seen (gen_dtp 200 4 2)] ((running_monitor\<lparr>m_match_dport := 8\<rparr>), idle_drainer)))))) = Too_Few 1"
proof -
  let ?ps = "map (gen_dtp 200 4) [2, 3]"
  have good: "\<forall>p \<in> set ?ps. px_good demo_lib 2 (wire_event p)"
    by (simp add: wire_event_good gen_dtp_def bench_packet_def ci_gen_dtp_payload_def Let_def)
  obtain dlog x where run: "oracle_run 8 ?ps = Inr (Some Deterministic_Loss, Lossy_Ended dlog x 1 1 0 0)"
    and b: "x_backend x = map (fst \<circ> wire_event \<circ> gen_dtp 200 4) [2]"
    by (rule oracle_run_dtp)
  have d: "deterministic_opts (oracle_opts 8)" "\<not> o_match_rdp_syn (oracle_opts 8)"
    "o_match_dport (oracle_opts 8) = 8" "200 = o_mtu_arg (oracle_opts 8)" "4 = o_overhead_arg (oracle_opts 8)"
    by code_simp+
  have g: "ci_gen_dtp True True [''4''] = (0, map (gen_dtp 200 4) [0, 1, 2, 3])" "argv_or [''4''] 2 atoi 200 = 200"
    "argv_or [''4''] 3 atoi 4 = 4"
    by code_simp+
  have v: "o_version (oracle_opts 8) = 2" by code_simp
  have m: "m_csv (running_monitor\<lparr>m_match_dport := 8\<rparr>) = Some [Header]" "m_match_dport (running_monitor\<lparr>m_match_dport := 8\<rparr>) = 8"
    "m_mtu (running_monitor\<lparr>m_match_dport := 8\<rparr>) = word_of_int 200" "m_dtp_overhead (running_monitor\<lparr>m_match_dport := 8\<rparr>) = word_of_int 4"
    by code_simp+
  have o: "List.map_filter in_packet [seen (gen_dtp 200 4 2)] = [gen_dtp 200 4 2]" by (simp add: List.map_filter_def seen_def)
  have p: "map (\<lambda>msg. pl_strip demo_lib (take (nat (msg_datalen msg)) msg) demo_packet) (x_backend x) = map (gen_dtp 200 4) [2]"
    using good unfolding b by (auto simp: px_good_def wire_event_def)
  note f = oracle_polls_fronts [OF good, of demo_packet]
  have h: "\<forall>e \<in> set (List.map_filter (front_event demo_lib demo_packet) (oracle_polls ?ps)). px_good demo_lib (o_version (oracle_opts 8)) e"
    "subseq (map px_packet (List.map_filter (front_event demo_lib demo_packet) (oracle_polls ?ps))) (map (gen_dtp 200 4) [0, 1, 2, 3])"
    unfolding f v using good by simp_all
  have s: "subseq (List.map_filter in_packet [seen (gen_dtp 200 4 2)])
      (map (\<lambda>msg. pl_strip demo_lib (take (nat (msg_datalen msg)) msg) demo_packet) (x_backend x))"
    unfolding o p by simp
  have "\<exists>rows. dlog = Some rows \<and> two_oracle_join (sort_key digits_val) 0 11 (drop_log_text rows)
      (mon_csv_text (the (m_csv (fst (mon_drainer [seen (gen_dtp 200 4 2)] (running_monitor\<lparr>m_match_dport := 8\<rparr>, idle_drainer)))))) =
      join_outcome (unat (1 :: u64)) (unat (1 :: u64)) (length (List.map_filter in_packet [seen (gen_dtp 200 4 2)]))"
    by (rule two_oracle_dtp [OF run [unfolded oracle_run_def] d _ g _ oracle_polls_fine refl h m s]) simp_all
  moreover have "join_outcome (unat (1 :: u64)) (unat (1 :: u64)) (length (List.map_filter in_packet [seen (gen_dtp 200 4 2)])) = Too_Few 1"
    unfolding o by code_simp
  ultimately show ?thesis unfolding run by simp
qed

text \<open>
  The DTP script lets the caller choose the MTU of the proxy and the generator but starts the monitor with
  its default of 200. With an MTU of 104, fragment 6 is forwarded, the monitor numbers it 3, and the
  script reports that a dropped fragment was observed although both programs did what they were told.
\<close>

lemma two_oracle_dtp_mtu_mismatch:
  assumes "zmq_proxy_lossy demo_lib ((oracle_opts 8)\<lparr>o_mtu_arg := 104\<rparr>) True (Some demo_packet) []
      (oracle_polls (map (gen_dtp 104 4) [3, 6]) @ [Sigint]) = r"
  shows "\<exists>rows. run_log r = Some rows \<and> two_oracle_join (sort_key digits_val) 0 11 (drop_log_text rows)
    (mon_csv_text (the (m_csv (fst (mon_drainer [seen (gen_dtp 104 4 6)] (running_monitor\<lparr>m_match_dport := 8\<rparr>, idle_drainer)))))) = Disagree 1"
proof -
  let ?m = "fst (mon_drainer [seen (gen_dtp 104 4 6)] (running_monitor\<lparr>m_match_dport := 8\<rparr>, idle_drainer))"
  have "map_option (map (\<lambda>d. (unat (d_index d), d_dropped d))) (run_log r) = Some [(3, True), (6, False)]"
    unfolding assms [symmetric] by code_simp
  then obtain rows where rows: "run_log r = Some rows" "map (\<lambda>d. (unat (d_index d), d_dropped d)) rows = [(3, True), (6, False)]" by auto
  have m: "m_csv ?m = Some [Header, Dtp_Row 7 10 20 8 0 600 3]" by code_simp
  have o: "observed_idx 0 11 (awk_records (mon_csv_text (the (m_csv ?m)))) = [show_dec 3]"
    unfolding m by (simp add: observed_rows observed_row)
  have d: "map (show_dec \<circ> unat \<circ> d_index) (filter d_dropped rows) = [show_dec 3]" using rows(2) by (auto simp: map_eq_Cons_conv)
  have "two_oracle_join (sort_key digits_val) 0 11 (drop_log_text rows) (mon_csv_text (the (m_csv ?m))) = Disagree 1"
    unfolding two_oracle_join_def drop_log_columns observed_idx_def [symmetric] o d
    by (simp add: join_overlap_def Let_def)
  with rows(1) show ?thesis by blast
qed

end
