(* ===== verification/CI_Tools.thy ===== *)
theory CI_Tools
  imports CI_Bench CI_Monitor PX_Proxy
begin

text \<open>
  The other programs of the end-to-end bench under \<open>src/tests/e2e\<close>: \<open>ci_oversize.c\<close> (a numbered stream with
  oversized messages in between), \<open>ci_sub.c\<close> (a subscriber that counts) and \<open>ci_monitor_host.c\<close> (a node that
  runs the monitor for a time). Parameters are the results of the \<open>zmq\<close> and libcsp calls and the clock.
\<close>

section \<open>Programs\<close>

definition OVERSIZE_LEN :: nat where [const_defs]: "OVERSIZE_LEN = 4096"

text \<open>What is sent: a frame, or \<open>None\<close> for the oversized message.\<close>

fun oversize_loop :: "(nat \<Rightarrow> csp_packet) \<Rightarrow> int \<Rightarrow> int \<Rightarrow> nat \<Rightarrow> nat \<Rightarrow> int \<Rightarrow> csp_packet option list" where
  "oversize_loop pk oversize step 0 i sent_oversize = replicate (nat (oversize - sent_oversize)) None"
| "oversize_loop pk oversize step (Suc n) i sent_oversize =
     Some (pk i) #
     (if sent_oversize < oversize \<and> (int i + 1) mod step = 0
      then None # oversize_loop pk oversize step n (i + 1) (sent_oversize + 1)
      else oversize_loop pk oversize step n (i + 1) sent_oversize)"

definition ci_oversize :: "bool \<Rightarrow> bool \<Rightarrow> bool \<Rightarrow> string list \<Rightarrow> int \<times> csp_packet option list" where
  "ci_oversize conn_ok p_ok big_ok args =
     (let conforming = argv_or args 0 atoi 200; oversize = argv_or args 1 atoi 4; dport = argv_or args 3 atoi 13
      in if \<not> conn_ok then (1, [])
         else if \<not> p_ok then (1, [])
         else if \<not> big_ok then (1, [])
         else let step = (if oversize > 0 then conforming div (oversize + 1) else conforming + 1);
                  step = (if step < 1 then 1 else step)
              in (0, oversize_loop (\<lambda>i. bench_packet 10 20 (word_of_int dport) CI_CSP_FRDP (ci_gen_payload (word_of_nat i)))
                       oversize step (nat conforming) 0 0))"

text \<open>
  The subscriber: per pass whether \<open>zmq_msg_recv\<close> returned a message; the list ends when the signal handler
  has cleared \<open>run\<close>. The exit code and the number that is printed.
\<close>

definition ci_sub :: "bool \<Rightarrow> bool list \<Rightarrow> int \<times> nat option" where
  "ci_sub conn_ok received = (if \<not> conn_ok then (1, None) else (0, Some (length (filter (\<lambda>r. r) received))))"

text \<open>The command line that the monitor node gives to \<open>csp_monitor start\<close>.\<close>

definition host_start_argv :: "string list \<Rightarrow> string list" where
  "host_start_argv args =
     [''start'', ''-o'', argv_or args 5 (\<lambda>s. s) ''apm.csv'', ''-d'', argv_or args 4 (\<lambda>s. s) ''13'', ''-w'', ''1000''] @
     (if 7 < length args then [''-O'', args ! 7] else [])"

text \<open>
  The loop that runs the router: \<open>clock\<close> holds what the calls of \<open>csp_get_ms\<close> in the loop condition return; the
  result is the number of passes, \<open>None\<close> if the clock list ends before the loop does.
\<close>

fun route_pump :: "u32 \<Rightarrow> u32 list \<Rightarrow> nat option" where
  "route_pump t_end [] = None"
| "route_pump t_end (t # ts) = (if t < t_end then map_option Suc (route_pump t_end ts) else Some 0)"

text \<open>
  \<open>main\<close>: \<open>opened\<close> is the result of the interface set-up, \<open>parse\<close> the option parser of the shell, \<open>t0\<close> the clock
  before the loop, \<open>work\<close> what the drainer does to the monitor meanwhile and \<open>residual\<close> what is left in its queue.
\<close>

definition ci_monitor_host ::
  "int \<times> bool \<Rightarrow> (string list \<Rightarrow> start_opts \<Rightarrow> start_opts option) \<Rightarrow> bool \<Rightarrow> bool \<Rightarrow> bool \<Rightarrow> u32 \<Rightarrow> u32 list \<Rightarrow>
   (nat \<Rightarrow> monitor \<Rightarrow> monitor) \<Rightarrow> csp_packet list \<Rightarrow> string list \<Rightarrow> monitor \<Rightarrow> (int \<times> monitor) option" where
  "ci_monitor_host opened parse promisc_ok fopen_ok thread_ok t0 clock work residual args m =
     (let run_ms = argv_or args 6 atoi 4000; (rc, iface) = opened
      in if rc \<noteq> CSP_ERR_NONE \<or> \<not> iface then Some (1, m)
         else let (rc, m) = csp_monitor_start_cmd (parse (host_start_argv args)) promisc_ok fopen_ok thread_ok m
              in if rc \<noteq> SLASH_SUCCESS then Some (1, m)
                 else (case route_pump (t0 + word_of_int run_ms) clock of
                         None \<Rightarrow> None
                       | Some n \<Rightarrow> (let (_, _, m) = csp_monitor_stop_cmd residual (work n m) in Some (0, m))))"

section \<open>A stream with oversized messages\<close>

lemma oversize_loop_frames: "List.map_filter (\<lambda>s. s) (oversize_loop pk oversize step n i sent) = map pk [i..<i + n]"
proof (induction n arbitrary: i sent)
  case 0
  have "List.map_filter (\<lambda>s. s) (replicate k None) = []" for k :: nat by (induction k) (simp_all add: List.map_filter_simps)
  then show ?case by simp
next
  case (Suc n)
  then show ?case by (simp add: List.map_filter_simps upt_conv_Cons del: upt_Suc)
qed

lemma oversize_loop_count:
  "sent \<le> oversize \<Longrightarrow> length (filter (\<lambda>s. s = None) (oversize_loop pk oversize step n i sent)) = nat (oversize - sent)"
proof (induction n arbitrary: i sent)
  case (Suc n)
  then show ?case using Suc.IH [of "sent + 1" "i + 1"] Suc.IH [of sent "i + 1"]
    by (auto simp flip: Suc_nat_eq_nat_zadd1)
qed simp

text \<open>An oversized message changes nothing but its counter, and the counter changes nothing else.\<close>

definition px_big :: "'q proxy_lib \<Rightarrow> int \<Rightarrow> px_event \<Rightarrow> bool" where
  "px_big lib v e \<longleftrightarrow> \<not> proxy_frame_fits v (pl_data_size lib) (msg_datalen (fst e))"

lemma px_step_big:
  assumes "px_det v x" and "px_big lib v e"
  shows "px_step lib e x = x\<lparr>x_malformed := x_malformed x + 1\<rparr>"
  using assms
  by (cases e) (simp add: px_det_def px_big_def proxy_front_def proxy_hdx_def proxy_decide_def proxy_fits_def
      proxy_corrupt_def proxy_reject_def)

lemma px_step_malformed:
  assumes "px_det v x" and "px_good lib v e"
  shows "px_step lib e (x\<lparr>x_malformed := k\<rparr>) = (px_step lib e x)\<lparr>x_malformed := k\<rparr>"
proof -
  obtain msg ms rnd p where e: "e = (msg, ms, rnd, p)" by (cases e)
  have "px_det v (x\<lparr>x_malformed := k\<rparr>)" using assms(1) by (simp add: px_det_def)
  from proxy_front_det [OF this] proxy_front_det [OF assms(1)] assms(2) show ?thesis
    by (simp add: e px_decided_def proxy_forward_def proxy_send_def proxy_enqueue_def with_tracker_def x_tracker_def
        Let_def case_prod_beta split: option.split)
qed

lemma px_run_mixed:
  assumes "px_det v x" and "\<forall>e \<in> set es. px_good lib v e \<or> px_big lib v e"
  shows "fold (px_step lib) es (x\<lparr>x_malformed := k\<rparr>) =
    (fold (px_step lib) (filter (\<lambda>e. \<not> px_big lib v e) es) x)\<lparr>x_malformed := k + word_of_nat (length (filter (px_big lib v) es))\<rparr>"
  using assms
proof (induction es arbitrary: x k)
  case (Cons e es)
  show ?case
  proof (cases "px_big lib v e")
    case True
    have "px_det v (x\<lparr>x_malformed := k\<rparr>)" using Cons.prems(1) by (simp add: px_det_def)
    from px_step_big [OF this True] have "px_step lib e (x\<lparr>x_malformed := k\<rparr>) = x\<lparr>x_malformed := k + 1\<rparr>" by simp
    with Cons True show ?thesis by (simp add: add.assoc add.commute [of 1])
  next
    case False
    with Cons.prems have g: "px_good lib v e" by auto
    from Cons.IH [OF proxy.step_ok [OF Cons.prems(1) g]] px_step_malformed [OF Cons.prems(1) g] Cons.prems False
    show ?thesis by simp
  qed
qed simp

text \<open>How a send of \<open>ci_oversize\<close> arrives at the proxy.\<close>

definition arrives_as :: "'q proxy_lib \<Rightarrow> int \<Rightarrow> csp_packet option \<Rightarrow> px_event \<Rightarrow> bool" where
  "arrives_as lib v s e \<longleftrightarrow> (case s of Some p \<Rightarrow> px_good lib v e \<and> px_packet e = p
     | None \<Rightarrow> fst e = replicate OVERSIZE_LEN 0xFF)"

lemma px_good_not_big: "px_good lib v e \<Longrightarrow> \<not> px_big lib v e"
  by (auto simp: px_good_def px_big_def split: prod.splits)

lemma oversize_is_big:
  assumes "pl_data_size lib + 6 < OVERSIZE_LEN" and "fst e = replicate OVERSIZE_LEN 0xFF"
  shows "px_big lib v e"
proof -
  have "msg_datalen (fst e) = 4096" by (simp add: assms(2) msg_datalen_def OVERSIZE_LEN_def)
  then show ?thesis using assms(1) by (simp add: px_big_def proxy_frame_fits_def OVERSIZE_LEN_def Let_def)
qed

lemma arrivals:
  assumes "list_all2 (arrives_as lib v) sends es" and "pl_data_size lib + 6 < OVERSIZE_LEN"
  shows "\<forall>e \<in> set es. px_good lib v e \<or> px_big lib v e"
    and "map px_packet (filter (\<lambda>e. \<not> px_big lib v e) es) = List.map_filter (\<lambda>s. s) sends"
    and "length (filter (px_big lib v) es) = length (filter (\<lambda>s. s = None) sends)"
  using assms(1)
  by (induction rule: list_all2_induct)
    (auto simp: arrives_as_def List.map_filter_simps px_good_not_big oversize_is_big [OF assms(2)] split: option.splits)

section \<open>Properties\<close>

text \<open>
  Property C21. The proxy recovers from oversized messages. For the stream of \<open>ci_oversize\<close> through a proxy in
  the deterministic mode whose packet buffer is smaller than an oversized message: the proxy counts exactly the oversized
  messages as malformed, logs exactly the conforming packets with their numbers as keys and the
  rule's decisions, and counts each of them as kept or dropped.
\<close>

theorem oversize_stream_recovers:
  assumes "proxy_lossy_setup opt log_ok pk q = Inr x" and "px_det v x" and "o_delay_prob opt \<le> 0" and "\<not> o_match_rdp_syn opt"
    and "ci_oversize conn_ok p_ok big_ok args = (0, sends)"
    and "conforming = argv_or args 0 atoi 200" and "oversize = argv_or args 1 atoi 4" and "argv_or args 3 atoi 13 = o_match_dport opt"
    and "0 \<le> oversize" and "oversize < 2 ^ 31" and "conforming < 2 ^ 31"
    and "list_all2 (arrives_as lib v) sends es" and "pl_data_size lib + 6 < OVERSIZE_LEN"
    and "x' = fold (px_step lib) es x" and "D = (\<lambda>i. ci_rule_decide (Some (x_rule x)) (word_of_nat i))"
  shows "\<exists>rows. x_drop_log x' = Some rows \<and> map (unat \<circ> d_index) rows = [0..<nat conforming] \<and>
    map d_dropped rows = map D [0..<nat conforming] \<and>
    unat (x_malformed x') = nat oversize \<and> unat (x_kept x') + unat (x_drops x') = nat conforming"
proof -
  let ?n = "nat conforming" and ?es = "filter (\<lambda>e. \<not> px_big lib v e) es"
  let ?pk = "\<lambda>i. bench_packet 10 20 (word_of_int (o_match_dport opt)) CI_CSP_FRDP (ci_gen_payload (word_of_nat i))"
  note f = proxy_setup_fields [OF assms(1)] and a = arrivals [OF assms(12,13)]
  obtain st where sends: "sends = oversize_loop ?pk oversize st ?n 0 0"
    using assms(5,6,7,8) by (auto simp: ci_oversize_def Let_def split: if_splits)
  have good: "\<forall>e \<in> set ?es. px_good lib v e" using a(1) by auto
  define y where "y = fold (px_step lib) ?es x"
  have same: "x\<lparr>x_malformed := x_malformed x\<rparr> = x" by simp
  have x': "x' = y\<lparr>x_malformed := word_of_nat (nat oversize)\<rparr>"
    using px_run_mixed [OF assms(2) a(1), of "x_malformed x"] a(3) oversize_loop_count [OF assms(9), of ?pk st ?n 0]
    unfolding sends same y_def [symmetric] assms(14) [symmetric] by (simp add: f(6))
  have ps: "map px_packet ?es = map ?pk [0..<?n]" using a(2) unfolding sends oversize_loop_frames by simp
  then have "map snd (map px_view ?es) = map ?pk [0..<?n]" by (simp add: px_packet_def [abs_def] comp_def)
  moreover have syn: "\<not> r_match_rdp_syn (x_rule x)" using assms(1,4) by (auto simp: proxy_lossy_setup_def split: if_splits)
  ultimately have keys: "map (unat \<circ> d_index) (px_rows x ?es) = [0..<?n]"
    unfolding px_rows_def f(9) using f(10) flow_ok_upt [of 0 ?n] assms(11)
    by (intro gen_rdp_keys [of _ 10 20 "o_match_dport opt"]) auto
  have dec: "map d_dropped (px_rows x ?es) = map D [0..<?n]"
    unfolding px_rows_def assms(15) by (rule drop_rows_numbered [OF keys [unfolded px_rows_def]])
  have log: "x_drop_log y = Some (px_rows x ?es)"
    using proxy.run_rows [OF assms(2) good] proxy.run_ok [OF assms(2) good] assms(2) f
    by (auto simp: y_def px_rows_def px_det_def split: if_splits)
  have vs: "px_verdicts x ?es = map D [0..<?n]"
    unfolding px_verdicts_def dec ps using bench_in_scope [OF syn f(10)] by (intro scope_verdicts_all) auto
  have kept: "length (kept_msgs ?es (map D [0..<?n])) = length (filter (\<lambda>i. \<not> D i) [0..<?n])"
    using arg_cong [OF kept_parsed [OF good ps, of pk D], of length] by simp
  have drops: "length (filter d_dropped (px_rows x ?es)) = length (filter D [0..<?n])"
    using filter_count [OF dec, of "\<lambda>b. b"] by simp
  have small: "length (filter P [0..<?n]) < 2 ^ 64" for P
    using length_filter_le [of P "[0..<?n]"] assms(11) by simp
  have "unat (x_kept y) = length (filter (\<lambda>i. \<not> D i) [0..<?n])" "unat (x_drops y) = length (filter D [0..<?n])"
    using px_run_backend [OF assms(2) _ good] f assms(3) small kept drops unfolding y_def vs
    by (simp_all add: unat_of_nat take_bit_nat_eq_self)
  moreover have "unat (word_of_nat (nat oversize) :: u64) = nat oversize"
    using assms(10) by (simp only: unat_of_nat) (simp add: take_bit_nat_eq_self)
  ultimately show ?thesis
    using log keys dec sum_length_filter_compl [of D "[0..<?n]"] unfolding x' by (intro exI [of _ "px_rows x ?es"]) simp
qed

definition oversize_events :: "px_event list" where
  "oversize_events =
     (let pk = (\<lambda>i. bench_packet 10 20 13 CI_CSP_FRDP (ci_gen_payload i))
      in [wire_event (pk 0), (replicate 4096 0xFF, (\<lambda>k. 0), (\<lambda>k. 0), demo_packet), wire_event (pk 1)])"

theorem oversize_stream_recovers_witness:
  "\<exists>rows. x_drop_log (fold (px_step demo_lib) oversize_events (demo_proxy (demo_opts\<lparr>o_match_dport := 13\<rparr>))) = Some rows \<and>
    map (unat \<circ> d_index) rows = [0, 1] \<and>
    unat (x_malformed (fold (px_step demo_lib) oversize_events (demo_proxy (demo_opts\<lparr>o_match_dport := 13\<rparr>)))) = 1"
proof -
  let ?o = "demo_opts\<lparr>o_match_dport := 13\<rparr>" and ?args = "[''2'', ''1'']"
  let ?pk = "\<lambda>i. bench_packet 10 20 13 CI_CSP_FRDP (ci_gen_payload i)"
  have s: "proxy_lossy_setup ?o True demo_packet [] = Inr (demo_proxy ?o)" by code_simp
  have d: "px_det 2 (demo_proxy ?o)" "o_delay_prob ?o \<le> 0" "\<not> o_match_rdp_syn ?o" by code_simp+
  have g: "ci_oversize True True True ?args = (0, [Some (?pk 0), None, Some (?pk 1)])" by code_simp
  have a: "2 = argv_or ?args 0 atoi 200" "1 = argv_or ?args 1 atoi 4" "argv_or ?args 3 atoi 13 = o_match_dport ?o" by code_simp+
  have l: "length (ci_gen_payload i) = 8" for i by (simp add: ci_gen_payload_eq rdp_trailer_def)
  have e: "list_all2 (arrives_as demo_lib 2) [Some (?pk 0), None, Some (?pk 1)] oversize_events"
    by (simp add: oversize_events_def arrives_as_def wire_event_good bench_packet_def l OVERSIZE_LEN_def Let_def)
  have z: "pl_data_size demo_lib + 6 < OVERSIZE_LEN" by (simp add: demo_lib_def OVERSIZE_LEN_def)
  have u: "[0..<nat 2] = [0, 1]" by code_simp
  have b: "(0::int) \<le> 1" "(1::int) < 2 ^ 31" "(2::int) < 2 ^ 31" by simp_all
  from oversize_stream_recovers [OF s d g a b e z refl refl] show ?thesis unfolding u
    by - (elim exE conjE, intro exI conjI, assumption, assumption, simp only: nat_one_as_int)
qed

text \<open>
  The monitor node adds the run time to the clock in 32 bits: when the sum wraps, the router is not run at all.
\<close>

lemma route_pump_wraps:
  assumes "2 ^ 32 \<le> unat t0 + run" and "run < 2 ^ 32" and "t0 \<le> t"
  shows "route_pump (t0 + word_of_nat run) (t # ts) = Some 0"
proof -
  have "unat (t0 + word_of_nat run) = (unat t0 + run) mod 2 ^ 32"
    by (simp add: unat_word_ariths unat_of_nat take_bit_eq_mod mod_simps)
  also have "\<dots> = unat t0 + run - 2 ^ 32"
  proof -
    have "unat t0 < 2 ^ 32" using unsigned_less [where 'a = nat and w = t0] by simp
    then have "unat t0 + run - 2 ^ 32 < 2 ^ 32" using assms(2) by linarith
    then show ?thesis using assms(1) by (simp add: le_mod_geq)
  qed
  finally have "unat (t0 + word_of_nat run) < unat t0" using assms(1,2) by linarith
  then have "\<not> t < t0 + word_of_nat run" using assms by (simp add: word_less_nat_alt word_le_nat_alt)
  then show ?thesis by simp
qed

end
