(* ===== verification/CX_Verdict.thy ===== *)
theory CX_Verdict
  imports CI_Verify CI_Text
begin

text \<open>
  The verdict tool \<open>src/cspx\<close>: \<open>verdict.py\<close> (the engine with the rules of \<open>rules.json\<close>), \<open>adapters.py\<close>
  (from a capture row to an observation) and \<open>cli.py\<close> (the command \<open>explain\<close> and its exit codes), with
  what they use of Python: \<open>str.strip\<close>, \<open>str.lower\<close>, \<open>int\<close> and \<open>csv.DictReader\<close>. A \<open>char\<close> is an ASCII
  character, and a field is shorter than the limit of the CSV reader. Parameters are the contents of the
  files and the result of \<open>argparse\<close>. The free-form field \<open>detail\<close> of an observation, which no adapter fills and no
  rule reads, is left out.
\<close>

section \<open>The engine\<close>

datatype verdict = PASS | FAIL_LOUD | FALSE_COMPLETE

fun exit_code :: "verdict \<Rightarrow> nat" where
  "exit_code PASS = 0"
| "exit_code FALSE_COMPLETE = 2"
| "exit_code FAIL_LOUD = 3"

record run_observation =
  claimed_success :: bool
  check_passed :: bool
  transport :: string
  has_integrity :: "bool option"
  resumed :: bool
  readback_matches :: "bool option"
  injected :: "int option"
  dropped :: "int option"
  obs_label :: string

record verdict_result =
  vr_verdict :: verdict
  vr_where :: string
  vr_proof :: string
  vr_cause_id :: string
  vr_cause :: string
  vr_fix_id :: string
  vr_fix :: string

text \<open>The values of a rule's conditions: a scalar or a list of accepted scalars. A Python bool equals 0 or 1.\<close>

datatype py_val = V_None | V_Bool bool | V_Int int | V_Str string

fun py_eq :: "py_val \<Rightarrow> py_val \<Rightarrow> bool" where
  "py_eq (V_Bool b) (V_Int i) \<longleftrightarrow> of_bool b = i"
| "py_eq (V_Int i) (V_Bool b) \<longleftrightarrow> i = of_bool b"
| "py_eq v w \<longleftrightarrow> v = w"

datatype rule_want = Scalar py_val | Any_Of "py_val list"

record cx_rule =
  ru_id :: string
  ru_when :: "(string \<times> rule_want) list"
  ru_cause :: string
  ru_fix_id :: string
  ru_fix :: string

definition py_opt :: "('a \<Rightarrow> py_val) \<Rightarrow> 'a option \<Rightarrow> py_val" where
  "py_opt f v = (case v of Some x \<Rightarrow> f x | None \<Rightarrow> V_None)"

text \<open>\<open>getattr(obs, key, None)\<close>.\<close>

definition obs_attr :: "run_observation \<Rightarrow> string \<Rightarrow> py_val" where
  "obs_attr obs key =
     (if key = ''claimed_success'' then V_Bool (claimed_success obs)
      else if key = ''check_passed'' then V_Bool (check_passed obs)
      else if key = ''transport'' then V_Str (transport obs)
      else if key = ''has_integrity'' then py_opt V_Bool (has_integrity obs)
      else if key = ''resumed'' then V_Bool (resumed obs)
      else if key = ''readback_matches'' then py_opt V_Bool (readback_matches obs)
      else if key = ''injected'' then py_opt V_Int (injected obs)
      else if key = ''dropped'' then py_opt V_Int (dropped obs)
      else if key = ''label'' then V_Str (obs_label obs)
      else V_None)"

definition rule_matches :: "(string \<times> rule_want) list \<Rightarrow> run_observation \<Rightarrow> bool" where
  "rule_matches conds obs =
     list_all (\<lambda>(key, want). case want of Any_Of vs \<Rightarrow> list_ex (py_eq (obs_attr obs key)) vs
       | Scalar v \<Rightarrow> py_eq (obs_attr obs key) v) conds"

definition classify :: "run_observation \<Rightarrow> verdict" where
  "classify obs = (if check_passed obs then PASS else if claimed_success obs then FALSE_COMPLETE else FAIL_LOUD)"

definition localize :: "run_observation \<Rightarrow> verdict \<Rightarrow> string" where
  "localize obs v =
     (if v = PASS then ''check passed end to end''
      else let drops = (case (dropped obs, injected obs) of
                 (Some d, Some i) \<Rightarrow> if i \<noteq> 0 then ''; '' @ show_int d @ '' of '' @ show_int i @ '' packets dropped'' else []
               | _ \<Rightarrow> [])
           in if readback_matches obs = Some False
              then ''the checked write did not land (readback shows the prior value)'' @ drops
              else if transport obs \<in> {''dtp-push'', ''rdp'', ''svu'', ''rawdtp''}
              then ''the received file failed its content check'' @ drops
              else ''the procedure's success check failed'' @ drops)"

definition proof_text :: "run_observation \<Rightarrow> verdict \<Rightarrow> string" where
  "proof_text obs v =
     (if v = PASS then ''independent check passed''
      else if readback_matches obs = Some False
      then ''readback of the target shows the prior value - the write did not land''
      else ''the independent content check failed (hash mismatch)'')"

fun first_rule :: "cx_rule list \<Rightarrow> run_observation \<Rightarrow> string \<times> string \<times> string \<times> string" where
  "first_rule [] obs = (''unknown'', ''check failed but no known failure-mode rule matched; see evidence'',
     ''investigate'', ''capture drop-log + dissector and add a rule for this mode'')"
| "first_rule (r # rs) obs =
     (if rule_matches (ru_when r) obs then (ru_id r, ru_cause r, ru_fix_id r, ru_fix r) else first_rule rs obs)"

definition explain :: "run_observation \<Rightarrow> verdict \<Rightarrow> cx_rule list \<Rightarrow> string \<times> string \<times> string \<times> string" where
  "explain obs v rules =
     (if v = PASS then (''none'', ''link survived the degraded profile'', ''none'', ''no action'') else first_rule rules obs)"

definition judge :: "cx_rule list \<Rightarrow> run_observation \<Rightarrow> verdict_result" where
  "judge rules obs =
     (let v = classify obs; (cause_id, cause, fix_id, fx) = explain obs v rules
      in \<lparr>vr_verdict = v, vr_where = localize obs v, vr_proof = proof_text obs v,
          vr_cause_id = cause_id, vr_cause = cause, vr_fix_id = fix_id, vr_fix = fx\<rparr>)"

text \<open>The rules that are shipped.\<close>

definition rules_json :: "cx_rule list" where
  "rules_json =
     [\<lparr>ru_id = ''no-integrity'',
       ru_when = [(''transport'', Scalar (V_Str ''dtp-push'')), (''has_integrity'', Scalar (V_Bool False))],
       ru_cause = ''the transport completes without a content check, so corrupt bytes are accepted and reported as delivered'',
       ru_fix_id = ''integrity-gate'',
       ru_fix = ''gate completion on a content hash - use a verified uploader (SVU) or verify after transfer before trusting DELIVERED''\<rparr>,
      \<lparr>ru_id = ''resume-skips-gap'',
       ru_when = [(''resumed'', Scalar (V_Bool True))],
       ru_cause = ''a resumed transfer reported complete but left high-index gaps it never re-fetched'',
       ru_fix_id = ''verified-resume'',
       ru_fix = ''verify the whole file after a resume, not only the resumed range''\<rparr>,
      \<lparr>ru_id = ''drop-no-retry'',
       ru_when = [(''transport'', Scalar (V_Str ''param'')), (''readback_matches'', Scalar (V_Bool False))],
       ru_cause = ''a best-effort command packet was dropped and never retransmitted, so the write never landed'',
       ru_fix_id = ''confirm-retry'',
       ru_fix = ''confirm-and-retry the procedure until a readback confirms the write landed, or send commands over a reliable transport''\<rparr>]"

section \<open>Python strings and numbers\<close>

definition py_space :: "char \<Rightarrow> bool" where
  "py_space c \<longleftrightarrow> is_space c \<or> c \<in> {CHR 0x1C, CHR 0x1D, CHR 0x1E, CHR 0x1F}"

definition strip_by :: "(char \<Rightarrow> bool) \<Rightarrow> string \<Rightarrow> string" where
  "strip_by P s = rev (dropWhile P (rev (dropWhile P s)))"

definition token :: "string \<Rightarrow> string" where
  "token s = map to_lower (strip_by py_space s)"

text \<open>\<open>int(s)\<close>: white space around, a sign, digits in groups joined by single underscores, at most 4300 digits.\<close>

fun digit_groups :: "string \<Rightarrow> bool" where
  "digit_groups [] \<longleftrightarrow> False"
| "digit_groups [c] \<longleftrightarrow> is_digit c"
| "digit_groups (c # d # cs) \<longleftrightarrow> is_digit c \<and> (if d = CHR ''_'' then digit_groups cs else digit_groups (d # cs))"

definition py_int :: "string \<Rightarrow> int option" where
  "py_int s =
     (let (neg, t) = sign_of (strip_by is_space s); ds = filter is_digit t
      in if digit_groups t \<and> length ds \<le> 4300 then Some (if neg then - digits_val ds else digits_val ds) else None)"

section \<open>Capture rows\<close>

text \<open>
  A row as \<open>csv.DictReader\<close> yields it: the columns, where the last of two equal names counts and a
  cell that is missing at the end of a short row is \<open>None\<close>, and whether surplus cells are kept under the key \<open>None\<close>.
\<close>

record py_row =
  pr_cells :: "(string \<times> string option) list"
  pr_rest :: bool

definition py_get :: "py_row \<Rightarrow> string \<Rightarrow> string option option" where
  "py_get row n = map_of (rev (pr_cells row)) n"

fun first_col :: "py_row \<Rightarrow> string list \<Rightarrow> string option" where
  "first_col row [] = None"
| "first_col row (n # ns) =
     (case py_get row n of
        Some v \<Rightarrow> if v \<noteq> Some [] then v else first_col row ns
      | None \<Rightarrow> first_col row ns)"

definition int_or_none :: "string option \<Rightarrow> int option" where
  "int_or_none v = (case v of Some s \<Rightarrow> if s = [] then None else py_int s | None \<Rightarrow> None)"

definition CLAIM_SUCCESS :: "string set" where
  "CLAIM_SUCCESS = {''delivered'', ''verified'', ''complete'', ''completed'', ''success'', ''ok'', ''yes''}"

definition CLAIM_FAIL :: "string set" where
  "CLAIM_FAIL = {''failed'', ''fail'', ''timeout'', ''aborted'', ''abort'', ''error'', ''no''}"

definition NO_INTEGRITY :: "string set" where
  "NO_INTEGRITY = {''dtp-push'', ''rawdtp'', ''dtp'', ''csp'', ''csp_sw''}"

text \<open>
  The exceptions. The messages for a missing column sort the row's keys, which raises a \<open>TypeError\<close>
  itself if the key \<open>None\<close> is among several.
\<close>

datatype py_error = Value_Error | Type_Error | Csv_Error | Os_Error

definition truthy_success :: "string \<Rightarrow> py_error + bool" where
  "truthy_success tok =
     (let t = token tok in if t \<in> CLAIM_SUCCESS then Inr True else if t \<in> CLAIM_FAIL then Inr False else Inl Value_Error)"

definition no_column :: "py_row \<Rightarrow> py_error" where
  "no_column row = (if pr_rest row \<and> pr_cells row \<noteq> [] then Type_Error else Value_Error)"

definition row_arm :: "py_row \<Rightarrow> string \<Rightarrow> string" where
  "row_arm row label =
     (let arm = token (case first_col row [''arm''] of Some a \<Rightarrow> a | None \<Rightarrow> [])
      in if arm \<noteq> [] then arm
         else if py_get row ''client_reported_success'' \<noteq> None \<or> take 6 label = ''csp_sw'' then ''dtp-push''
         else if py_get row ''crc'' \<noteq> None then ''rdp''
         else if py_get row ''rounds'' \<noteq> None then ''svu''
         else [])"

definition arm_transport :: "string \<Rightarrow> string \<times> bool option" where
  "arm_transport arm =
     (let tr = (if arm = [] then ''unknown'' else arm)
      in if tr \<in> NO_INTEGRITY then (''dtp-push'', Some False)
         else if tr \<in> {''rdp'', ''svu''} then (tr, Some True) else (tr, None))"

definition normalize_row :: "py_row \<Rightarrow> py_error + run_observation" where
  "normalize_row row =
     (case first_col row [''client_reported_success'', ''claimed'', ''result'', ''status''] of
        None \<Rightarrow> Inl (no_column row)
      | Some claim_tok \<Rightarrow>
     (case truthy_success claim_tok of
        Inl e \<Rightarrow> Inl e
      | Inr claimed \<Rightarrow>
     (case first_col row [''matches_original'', ''sha256_verdict'', ''sha'', ''sha256''] of
        None \<Rightarrow> Inl (no_column row)
      | Some check_tok \<Rightarrow>
          (let passed = token check_tok \<in> {''match'', ''yes'', ''ok'', ''pass''};
               label = (case first_col row [''label''] of Some l \<Rightarrow> l | None \<Rightarrow> []);
               (tr, integrity) = arm_transport (row_arm row label);
               passes = int_or_none (first_col row [''passes'', ''rounds''])
           in Inr \<lparr>claimed_success = claimed, check_passed = passed, transport = tr, has_integrity = integrity,
                resumed = (case passes of Some p \<Rightarrow> p > 1 | None \<Rightarrow> False), readback_matches = None,
                injected = int_or_none (first_col row [''injected'', ''total_injected'']),
                dropped = int_or_none (first_col row [''dropped'', ''total_dropped'']), obs_label = label\<rparr>))))"

section \<open>The CSV reader\<close>

text \<open>The lines of a file opened with \<open>newline=''''\<close>, each with its line end.\<close>

fun py_lines :: "string \<Rightarrow> string list" where
  "py_lines [] = []"
| "py_lines (c # cs) =
     (if c = CHR 0x0A then [c] # py_lines cs
      else if c = CHR 0x0D then (case cs of d # cs' \<Rightarrow> if d = CHR 0x0A then [c, d] # py_lines cs' else [c] # py_lines cs | [] \<Rightarrow> [[c]])
      else case py_lines cs of l # ls \<Rightarrow> (c # l) # ls | [] \<Rightarrow> [[c]])"

datatype csv_state = START_RECORD | START_FIELD | IN_FIELD | IN_QUOTED_FIELD | QUOTE_IN_QUOTED_FIELD | EAT_CRNL

record csv_reader =
  cr_state :: csv_state
  cr_field :: string
  cr_fields :: "string list"

definition csv_empty :: csv_reader where
  "csv_empty = \<lparr>cr_state = START_RECORD, cr_field = [], cr_fields = []\<rparr>"

definition csv_add :: "char \<Rightarrow> csv_state \<Rightarrow> csv_reader \<Rightarrow> csv_reader" where
  "csv_add c st r = r\<lparr>cr_field := cr_field r @ [c], cr_state := st\<rparr>"

definition csv_save :: "csv_state \<Rightarrow> csv_reader \<Rightarrow> csv_reader" where
  "csv_save st r = r\<lparr>cr_fields := cr_fields r @ [cr_field r], cr_field := [], cr_state := st\<rparr>"

definition is_eol :: "char option \<Rightarrow> bool" where
  "is_eol c \<longleftrightarrow> c \<in> {None, Some (CHR 0x0A), Some (CHR 0x0D)}"

text \<open>
  One character in the default dialect, or the end of the line (\<open>None\<close>); no result for a character after the
  line end within a line.
\<close>

definition csv_start_field :: "char option \<Rightarrow> csv_reader \<Rightarrow> csv_reader" where
  "csv_start_field c r =
     (if is_eol c then csv_save (if c = None then START_RECORD else EAT_CRNL) r
      else if c = Some (CHR 0x22) then r\<lparr>cr_state := IN_QUOTED_FIELD\<rparr>
      else if c = Some (CHR '','') then csv_save START_FIELD r
      else csv_add (the c) IN_FIELD r)"

definition csv_char :: "char option \<Rightarrow> csv_reader \<Rightarrow> csv_reader option" where
  "csv_char c r =
     (case cr_state r of
        START_RECORD \<Rightarrow>
          if c = None then Some r
          else if is_eol c then Some (r\<lparr>cr_state := EAT_CRNL\<rparr>)
          else Some (csv_start_field c r)
      | START_FIELD \<Rightarrow> Some (csv_start_field c r)
      | IN_FIELD \<Rightarrow>
          if is_eol c then Some (csv_save (if c = None then START_RECORD else EAT_CRNL) r)
          else if c = Some (CHR '','') then Some (csv_save START_FIELD r)
          else Some (csv_add (the c) IN_FIELD r)
      | IN_QUOTED_FIELD \<Rightarrow>
          if c = None then Some r
          else if c = Some (CHR 0x22) then Some (r\<lparr>cr_state := QUOTE_IN_QUOTED_FIELD\<rparr>)
          else Some (csv_add (the c) IN_QUOTED_FIELD r)
      | QUOTE_IN_QUOTED_FIELD \<Rightarrow>
          if c = Some (CHR 0x22) then Some (csv_add (the c) IN_QUOTED_FIELD r)
          else if c = Some (CHR '','') then Some (csv_save START_FIELD r)
          else if is_eol c then Some (csv_save (if c = None then START_RECORD else EAT_CRNL) r)
          else Some (csv_add (the c) IN_FIELD r)
      | EAT_CRNL \<Rightarrow>
          if c = None then Some (r\<lparr>cr_state := START_RECORD\<rparr>)
          else if is_eol c then Some r else None)"

fun csv_chars :: "char option list \<Rightarrow> csv_reader \<Rightarrow> csv_reader option" where
  "csv_chars [] r = Some r"
| "csv_chars (c # cs) r = (case csv_char c r of Some r' \<Rightarrow> csv_chars cs r' | None \<Rightarrow> None)"

text \<open>The records of the lines, and whether the reader ended with an error.\<close>

fun csv_read :: "string list \<Rightarrow> csv_reader \<Rightarrow> string list list \<times> bool" where
  "csv_read [] r = (if cr_field r \<noteq> [] \<or> cr_state r = IN_QUOTED_FIELD then [cr_fields r @ [cr_field r]] else [], False)"
| "csv_read (l # ls) r =
     (case csv_chars (map Some l @ [None]) r of
        None \<Rightarrow> ([], True)
      | Some r' \<Rightarrow>
          if cr_state r' = START_RECORD
          then (let (recs, err) = csv_read ls csv_empty in (cr_fields r' # recs, err))
          else csv_read ls r')"

definition dict_row :: "string list \<Rightarrow> string list \<Rightarrow> py_row" where
  "dict_row fieldnames row =
     \<lparr>pr_cells = zip fieldnames (map Some row) @ map (\<lambda>k. (k, None)) (drop (length row) fieldnames),
      pr_rest = (length fieldnames < length row)\<rparr>"

definition dict_rows :: "string list list \<Rightarrow> py_row list" where
  "dict_rows recs = (case recs of [] \<Rightarrow> [] | fieldnames # rows \<Rightarrow> map (dict_row fieldnames) (filter (\<lambda>r. r \<noteq> []) rows))"

fun normalize_all :: "py_row list \<Rightarrow> py_error + run_observation list" where
  "normalize_all [] = Inr []"
| "normalize_all (row # rows) =
     (case normalize_row row of
        Inl e \<Rightarrow> Inl e
      | Inr obs \<Rightarrow> (case normalize_all rows of Inl e \<Rightarrow> Inl e | Inr os \<Rightarrow> Inr (obs # os)))"

definition observations_from_csv :: "string \<Rightarrow> py_error + run_observation list" where
  "observations_from_csv text =
     (let (recs, err) = csv_read (filter (\<lambda>l. take 1 l \<noteq> ''#'') (py_lines text)) csv_empty
      in case normalize_all (dict_rows recs) of
           Inl e \<Rightarrow> Inl e
         | Inr os \<Rightarrow> if err then Inl Csv_Error else Inr os)"

section \<open>The command\<close>

datatype cspx_args = Usage_Error | Show_Help | Explain string bool

text \<open>The exit code and, per row, the label with the result.\<close>

definition cmd_explain :: "(string \<Rightarrow> string option) \<Rightarrow> string \<Rightarrow> py_error + nat \<times> (string \<times> verdict_result) list" where
  "cmd_explain files capture =
     (case files capture of
        None \<Rightarrow> Inl Os_Error
      | Some text \<Rightarrow>
          (case observations_from_csv text of
             Inl e \<Rightarrow> Inl e
           | Inr obs \<Rightarrow>
               (let rs = map (\<lambda>ob. (obs_label ob, judge rules_json ob)) obs;
                    worst = fold (\<lambda>(l, r) w. max w (exit_code (vr_verdict r))) rs 0
                in Inr (worst, rs))))"

text \<open>
  The exit code of the process: \<open>argparse\<close> leaves it with 2 for a bad command line and with 0 after the help text,
  and an exception that nobody catches with 1.
\<close>

definition cspx_main :: "(string \<Rightarrow> string option) \<Rightarrow> cspx_args \<Rightarrow> nat" where
  "cspx_main files a =
     (case a of
        Usage_Error \<Rightarrow> 2
      | Show_Help \<Rightarrow> 0
      | Explain capture json \<Rightarrow> (case cmd_explain files capture of Inl e \<Rightarrow> 1 | Inr (worst, rs) \<Rightarrow> worst))"

section \<open>Reading a table\<close>

text \<open>A table of fields that need no quotes, its lines ended by a newline.\<close>

definition csv_plain :: "string \<Rightarrow> bool" where
  "csv_plain f \<longleftrightarrow> (\<forall>c \<in> set f. c \<notin> {CHR '','', CHR 0x0A, CHR 0x0D, CHR 0x22})"

definition table_line :: "string list \<Rightarrow> bool" where
  "table_line fs \<longleftrightarrow> (\<forall>f \<in> set fs. csv_plain f) \<and> join_fields fs \<noteq> [] \<and> hd (join_fields fs) \<noteq> CHR ''#''"

definition table_text :: "string list list \<Rightarrow> string" where
  "table_text rows = concat (map (\<lambda>fs. join_fields fs @ [CHR 0x0A]) rows)"

lemma py_lines_append:
  "\<forall>c \<in> set l. c \<noteq> CHR 0x0A \<and> c \<noteq> CHR 0x0D \<Longrightarrow> py_lines (l @ CHR 0x0A # t) = (l @ [CHR 0x0A]) # py_lines t"
  by (induction l) auto

lemma csv_plain_Cons: "csv_plain (c # f) \<longleftrightarrow> c \<notin> {CHR '','', CHR 0x0A, CHR 0x0D, CHR 0x22} \<and> csv_plain f"
  by (auto simp: csv_plain_def)

lemma csv_in_field:
  "csv_plain f \<Longrightarrow> cr_state r = IN_FIELD \<Longrightarrow>
     csv_chars (map Some f @ cs) r = csv_chars cs (r\<lparr>cr_field := cr_field r @ f\<rparr>)"
proof (induction f arbitrary: r)
  case (Cons c f)
  let ?r = "r\<lparr>cr_field := cr_field r @ [c]\<rparr>"
  have "csv_char (Some c) r = Some ?r"
    using Cons.prems by (cases r) (auto simp: csv_plain_Cons csv_char_def is_eol_def csv_add_def)
  with Cons.IH [of ?r] Cons.prems show ?case by (simp add: csv_plain_Cons)
qed simp

lemma csv_start:
  "csv_plain f \<Longrightarrow> f \<noteq> [] \<Longrightarrow> cr_state r \<in> {START_RECORD, START_FIELD} \<Longrightarrow>
     csv_chars (map Some f @ cs) r = csv_chars cs (r\<lparr>cr_field := cr_field r @ f, cr_state := IN_FIELD\<rparr>)"
proof (cases f)
  case (Cons c f')
  let ?r = "r\<lparr>cr_field := cr_field r @ [c], cr_state := IN_FIELD\<rparr>"
  assume f: "csv_plain f" "cr_state r \<in> {START_RECORD, START_FIELD}"
  then have "csv_char (Some c) r = Some ?r"
    by (cases r) (auto simp: Cons csv_plain_Cons csv_char_def csv_start_field_def is_eol_def csv_add_def)
  with csv_in_field [of f' ?r] f show ?thesis by (cases r) (simp add: Cons csv_plain_Cons)
qed simp

text \<open>A field up to the comma after it, and the last field up to the end of the line.\<close>

lemma csv_comma:
  assumes "csv_plain f" and "cr_state r \<in> {START_RECORD, START_FIELD}"
  shows "csv_chars (map Some (f @ CHR '','' # t) @ cs) r =
    csv_chars (map Some t @ cs) (r\<lparr>cr_fields := cr_fields r @ [cr_field r @ f], cr_field := [], cr_state := START_FIELD\<rparr>)"
  using assms
  by (cases "f = []") (auto simp: csv_start csv_char_def csv_start_field_def is_eol_def csv_save_def)

lemma csv_last:
  assumes "csv_plain f" and "cr_state r = START_FIELD \<or> cr_state r = START_RECORD \<and> f \<noteq> []"
  shows "csv_chars (map Some (f @ [CHR 0x0A]) @ [None]) r =
    Some (r\<lparr>cr_fields := cr_fields r @ [cr_field r @ f], cr_field := [], cr_state := START_RECORD\<rparr>)"
  using assms
  by (cases "f = []") (auto simp: csv_start csv_char_def csv_start_field_def is_eol_def csv_save_def)

lemma csv_line:
  "\<forall>f \<in> set fs. csv_plain f \<Longrightarrow> fs \<noteq> [] \<Longrightarrow> cr_field r = [] \<Longrightarrow>
   cr_state r = START_FIELD \<or> cr_state r = START_RECORD \<and> join_fields fs \<noteq> [] \<Longrightarrow>
     csv_chars (map Some (join_fields fs @ [CHR 0x0A]) @ [None]) r =
       Some (r\<lparr>cr_fields := cr_fields r @ fs, cr_field := [], cr_state := START_RECORD\<rparr>)"
proof (induction fs arbitrary: r rule: join_fields.induct)
  case (2 f)
  then show ?case using csv_last [of f r] by auto
next
  case (3 f g fs)
  let ?r = "r\<lparr>cr_fields := cr_fields r @ [f], cr_field := [], cr_state := START_FIELD\<rparr>"
  have "csv_chars (map Some (join_fields (f # g # fs) @ [CHR 0x0A]) @ [None]) r =
      csv_chars (map Some (join_fields (g # fs) @ [CHR 0x0A]) @ [None]) ?r"
    using csv_comma [of f r "join_fields (g # fs) @ [CHR 0x0A]" "[None]"] 3(2,4,5) by auto
  also have "\<dots> = Some (?r\<lparr>cr_fields := cr_fields ?r @ g # fs, cr_field := [], cr_state := START_RECORD\<rparr>)"
    by (rule 3(1)) (use 3(2) in auto)
  finally show ?case by simp
qed simp

lemma table_line_fields: "table_line fs \<Longrightarrow> fs \<noteq> []"
  by (auto simp: table_line_def)

lemma table_line_chars:
  assumes "table_line fs"
  shows "\<forall>c \<in> set (join_fields fs). c \<noteq> CHR 0x0A \<and> c \<noteq> CHR 0x0D"
proof
  fix c assume "c \<in> set (join_fields fs)"
  then consider "c = CHR '',''" | f where "f \<in> set fs" "c \<in> set f" using set_join_fields [of fs] by blast
  then show "c \<noteq> CHR 0x0A \<and> c \<noteq> CHR 0x0D"
  proof cases
    case 2
    then have "csv_plain f" using assms by (simp add: table_line_def)
    with 2(2) show ?thesis by (simp add: csv_plain_def)
  qed simp
qed

lemma table_lines:
  "\<forall>fs \<in> set rows. table_line fs \<Longrightarrow>
     filter (\<lambda>l. take 1 l \<noteq> ''#'') (py_lines (table_text rows)) = map (\<lambda>fs. join_fields fs @ [CHR 0x0A]) rows"
proof (induction rows)
  case (Cons fs rows)
  have l: "py_lines (table_text (fs # rows)) = (join_fields fs @ [CHR 0x0A]) # py_lines (table_text rows)"
  proof -
    have "table_text (fs # rows) = join_fields fs @ CHR 0x0A # table_text rows" by (simp add: table_text_def)
    moreover have "\<forall>c \<in> set (join_fields fs). c \<noteq> CHR 0x0A \<and> c \<noteq> CHR 0x0D"
      by (rule table_line_chars) (use Cons.prems in simp)
    ultimately show ?thesis by (simp only: py_lines_append)
  qed
  obtain c cs where c: "join_fields fs = c # cs" "c \<noteq> CHR ''#''" using Cons.prems by (cases "join_fields fs") (simp_all add: table_line_def)
  then have "take 1 (join_fields fs @ [CHR 0x0A]) \<noteq> ''#''" by simp
  moreover have "filter (\<lambda>l. take 1 l \<noteq> ''#'') (py_lines (table_text rows)) = map (\<lambda>fs. join_fields fs @ [CHR 0x0A]) rows"
    using Cons by simp
  ultimately show ?case unfolding l by (simp only: filter.simps if_True list.map not_False_eq_True)
qed (simp add: table_text_def)

lemma csv_read_table:
  "\<forall>fs \<in> set rows. table_line fs \<Longrightarrow> csv_read (map (\<lambda>fs. join_fields fs @ [CHR 0x0A]) rows) csv_empty = (rows, False)"
proof (induction rows)
  case (Cons fs rows)
  have "csv_chars (map Some (join_fields fs @ [CHR 0x0A]) @ [None]) csv_empty =
      Some (csv_empty\<lparr>cr_fields := cr_fields csv_empty @ fs, cr_field := [], cr_state := START_RECORD\<rparr>)"
    using Cons.prems table_line_fields [of fs] by (intro csv_line) (auto simp: csv_empty_def table_line_def)
  with Cons show ?case by (simp add: csv_empty_def)
qed (simp add: csv_empty_def)

lemma observations_of_table:
  assumes "\<forall>fs \<in> set (hs # rows). table_line fs"
  shows "observations_from_csv (table_text (hs # rows)) = normalize_all (map (dict_row hs) rows)"
proof -
  have "filter (\<lambda>r. r \<noteq> []) rows = rows" using assms table_line_fields by (auto simp: filter_id_conv)
  then show ?thesis
    using csv_read_table [OF assms] table_lines [OF assms]
    by (simp add: observations_from_csv_def dict_rows_def del: list.map split: sum.split)
qed

section \<open>Verdicts\<close>

lemma judge_verdict [simp]: "vr_verdict (judge rules ob) = classify ob"
  by (simp add: judge_def Let_def case_prod_beta)

lemma judge_cause [simp]: "vr_cause_id (judge rules ob) = fst (explain ob (classify ob) rules)"
  "vr_cause (judge rules ob) = fst (snd (explain ob (classify ob) rules))"
  by (simp_all add: judge_def Let_def case_prod_beta)

lemma normalize_all_Inr: "normalize_all rows = Inr obs \<longleftrightarrow> map normalize_row rows = map Inr obs"
proof (induction rows arbitrary: obs)
  case (Cons row rows)
  then show ?case by (cases obs; cases "normalize_row row"; cases "normalize_all rows") auto
qed auto

lemma normalize_all_Inl: "normalize_all rows = Inl e \<Longrightarrow> \<exists>row \<in> set rows. normalize_row row = Inl e"
  by (induction rows) (auto split: sum.splits)

lemma no_Inl: "list_all (\<lambda>r. case r of Inl e \<Rightarrow> False | Inr x \<Rightarrow> True) rs \<Longrightarrow> \<not> (\<exists>e. Inl e \<in> set rs)"
  by (induction rs) (auto split: sum.splits)

lemma some_Inr: "list_ex (\<lambda>r. case r of Inl e \<Rightarrow> False | Inr x \<Rightarrow> P x) rs \<Longrightarrow> \<exists>x. Inr x \<in> set rs \<and> P x"
  by (induction rs) (auto split: sum.splits)

lemma worst_code:
  "fold (\<lambda>(l, r) w. max w (exit_code (vr_verdict r))) (map (\<lambda>ob. (obs_label ob, judge rules ob)) obs) w =
     max w (if \<exists>ob \<in> set obs. classify ob = FAIL_LOUD then 3 else if \<exists>ob \<in> set obs. classify ob = FALSE_COMPLETE then 2 else 0)"
proof (induction obs arbitrary: w)
  case (Cons ob obs)
  then show ?case by (cases "classify ob") auto
qed simp

lemma arm_transport_integrity: "arm_transport arm = (tr, integrity) \<Longrightarrow> integrity = Some False \<longleftrightarrow> tr = ''dtp-push''"
proof -
  have "''dtp-push'' \<in> NO_INTEGRITY" by (simp add: NO_INTEGRITY_def)
  then show "arm_transport arm = (tr, integrity) \<Longrightarrow> ?thesis" by (auto simp: arm_transport_def Let_def split: if_splits)
qed

lemma normalized_fields:
  assumes "normalize_row row = Inr ob"
  shows "readback_matches ob = None" "has_integrity ob = Some False \<longleftrightarrow> transport ob = ''dtp-push''"
proof -
  obtain tok claim ctok where c: "first_col row [''client_reported_success'', ''claimed'', ''result'', ''status''] = Some tok"
    "truthy_success tok = Inr claim" "first_col row [''matches_original'', ''sha256_verdict'', ''sha'', ''sha256''] = Some ctok"
    using assms unfolding normalize_row_def by (simp split: option.split_asm sum.split_asm)
  obtain label where l: "(case first_col row [''label''] of Some l \<Rightarrow> l | None \<Rightarrow> []) = label" by simp
  have "readback_matches ob = None \<and> transport ob = fst (arm_transport (row_arm row label)) \<and>
      has_integrity ob = snd (arm_transport (row_arm row label))"
    using assms unfolding normalize_row_def c option.case sum.case l Let_def case_prod_beta by (simp only: sum.inject) auto
  then have *: "readback_matches ob = None \<and> (\<exists>a. transport ob = fst (arm_transport a) \<and> has_integrity ob = snd (arm_transport a))"
    by blast
  then show "readback_matches ob = None" by simp
  from * show "has_integrity ob = Some False \<longleftrightarrow> transport ob = ''dtp-push''"
    using arm_transport_integrity [OF prod.collapse [symmetric]] by metis
qed

section \<open>Properties\<close>

text \<open>
  Property C22. The exit code of \<open>cspx explain\<close> on a capture whose fields need no quotes. It is 1 if
  some row has no success or check column or an unknown success token; otherwise it is 3 if some run
  failed its check and said so, else 2 if some run failed its check and reported success, else 0. So
  0 means that every run passed its check, and a false success is reported as 2 only if no other run
  failed loudly.
\<close>

theorem cspx_exit_code:
  assumes "\<forall>fs \<in> set (hs # rows). table_line fs" and "files path = Some (table_text (hs # rows))"
    and "runs = map (normalize_row \<circ> dict_row hs) rows"
  shows "cspx_main files (Explain path json) =
    (if \<exists>e. Inl e \<in> set runs then 1
     else if \<exists>ob. Inr ob \<in> set runs \<and> \<not> check_passed ob \<and> \<not> claimed_success ob then 3
     else if \<exists>ob. Inr ob \<in> set runs \<and> \<not> check_passed ob \<and> claimed_success ob then 2 else 0)"
proof (cases "normalize_all (map (dict_row hs) rows)")
  case (Inl e)
  then have "\<exists>e. Inl e \<in> set runs" using normalize_all_Inl [of "map (dict_row hs) rows" e] by (force simp: assms(3))
  with Inl show ?thesis using assms(2) by (simp add: cspx_main_def cmd_explain_def observations_of_table [OF assms(1)])
next
  case (Inr obs)
  then have runs: "runs = map Inr obs" using normalize_all_Inr [of "map (dict_row hs) rows" obs] by (simp add: assms(3))
  have "cspx_main files (Explain path json) = (if \<exists>ob \<in> set obs. classify ob = FAIL_LOUD then 3
      else if \<exists>ob \<in> set obs. classify ob = FALSE_COMPLETE then 2 else 0)"
    using assms(2) Inr worst_code [of rules_json obs 0]
    by (simp add: cspx_main_def cmd_explain_def observations_of_table [OF assms(1)] Let_def)
  then show ?thesis unfolding runs by (auto simp: classify_def split: if_splits)
qed

text \<open>A capture with a false success and a loud failure exits with 3.\<close>

theorem cspx_exit_code_witness:
  "cspx_main (\<lambda>p. Some (table_text [[''claimed'', ''sha''], [''DELIVERED'', ''MISMATCH''], [''FAILED'', ''MISMATCH'']]))
     (Explain ''c.csv'' True) = 3"
proof -
  let ?hs = "[''claimed'', ''sha'']" and ?rows = "[[''DELIVERED'', ''MISMATCH''], [''FAILED'', ''MISMATCH'']]"
  have l: "\<forall>fs \<in> set (?hs # ?rows). table_line fs" by code_simp
  let ?runs = "map (normalize_row \<circ> dict_row ?hs) ?rows"
  have e: "list_all (\<lambda>r. case r of Inl e \<Rightarrow> False | Inr ob \<Rightarrow> True) ?runs" by code_simp
  have f: "list_ex (\<lambda>r. case r of Inl e \<Rightarrow> False | Inr ob \<Rightarrow> \<not> check_passed ob \<and> \<not> claimed_success ob) ?runs" by code_simp
  have "\<not> (\<exists>e. Inl e \<in> set ?runs)" using e by (rule no_Inl)
  moreover have "\<exists>ob. Inr ob \<in> set ?runs \<and> \<not> check_passed ob \<and> \<not> claimed_success ob"
    using f by (rule some_Inr)
  ultimately show ?thesis
    using cspx_exit_code [OF l, of "\<lambda>p. Some (table_text (?hs # ?rows))" "''c.csv''" ?runs True] by (simp only: simp_thms if_True if_False)
qed

text \<open>
  The cause that the shipped rules give for a row of a capture: none for a passed check,
  otherwise the missing integrity check for the transports that have none, a resume for a run with
  several passes, and unknown in every other case. The third rule is never used for a capture, since
  a capture row carries no readback.
\<close>

theorem cspx_cause_table:
  assumes "normalize_row row = Inr ob"
  shows "vr_cause_id (judge rules_json ob) =
    (if check_passed ob then ''none'' else if has_integrity ob = Some False then ''no-integrity''
     else if resumed ob then ''resume-skips-gap'' else ''unknown'')"
proof -
  have "rule_matches (ru_when (rules_json ! 0)) ob \<longleftrightarrow> has_integrity ob = Some False"
    "rule_matches (ru_when (rules_json ! 1)) ob \<longleftrightarrow> resumed ob" "\<not> rule_matches (ru_when (rules_json ! 2)) ob"
    using normalized_fields [OF assms]
    by (auto simp: rules_json_def rule_matches_def obs_attr_def py_opt_def split: option.splits)
  then show ?thesis
    by (simp add: explain_def classify_def rules_json_def)
qed

theorem cspx_cause_table_witness:
  "\<exists>ob. normalize_row (dict_row [''arm'', ''passes'', ''result'', ''sha256_verdict''] [''rawdtp'', ''2'', ''DELIVERED'', ''MISMATCH'']) = Inr ob \<and>
    vr_cause_id (judge rules_json ob) = ''no-integrity''"
proof -
  let ?row = "dict_row [''arm'', ''passes'', ''result'', ''sha256_verdict''] [''rawdtp'', ''2'', ''DELIVERED'', ''MISMATCH'']"
  have "(case normalize_row ?row of Inl e \<Rightarrow> False | Inr ob \<Rightarrow> \<not> check_passed ob \<and> has_integrity ob = Some False)" by code_simp
  then obtain ob where ob: "normalize_row ?row = Inr ob" "\<not> check_passed ob" "has_integrity ob = Some False"
    by (auto split: sum.splits)
  with cspx_cause_table [OF ob(1)] show ?thesis by simp
qed

text \<open>
  The rule for resumed transfers does not ask what the run claimed: a resumed run that reported its
  failure is explained by a transfer that \<open>reported complete\<close>.
\<close>

theorem cspx_loud_run_reported_complete:
  "\<exists>ob. normalize_row (dict_row [''claimed'', ''sha'', ''rounds''] [''FAILED'', ''MISMATCH'', ''3'']) = Inr ob \<and>
    vr_verdict (judge rules_json ob) = FAIL_LOUD \<and>
    vr_cause (judge rules_json ob) = ''a resumed transfer reported complete but left high-index gaps it never re-fetched''"
proof -
  have "(case normalize_row (dict_row [''claimed'', ''sha'', ''rounds''] [''FAILED'', ''MISMATCH'', ''3'']) of Inl e \<Rightarrow> False
    | Inr ob \<Rightarrow> vr_verdict (judge rules_json ob) = FAIL_LOUD \<and>
        vr_cause (judge rules_json ob) = ''a resumed transfer reported complete but left high-index gaps it never re-fetched'')"
    by code_simp
  then show ?thesis by (auto split: sum.splits)
qed

end
