(* ===== verification/SG_Audit.thy ===== *)
theory SG_Audit
  imports CX_Verdict
begin

text \<open>
  The audit \<open>src/satguard/satguard.py\<close>: from the evidence files of a captures directory to the verdict per
  mechanism and overall. The rows are those of \<open>csv.DictReader\<close>; a number is in decimal notation. The HTML report,
  which repeats these verdicts, is left out.
\<close>

section \<open>Evidence\<close>

text \<open>\<open>str(r.get(k)).strip()\<close>.\<close>

definition cell :: "py_row \<Rightarrow> string \<Rightarrow> string" where
  "cell r k = strip_by py_space (case py_get r k of Some (Some s) \<Rightarrow> s | _ \<Rightarrow> ''None'')"

text \<open>\<open>float\<close> on decimal notation: a sign, digits with at most one point, and an exponent.\<close>

definition decimal :: "string \<Rightarrow> bool" where
  "decimal s =
     (let t = snd (sign_of s); ip = takeWhile is_digit t; t = dropWhile is_digit t;
          point = (t \<noteq> [] \<and> hd t = CHR ''.'');
          fp = (if point then takeWhile is_digit (tl t) else []);
          t = (if point then dropWhile is_digit (tl t) else t);
          ds = (if t \<noteq> [] \<and> (hd t = CHR ''e'' \<or> hd t = CHR ''E'') then Some (snd (sign_of (tl t))) else None)
      in ip @ fp \<noteq> [] \<and> (case ds of None \<Rightarrow> t = [] | Some e \<Rightarrow> e \<noteq> [] \<and> list_all is_digit e))"

definition py_float :: "string \<Rightarrow> double option" where
  "py_float s = (if decimal s then Some (atof s) else None)"

definition loss_of :: "py_row \<Rightarrow> double option" where
  "loss_of r = py_float (cell r ''loss'')"

definition is_lossy :: "py_row \<Rightarrow> bool" where
  "is_lossy r \<longleftrightarrow> loss_of r \<noteq> None \<and> loss_of r \<noteq> Some 0"

definition is_clean :: "py_row \<Rightarrow> bool" where
  "is_clean r \<longleftrightarrow> loss_of r = Some 0"

datatype mechanism = Deployed_Client | Raw_Dtp | Satdeploy_Smart | Satdeploy_Naive

text \<open>The two numbers of the headline, and those of the clean control where there is one.\<close>

record audit_verdict =
  av_name :: mechanism
  av_vulnerable :: bool
  av_headline :: "nat \<times> nat"
  av_control :: "(nat \<times> nat) option"

definition count :: "('a \<Rightarrow> bool) \<Rightarrow> 'a list \<Rightarrow> nat" where
  "count P xs = length (filter P xs)"

definition verdict_deployed :: "py_row list \<Rightarrow> audit_verdict option" where
  "verdict_deployed rows =
     (if rows = [] then None
      else let lossy = filter is_lossy rows; clean = filter is_clean rows;
               silent = count (\<lambda>r. cell r ''corrupt_but_accepted'' = ''yes'') lossy
           in Some \<lparr>av_name = Deployed_Client, av_vulnerable = (silent > 0), av_headline = (silent, length lossy),
                av_control = Some (count (\<lambda>r. cell r ''matches_original'' = ''yes'') clean, length clean)\<rparr>)"

definition verdict_rawdtp :: "py_row list \<Rightarrow> audit_verdict option" where
  "verdict_rawdtp rows =
     (if rows = [] then None
      else let oks = filter (\<lambda>r. cell r ''status'' = ''ok'') rows;
               lossy = filter is_lossy oks; clean = filter is_clean oks;
               false_c = count (\<lambda>r. cell r ''result'' = ''DELIVERED'' \<and> cell r ''sha256_verdict'' = ''MISMATCH'') lossy
           in Some \<lparr>av_name = Raw_Dtp, av_vulnerable = (false_c > 0), av_headline = (false_c, length lossy),
                av_control = Some (count (\<lambda>r. cell r ''sha256_verdict'' = ''MATCH'') clean, length clean)\<rparr>)"

definition run_done :: "py_row \<Rightarrow> bool" where
  "run_done r \<longleftrightarrow> cell r ''result'' \<in> {''DEPLOYED'', ''DELIVERED'', ''VERIFIED''}"

definition satdeploy_arm :: "py_row list \<Rightarrow> bool \<Rightarrow> audit_verdict list" where
  "satdeploy_arm rows smart =
     (let a = filter (\<lambda>r. cell r ''arm'' = (if smart then ''smart'' else ''naive'') \<and> cell r ''status'' = ''ok'') rows;
          lossy = filter is_lossy a
      in if a = [] then []
         else if smart
         then [\<lparr>av_name = Satdeploy_Smart, av_vulnerable = False, av_headline = (count run_done lossy, length lossy),
                av_control = None\<rparr>]
         else let incomplete = count (\<lambda>r. \<not> run_done r) lossy
              in [\<lparr>av_name = Satdeploy_Naive, av_vulnerable = (incomplete > 0), av_headline = (incomplete, length lossy),
                   av_control = None\<rparr>])"

definition verdict_satdeploy :: "py_row list \<Rightarrow> audit_verdict list" where
  "verdict_satdeploy rows = (if rows = [] then [] else satdeploy_arm rows True @ satdeploy_arm rows False)"

text \<open>The rows of a file of the directory, none if it does not exist; an error of the reader ends the program.\<close>

definition evidence :: "(string \<Rightarrow> string option) \<Rightarrow> string \<Rightarrow> py_row list option" where
  "evidence files name =
     (case files name of
        None \<Rightarrow> Some []
      | Some text \<Rightarrow> (let (recs, err) = csv_read (py_lines text) csv_empty in if err then None else Some (dict_rows recs)))"

definition gather :: "(string \<Rightarrow> string option) \<Rightarrow> audit_verdict list option" where
  "gather files =
     (case (evidence files ''rq3_corruption.csv'', evidence files ''rawdtp_sweep.csv'', evidence files ''satdeploy_sweep.csv'') of
        (Some d, Some r, Some s) \<Rightarrow>
          Some ((case verdict_deployed d of Some v \<Rightarrow> [v] | None \<Rightarrow> []) @
                (case verdict_rawdtp r of Some v \<Rightarrow> [v] | None \<Rightarrow> []) @ verdict_satdeploy s)
      | _ \<Rightarrow> None)"

text \<open>The overall line of the summary: the mechanisms that are vulnerable, of all.\<close>

datatype overall = Overall_Vulnerable nat nat | Overall_Pass

definition print_summary :: "audit_verdict list \<Rightarrow> overall" where
  "print_summary vs =
     (let vuln = count av_vulnerable vs in if vuln > 0 then Overall_Vulnerable vuln (length vs) else Overall_Pass)"

text \<open>The exit code and the summary; without a directory, without evidence and after an exception the code is 1.\<close>

definition satguard_main :: "(string \<Rightarrow> string option) option \<Rightarrow> int \<times> overall option" where
  "satguard_main captures =
     (case captures of
        None \<Rightarrow> (1, None)
      | Some files \<Rightarrow>
          (case gather files of
             None \<Rightarrow> (1, None)
           | Some vs \<Rightarrow> if vs = [] then (1, None) else (0, Some (print_summary vs))))"

section \<open>What the overall verdict means\<close>

lemma count_pos: "count P xs > 0 \<longleftrightarrow> (\<exists>x \<in> set xs. P x)"
  by (induction xs) (auto simp: count_def)

text \<open>
  The audit of a directory whose files can be read and hold some evidence passes exactly if no lossy row
  of the deployed client is marked as accepted although corrupt, no lossy raw transfer was delivered with a
  mismatch, and every lossy run of the arm without recovery completed. The arm with recovery has no part in it.
\<close>

theorem satguard_pass:
  assumes "evidence files ''rq3_corruption.csv'' = Some d" and "evidence files ''rawdtp_sweep.csv'' = Some r"
    and "evidence files ''satdeploy_sweep.csv'' = Some s" and "gather files \<noteq> Some []"
  shows "satguard_main (Some files) = (0, Some Overall_Pass) \<longleftrightarrow>
    \<not> (\<exists>x \<in> set d. is_lossy x \<and> cell x ''corrupt_but_accepted'' = ''yes'') \<and>
    \<not> (\<exists>x \<in> set r. is_lossy x \<and> cell x ''status'' = ''ok'' \<and> cell x ''result'' = ''DELIVERED'' \<and>
         cell x ''sha256_verdict'' = ''MISMATCH'') \<and>
    (\<forall>x \<in> set s. is_lossy x \<and> cell x ''arm'' = ''naive'' \<and> cell x ''status'' = ''ok'' \<longrightarrow> run_done x)"
proof -
  obtain vs where vs: "gather files = Some vs" "vs \<noteq> []" using assms by (auto simp: gather_def)
  have g: "vs = (case verdict_deployed d of Some v \<Rightarrow> [v] | None \<Rightarrow> []) @
      (case verdict_rawdtp r of Some v \<Rightarrow> [v] | None \<Rightarrow> []) @ verdict_satdeploy s"
    using vs(1) assms(1-3) by (simp add: gather_def)
  have pass: "satguard_main (Some files) = (0, Some Overall_Pass) \<longleftrightarrow> \<not> (\<exists>v \<in> set vs. av_vulnerable v)"
    using vs count_pos [of av_vulnerable vs] by (auto simp: satguard_main_def print_summary_def Let_def)
  have 1: "(\<exists>v \<in> set (case verdict_deployed d of Some v \<Rightarrow> [v] | None \<Rightarrow> []). av_vulnerable v) \<longleftrightarrow>
      (\<exists>x \<in> set d. is_lossy x \<and> cell x ''corrupt_but_accepted'' = ''yes'')"
    unfolding verdict_deployed_def Let_def by (simp add: count_pos) blast
  have 2: "(\<exists>v \<in> set (case verdict_rawdtp r of Some v \<Rightarrow> [v] | None \<Rightarrow> []). av_vulnerable v) \<longleftrightarrow>
      (\<exists>x \<in> set r. is_lossy x \<and> cell x ''status'' = ''ok'' \<and> cell x ''result'' = ''DELIVERED'' \<and> cell x ''sha256_verdict'' = ''MISMATCH'')"
    unfolding verdict_rawdtp_def Let_def by (simp add: count_pos) blast
  have 3: "(\<exists>v \<in> set (verdict_satdeploy s). av_vulnerable v) \<longleftrightarrow>
      \<not> (\<forall>x \<in> set s. is_lossy x \<and> cell x ''arm'' = ''naive'' \<and> cell x ''status'' = ''ok'' \<longrightarrow> run_done x)"
    unfolding verdict_satdeploy_def satdeploy_arm_def Let_def by (simp add: count_pos filter_empty_conv) blast
  show ?thesis unfolding pass g set_append bex_Un 1 2 3 by blast
qed

text \<open>
  The arm with recovery is called not vulnerable whatever its rows say: a run that was delivered with a
  mismatch passes the audit. A run of the other arm that reported its failure counts as a mechanism that
  silently accepts corruption.
\<close>

definition sweep_files :: "string list list \<Rightarrow> string \<Rightarrow> string option" where
  "sweep_files rows name = (if name = ''satdeploy_sweep.csv''
     then Some (table_text ([''arm'', ''status'', ''loss'', ''result'', ''sha256_verdict''] # rows)) else None)"

theorem satguard_trusts_smart:
  "satguard_main (Some (sweep_files [[''smart'', ''ok'', ''0.1'', ''DELIVERED'', ''MISMATCH'']])) = (0, Some Overall_Pass)"
  by code_simp

theorem satguard_blames_loud_failure:
  "satguard_main (Some (sweep_files [[''naive'', ''ok'', ''0.1'', ''FAILED'', ''MISMATCH'']])) = (0, Some (Overall_Vulnerable 1 1))"
  by code_simp

end
