(* ===== verification/Spec2Isabelle.thy ===== *)
theory Spec2Isabelle
  imports CI_Rule CI_Ge CI_Seq CI_Meas CI_Sha256_Vectors CI_Drop_Iface CI_Monitor CI_Verify
    PX_Options PX_Delay PX_Capture SVU_Transfer SVU_Faults SVU_Push SVU_Net CI_Bridge CI_Bench
    CI_Two_Oracle CI_Tools SG_Audit
begin

text \<open>
  A verification library for csp-intercept: fault injection, measurement and a verified uploader for
  links that speak the Cubesat Space Protocol (CSP).

  \<^bold>\<open>The program.\<close> A small C library (\<open>src/lib\<close>) holds the decisions that must be the same
  everywhere: which packet a drop rule hits, the key that identifies a packet across runs, a burst
  loss model, sequence tracking and RTT pairing, SHA-256, and the reassembly of an upload. Two
  injectors use it to drop packets: a shim interface inside a node (\<open>src/inject\<close>) and a ZMQ proxy
  between nodes (\<open>src/proxy\<close>). Both write a drop log. A monitor (\<open>src/apm\<close>) captures what passes and
  infers the loss, so that log and capture can be held against each other. The uploader (\<open>src/svu\<close>)
  moves a file over the lossy link, asks again for missing and corrupt ranges, and reports success
  only for verified bytes. The bench (\<open>src/tests/e2e\<close>) runs generators, injectors and the monitor against each
  other and joins log and capture; a verdict tool (\<open>src/cspx\<close>) and an audit (\<open>src/satguard\<close>) classify recorded runs.

  \<^bold>\<open>Theories.\<close>
  \<^item> \<open>CI_Prelude\<close>: types for machine integers and byte strings, null-checked pointers (\<open>on_ptr\<close>),
    collections of rewrite rules, lemmas on words and lists. \<open>CI_Double\<close>: the binary64 operations
    that the sources use, with rounding. \<open>CI_Libc\<close>: \<open>atoi\<close>, \<open>strtoul\<close>, \<open>atof\<close>, \<open>getopt\<close>, \<open>fgets\<close>. \<open>CI_Text\<close>:
    numbers and comma-separated rows as text.
  \<^item> \<open>CI_Prng\<close> (\<open>ci_prng.h\<close>), \<open>CI_Wire\<close> (\<open>ci_rdp.c\<close>, \<open>ci_dtp.c\<close> and the payloads of the traffic
    generators), \<open>CI_Rule\<close> (\<open>ci_rule.c\<close>), \<open>CI_Ge\<close> (\<open>ci_ge.c\<close>), \<open>CI_Sha256\<close> with \<open>CI_Sha256_Vectors\<close>
    (\<open>ci_sha256.c\<close>), \<open>CI_Seq\<close> and \<open>CI_Meas\<close> (\<open>ci_meas.c\<close>), \<open>CI_Svu\<close> (\<open>ci_svu.c\<close>): the library, one
    definition per C function, structures as records, loops as recursive functions.
  \<^item> \<open>CI_Csp\<close>: what the programs see of a CSP packet, the text of a row of the drop log, the reference for the
    log of a run, and the interface \<open>drop_oracle\<close>: a state with rule, tracker and rows, and laws for
    its step. \<open>CI_Drop_Iface\<close> (\<open>ci_drop_iface.c\<close>) and \<open>PX_Proxy\<close> (the forwarding loop of
    \<open>zmqproxy.c\<close>) interpret it, and their main theorems rest on it.
  \<^item> \<open>PX_Options\<close> (the command line and the CURVE key of \<open>zmqproxy.c\<close>), \<open>PX_Delay\<close> (its delay worker,
    interleaved with the main loop as a step relation), \<open>PX_Capture\<close> (the capture and socket-monitor
    threads and \<open>main\<close>).
  \<^item> \<open>CI_Monitor\<close> (start, stop and the drainer of \<open>csp_monitor_apm.c\<close>) and \<open>CI_Verify\<close> (its command
    \<open>verify\<close>).
  \<^item> \<open>SVU_Proto\<close> (\<open>svu_proto.h\<close>), \<open>SVU_Serve\<close> (\<open>svu_serve.c\<close>), \<open>SVU_Session\<close> (\<open>svu_session.c\<close>),
    \<open>SVU_Transfer\<close> (client and server composed over a link), \<open>SVU_Net\<close> (\<open>svu_net.c\<close>, \<open>svu_debug.c\<close>),
    \<open>SVU_Push\<close> (\<open>svu_daemon.c\<close>, \<open>svu_push.c\<close>, \<open>svu_apm.c\<close>, \<open>svu_client.c\<close>, \<open>svu_server.c\<close>).
  \<^item> \<open>SVU_Faults\<close>: the server without buffers and the client against a peer that announces at most
    \<open>2^27 - 2048\<close> blocks and is otherwise arbitrary. The two sending
    loops of the server share the interface \<open>buffered_loop\<close>.
  \<^item> \<open>CI_Bridge\<close> (\<open>ci_inject_bridge.c\<close>, the shim between two buses with split horizon) and \<open>CI_Bench\<close>
    (\<open>ci_gen.c\<close>, \<open>ci_gen_dtp.c\<close> and \<open>ci_inject_can.c\<close>, the numbered streams of the bench). \<open>CI_Tools\<close>
    (\<open>ci_oversize.c\<close>, \<open>ci_sub.c\<close>, \<open>ci_monitor_host.c\<close>).
  \<^item> \<open>CI_Two_Oracle\<close>: the text of the capture, the join of \<open>two_oracle.sh\<close> and \<open>two_oracle_dtp.sh\<close>, and the
    interface \<open>oracle_pair\<close> (a numbered stream in the rule's scope, keyed by its numbers in the log, one row
    per packet in the capture), interpreted for the streams of both generators.
  \<^item> \<open>CX_Verdict\<close> (\<open>verdict.py\<close>, \<open>rules.json\<close>, \<open>adapters.py\<close> and \<open>cli.py\<close> of \<open>src/cspx\<close>) and
    \<open>SG_Audit\<close> (the verdicts of \<open>satguard.py\<close>).
  \<^item> This theory: the properties that span the injectors and the monitor.

  \<^bold>\<open>How the code is modelled.\<close> Integers keep their C width as words; a C \<open>int\<close> that is only compared
  is an \<open>int\<close>. A pointer that may be null is an option, an out-parameter is a component of the result,
  global and static variables are fields of the program's state record. A file or a log is the list
  of what was written to it. Errors and early returns are values. A \<open>printf\<close> text is modelled where
  another part reads it (the drop log, the capture, the verdicts) and left out otherwise.

  \<^bold>\<open>Parameters.\<close> libcsp, libzmq, the kernel, the disk and the shell's option parser are arguments: the
  interface below the shim (\<open>csp_stack\<close>), the packet parser and the queue of the proxy (\<open>proxy_lib\<close>; the
  queue is assumed to be a bounded FIFO where that matters, \<open>fifo\<close>), the packets, clock and counters
  that each pass of the monitor reads (\<open>mon_input\<close>), the control connection, the data socket and the
  disk of the uploader's client (\<open>svu_env\<close>), the node's files and peers (\<open>push_env\<close>). Every assumption on
  them is an explicit hypothesis with a concrete instance in the property's witness.

  \<^bold>\<open>Termination.\<close> The server's loops step an unsigned 32-bit offset and may wrap around: they are
  partial functions into option, \<open>None\<close> stands for a loop that never ends, and the theorems prove
  that a result exists for payloads a packet short of 4 GiB. The client runs at most the source's 500
  rounds, which is its own bound and not a bound of the model. Endless loops (proxy, drainer, daemon,
  capture) are folds over the events that they receive, for every finite sequence of events.

  \<^bold>\<open>What the theorems show.\<close>
  \<^item> Injection: the drop rate of a rule is exact to \<open>2^-64\<close> and monotone in the probability; the flow
    index is the sender's packet number across wraps; the burst model's streaming and batch forms
    agree, and its parameters give the requested loss up to rounding; shim and proxy implement one
    reference and write the same log; no frame overflows the proxy's packet buffer; messages are
    conserved under every interleaving with the delay worker. The bridge injects by the same
    reference, and split horizon keeps frames from looping on media that return every transmission;
    the log of a bench run is the table of the rule's decisions on the packet numbers; the proxy
    recovers from oversized messages.
  \<^item> Measurement: the inferred loss and the classification of each packet are exact within the window, up
    to the row that the monitor writes; the RTT ring implements a list of the last 256 packets; a
    window is suspect exactly when the instrument lost packets; the capture and the drop log partition the DTP
    fragments; the monitor's states are consistent. For the generators' streams through the proxy, from its
    start to Ctrl-C, the join of the two texts never reports a frame that was dropped and observed. The
    verdict tool exits with 0 only if every run passed its check.
  \<^item> Upload: the receiver's verdict is sound up to SHA-256 collisions and its reports are exactly the missing or
    corrupt ranges; answering them completes the transfer; requests survive the wire; the server
    answers with exactly the requested bytes and terminates; client and server together deliver the file
    over a lossy link, and so do the push command and its daemon. Without buffers the server sends a part of
    the same answer and ends; against a peer that announces at most \<open>2^27 - 2048\<close> blocks the client's state
    stays well-typed (beyond that the size of the manifest wraps). When the push command reports
    success, the daemon wrote the whole file that the command line names, up to SHA-256 collisions.
    SHA-256 is the block-wise reference for every split of the input.
  \<^item> Where the code does less than it says, a theorem states what it does instead: two epoch steps for
    one late packet, a backfill that hides a loss, lost delayed messages, options without effect,
    guards before a truncation, silent truncation of paths and endpoints, unchecked writes.

  \<^bold>\<open>Not modelled.\<close> Socket and thread set-up beyond the order of the calls, allocation and release of memory
  (except the address buffer of the monitor threads, where it matters), data races on single variables between the
  proxy's threads (each handler is atomic), usage texts and progress output, the key
  generator (libzmq), the banner of the monitor beyond its port label, the unit tests and the test hosts under \<open>src/tests\<close> that
  only call the library with fixed inputs, the report of satguard, and the sweep and plot scripts. \<open>strtod\<close> is modelled for decimal
  notation, Python's strings for ASCII.
\<close>

section \<open>The two injectors write the same log\<close>

text \<open>
  Property C4. The drop decision does not depend on where it is taken. A shim interface and a lossy
  proxy that are set up with the same rule and the same MTU (and the proxy with the shim's fragment
  overhead), and that handle the same packets at the same times, write the same drop log.
\<close>

theorem two_injectors_agree:
  assumes "ci_drop_iface_init name target (Some (x_rule x)) mtu (Some []) sp = (0, Some s)"
    and "proxy_lossy_setup opt log_ok pk q = Inr x" and "px_det v x"
    and "word_of_int (o_mtu_arg opt) = mtu" and "word_of_int (o_overhead_arg opt) = CI_DTP_OVERHEAD_DIPP"
    and "\<forall>e \<in> set pes. px_good lib v e" and "map tx_view es = map px_view pes"
  shows "i_drop_log (fst (snd (shim_run stk es (s, w)))) = x_drop_log (fold (px_step lib) pes x)"
proof -
  note x = proxy_setup_fields [OF assms(2)]
  have s: "i_rule s = x_rule x" "i_tracker s = ci_flow_tracker_init mtu" "i_drop_log s = Some []"
    "\<not> i_per_attempt s"
    using assms(1) by (auto simp: ci_drop_iface_init_def split: option.splits)
  have "i_tracker s = x_tracker x" using x(9) assms(4,5) s by (simp add: ci_flow_tracker_init_def)
  then have "the (i_drop_log (fold shim_step es s)) = the (x_drop_log (fold (px_step lib) pes x))"
    using shim.run_rows [of s es] proxy.run_rows [OF assms(3,6)] s assms(3,7) x(2)
    by (auto simp: px_det_def split: if_splits)
  moreover have "i_drop_log (fold shim_step es s) \<noteq> None"
    using shim.run_ok [of s es] s(3,4) by simp
  moreover have "px_det v (fold (px_step lib) pes x)"
    by (rule proxy.run_ok [OF assms(3,6)])
  ultimately show ?thesis by (auto simp: shim_run_eq px_det_def split: prod.split)
qed

definition demo_es :: "tx list" where
  "demo_es = map (\<lambda>e. (fst (px_view e), snd (px_view e), 0, 1)) [demo_event 8 0, demo_event 9 1, demo_event 8 2]"

theorem two_injectors_agree_witness:
  "i_drop_log (fst (snd (shim_run recorder demo_es (fresh_shim (x_rule (demo_proxy demo_opts)), [], [])))) =
     x_drop_log (fold (px_step demo_lib) [demo_event 8 0, demo_event 9 1, demo_event 8 2] (demo_proxy demo_opts))"
proof (rule two_injectors_agree)
  show "ci_drop_iface_init (Some ''DROP'') (Some plain_iface) (Some (x_rule (demo_proxy demo_opts))) 200 (Some [])
    (Some (fresh_shim (x_rule (demo_proxy demo_opts)))) = (0, Some (fresh_shim (x_rule (demo_proxy demo_opts))))"
    by (rule fresh_shim_init)
  show "proxy_lossy_setup demo_opts True demo_packet [] = Inr (demo_proxy demo_opts)" by code_simp
  show "px_det 2 (demo_proxy demo_opts)" by code_simp
  show "word_of_int (o_mtu_arg demo_opts) = (200 :: u16)" by code_simp
  show "word_of_int (o_overhead_arg demo_opts) = CI_DTP_OVERHEAD_DIPP" by code_simp
  show "\<forall>e \<in> set [demo_event 8 0, demo_event 9 1, demo_event 8 2]. px_good demo_lib 2 e"
    by (simp add: demo_event_good)
  show "map tx_view demo_es = map px_view [demo_event 8 0, demo_event 9 1, demo_event 8 2]"
    by (simp add: demo_es_def tx_view_def)
qed

text \<open>
  The proxy behind the DTP generator: set up with the generator's MTU and overhead, its log has one
  row per generated packet, keyed by the packet's number and with the rule's decision on that number.
\<close>

lemma zmq_bench_log:
  assumes "proxy_lossy_setup opt log_ok pk q = Inr x" and "px_det v x" and "\<forall>e \<in> set pes. px_good lib v e"
    and "ci_gen_dtp conn_ok alloc args = (0, ps)" and "map (snd \<circ> px_view) pes = ps"
    and "o_match_dport opt = 8" and "\<not> r_match_rdp_syn (x_rule x)"
    and "o_mtu_arg opt = argv_or args 2 atoi 200" and "o_overhead_arg opt = argv_or args 3 atoi 4"
    and "o_mtu_arg opt < 65536" and "length ps * nat (o_mtu_arg opt - o_overhead_arg opt) \<le> 2 ^ 32"
  shows "\<exists>rows. x_drop_log (fold (px_step lib) pes x) = Some rows \<and> map (unat \<circ> d_index) rows = [0..<length ps] \<and>
    map d_dropped rows = map (\<lambda>i. ci_rule_decide (Some (x_rule x)) (word_of_nat i)) [0..<length ps]"
proof -
  note x = proxy_setup_fields [OF assms(1)]
  let ?es = "map px_view pes"
  let ?rows = "drop_rows (x_rule x) (x_tracker x) ?es"
  have keys: "map (unat \<circ> d_index) ?rows = [0..<length ps]"
    using ci_gen_dtp_rows [OF assms(4), of ?es "x_rule x" "o_mtu_arg opt" "o_overhead_arg opt"] assms(5-11) x(9,10) by simp
  have "x_drop_log (fold (px_step lib) pes x) = Some ?rows"
    using proxy.run_rows [OF assms(2,3)] proxy.run_ok [OF assms(2,3)] x(2) assms(2)
    by (auto simp: px_det_def split: if_splits)
  with keys drop_rows_numbered [OF keys] show ?thesis by blast
qed

section \<open>The drop log and the capture partition the fragments\<close>

text \<open>The fragment column of the capture, and the fragment number a packet on the DTP port carries.\<close>

definition csv_frags :: "mon_row list \<Rightarrow> u32 list" where
  "csv_frags rows = concat (map (\<lambda>r. case r of Dtp_Row t src dst dport fl off frag \<Rightarrow> [frag] | _ \<Rightarrow> []) rows)"

definition dtp_frag :: "u16 \<Rightarrow> u16 \<Rightarrow> csp_packet \<Rightarrow> u32 list" where
  "dtp_frag mtu ovh p =
     (if c_dport p = CI_DTP_DATA_PORT \<and> \<not> f_is_rdp (packet_frame p)
      then [case ci_dtp_parse_offset (Some (c_data p)) of
              Some off \<Rightarrow> (case ci_dtp_fragment_index_ovh off mtu ovh of Some k \<Rightarrow> k | None \<Rightarrow> 0)
            | None \<Rightarrow> 0]
      else [])"

lemma csv_frags_simps [simp]:
  "csv_frags [] = []" "csv_frags (xs @ ys) = csv_frags xs @ csv_frags ys"
  "csv_frags [Rdp_Row a b c d e f g h i j] = []"
  "csv_frags [Dtp_Row a b c d e off frag] = [frag]"
  "csv_frags [Window_Row a ovf bout left loss dup ro suspect flags] = []"
  by (simp_all add: csv_frags_def)

definition port_monitor :: "u16 \<Rightarrow> u16 \<Rightarrow> monitor \<Rightarrow> bool" where
  "port_monitor mtu ovh m \<longleftrightarrow> m_match_dport m = uint CI_DTP_DATA_PORT \<and> m_mtu m = mtu \<and>
     m_dtp_overhead m = ovh \<and> m_csv m \<noteq> None"

lemma mon_packet_frags:
  assumes "port_monitor mtu ovh m"
  shows "port_monitor mtu ovh (mon_packet t p m) \<and>
    csv_frags (the (m_csv (mon_packet t p m))) = csv_frags (the (m_csv m)) @ dtp_frag mtu ovh p"
  using assms
  by (auto simp: port_monitor_def mon_packet_def mon_rdp_def mon_dtp_def mon_in_scope_def dtp_frag_def
      packet_frame_def Let_def case_prod_beta split: option.split)

lemma mon_window_frags:
  assumes "port_monitor mtu ovh m"
  shows "port_monitor mtu ovh (fst (mon_window inp (m, dr))) \<and>
    csv_frags (the (m_csv (fst (mon_window inp (m, dr))))) = csv_frags (the (m_csv m))"
  using assms by (auto simp: port_monitor_def mon_window_def Let_def case_prod_beta)

lemma mon_pass_frags:
  assumes "port_monitor mtu ovh m"
  shows "port_monitor mtu ovh (fst (mon_pass inp (m, dr))) \<and>
    csv_frags (the (m_csv (fst (mon_pass inp (m, dr))))) = csv_frags (the (m_csv m)) @
      (case in_packet inp of Some p \<Rightarrow> dtp_frag mtu ovh p | None \<Rightarrow> [])"
  using assms mon_window_frags [of mtu ovh _ inp dr] mon_packet_frags [of mtu ovh m]
  by (simp add: mon_pass_def split: option.split)

lemma mon_drainer_frags:
  assumes "port_monitor mtu ovh m"
  shows "csv_frags (the (m_csv (fst (mon_drainer inps (m, dr))))) = csv_frags (the (m_csv m)) @
    concat (map (dtp_frag mtu ovh) (List.map_filter in_packet inps))"
  using assms
proof (induction inps arbitrary: m dr)
  case Nil
  then show ?case by (simp add: mon_drainer_def List.map_filter_def)
next
  case (Cons inp inps)
  obtain m' dr' where p: "mon_pass inp (m, dr) = (m', dr')" by fastforce
  from mon_pass_frags [OF Cons.prems, of inp dr] Cons.IH [of m' dr'] show ?case
    by (simp add: mon_drainer_def p map_filter_Cons split: option.split)
qed

lemma ucast_32_64_32: "ucast (ucast (x :: u32) :: u64) = x"
  by (rule bit_word_eqI) (auto simp: bit_simps)

text \<open>The packets a run of the shim puts on the link, from the verdicts.\<close>

definition kept_packets :: "bool list \<Rightarrow> tx list \<Rightarrow> csp_packet list" where
  "kept_packets ds es = map (fst \<circ> snd \<circ> snd) (filter (\<lambda>(d, e). \<not> d) (zip ds es))"

lemma wire_run_recorder:
  "fst (snd (wire_run recorder (zip ds es) (sent, freed))) = sent @ kept_packets ds es"
proof (induction ds es arbitrary: sent freed rule: list_induct2')
  case (4 d ds e es)
  show ?case
    by (cases e) (simp add: recorder_def kept_packets_def 4 [unfolded recorder_def kept_packets_def]
        case_prod_beta Let_def)
qed (simp_all add: kept_packets_def)

definition dtp_rule :: "ci_drop_rule \<Rightarrow> bool" where
  "dtp_rule r \<longleftrightarrow> r_match_dport r = uint CI_DTP_DATA_PORT \<and> \<not> r_match_rdp_syn r"

lemma kept_frags:
  assumes "dtp_rule r" and "t_dtp_mtu t = mtu" and "t_dtp_overhead t = ovh"
  shows "concat (map (dtp_frag mtu ovh)
      (kept_packets (scope_verdicts r (map (fst \<circ> snd) es) (map d_dropped (drop_rows r t (map tx_view es)))) es)) =
    map (ucast \<circ> d_index)
      (filter (\<lambda>d. \<not> d_dropped d \<and> \<not> d_is_rdp d) (drop_rows r t (map tx_view es)))"
  using assms
proof (induction es arbitrary: t)
  case (Cons e es)
  obtain ms p via me where e: "e = (ms, p, via, me)" by (cases e)
  have sc: "in_scope r p \<longleftrightarrow> c_dport p = CI_DTP_DATA_PORT"
    using Cons.prems(1)
    by (auto simp: dtp_rule_def in_scope_def ci_rule_match_def packet_frame_def ci_frame_from_fields_def Let_def)
  obtain i t' where it: "packet_index p t = (i, t')" by fastforce
  have t': "t_dtp_mtu t' = mtu" "t_dtp_overhead t' = ovh"
    using packet_index_mtu [of p t] it Cons.prems by simp_all
  have fr: "\<not> f_is_rdp (packet_frame p) \<Longrightarrow> c_dport p = CI_DTP_DATA_PORT \<Longrightarrow> dtp_frag mtu ovh p = [ucast i]"
    using it Cons.prems
    by (auto simp: dtp_frag_def packet_index_def ci_flow_index_body_def ucast_32_64_32 Let_def split: option.splits)
  have fr': "f_is_rdp (packet_frame p) \<or> c_dport p \<noteq> CI_DTP_DATA_PORT \<Longrightarrow> dtp_frag mtu ovh p = []"
    by (auto simp: dtp_frag_def)
  show ?case
    using Cons.IH [OF Cons.prems] Cons.IH [OF Cons.prems(1) t'] fr fr'
    by (auto simp: e it sc tx_view_def kept_packets_def log_row_def)
qed (simp add: kept_packets_def)

text \<open>
  Property C8. The two records of an experiment partition the DTP fragments. A shim drops on the DTP
  port, the packets that pass reach the monitor in the same order (whatever other passes the drainer
  makes in between), and both use the same MTU and overhead: then the fragment column that the
  capture gains is, row by row, the index column of those rows of the drop log that are not dropped
  and not RDP. So a fragment that was sent is in exactly one of the two records.
\<close>

theorem capture_is_complement:
  assumes "ci_drop_iface_init name target (Some r) mtu (Some []) sp = (0, Some s)" and "dtp_rule r"
    and "shim_run recorder es (s, [], []) = (rcs, s', sent, freed)" and "i_drop_log s' = Some rows"
    and "port_monitor mtu CI_DTP_OVERHEAD_DIPP m" and "List.map_filter in_packet inps = sent"
  shows "csv_frags (the (m_csv (fst (mon_drainer inps (mon_drainer_init ovf bout ms m))))) =
    csv_frags (the (m_csv m)) @ map (ucast \<circ> d_index) (filter (\<lambda>d. \<not> d_dropped d \<and> \<not> d_is_rdp d) rows)"
proof -
  have s: "i_rule s = r" "i_tracker s = ci_flow_tracker_init mtu" "i_drop_log s = Some []"
    "\<not> i_per_attempt s"
    using assms(1) by (auto simp: ci_drop_iface_init_def split: option.splits)
  have s': "s' = fold shim_step es s" using assms(3) by (auto simp: shim_run_eq split: prod.splits)
  have rows: "rows = drop_rows r (ci_flow_tracker_init mtu) (map tx_view es)"
    using shim.run_rows [of s es] s assms(4) s' by simp
  obtain rows' where e: "shim_effect s es rows'" using shim_effect_ex by blast
  have v: "shim_verdicts es s = scope_verdicts r (map (fst \<circ> snd) es) (map d_dropped rows)"
    using e s s' assms(4) by (simp add: shim_effect_def Let_def)
  have "sent = kept_packets (shim_verdicts es s) es"
    using wire_run_recorder [of "shim_verdicts es s" es "[]" "[]"] assms(3)
    by (auto simp: shim_run_eq split: prod.splits)
  then have "concat (map (dtp_frag mtu CI_DTP_OVERHEAD_DIPP) sent) =
      map (ucast \<circ> d_index) (filter (\<lambda>d. \<not> d_dropped d \<and> \<not> d_is_rdp d) rows)"
    unfolding v rows by (simp add: kept_frags [OF assms(2)] ci_flow_tracker_init_def ci_flow_tracker_init_ovh_def)
  moreover have "port_monitor mtu CI_DTP_OVERHEAD_DIPP (fst (mon_drainer_init ovf bout ms m))"
    "m_csv (fst (mon_drainer_init ovf bout ms m)) = m_csv m"
    using assms(5) by (simp_all add: mon_drainer_init_def port_monitor_def)
  ultimately show ?thesis
    using mon_drainer_frags [of mtu CI_DTP_OVERHEAD_DIPP "fst (mon_drainer_init ovf bout ms m)" inps
        "snd (mon_drainer_init ovf bout ms m)"] assms(6) by simp
qed

definition capture_input :: "csp_packet \<Rightarrow> mon_input" where
  "capture_input p = \<lparr>in_packet = Some p, in_t = 5, in_now = 5, in_ovf = 0, in_bout = 0,
     in_remaining = 500, in_ovf2 = 0, in_bout2 = 0\<rparr>"

definition dtp_monitor :: monitor where
  "dtp_monitor = running_monitor\<lparr>m_match_dport := 8\<rparr>"

theorem capture_is_complement_witness:
  "csv_frags (the (m_csv (fst (mon_drainer (map (\<lambda>i. capture_input (fst (snd (dtp_tx i 8)))) [0, 2])
      (mon_drainer_init 0 0 0 dtp_monitor))))) = [0, 2]"
proof -
  let ?es = "[dtp_tx 0 8, dtp_tx 1 8, dtp_tx 2 8]" and ?r = "replay_rule [0, 1, 0]"
  let ?p = "\<lambda>i. fst (snd (dtp_tx i 8))"
  let ?s' = "fst (snd (shim_run recorder ?es (fresh_shim ?r, [], [])))"
    and ?rows = "the (i_drop_log (fst (snd (shim_run recorder ?es (fresh_shim ?r, [], [])))))"
  have r: "shim_run recorder ?es (fresh_shim ?r, [], []) = ([7, 0, 7], ?s', map ?p [0, 2], map ?p [1])"
    by code_simp
  have l: "i_drop_log ?s' = Some ?rows" by code_simp
  have i: "map (ucast \<circ> d_index) (filter (\<lambda>d. \<not> d_dropped d \<and> \<not> d_is_rdp d) ?rows) = [0, 2 :: u32]" by code_simp
  have d: "dtp_rule ?r" by code_simp
  have m: "port_monitor 200 CI_DTP_OVERHEAD_DIPP dtp_monitor" by code_simp
  have c: "csv_frags (the (m_csv dtp_monitor)) = []" by code_simp
  have p: "List.map_filter in_packet (map (\<lambda>i. capture_input (?p i)) [0, 2]) = map ?p [0, 2]"
    by (simp add: List.map_filter_def capture_input_def)
  from capture_is_complement [OF fresh_shim_init [of ?r "fresh_shim ?r"] d r l m p, of 0 0 0]
  show ?thesis unfolding i c by simp
qed

end
